(* ===== verification/Iprp_Prelude.thy ===== *)
theory Iprp_Prelude
  imports Main "HOL-Library.Word"
begin

text \<open>
  Shared vocabulary of the development: the machine types of the C code, faults as values,
  sequencing of fallible steps, byte memory (reads and writes of little-endian fields at an
  offset, as the daemons do through packed structures), and the list lemmas the components
  share.  The host is little-endian with signed \<open>char\<close>, 32-bit \<open>int\<close> and
  64-bit \<open>size_t\<close> and \<open>time_t\<close> (Linux on x86-64, gcc).
\<close>

unbundle bit_operations_syntax

section \<open>Machine types\<close>

type_synonym u8 = "8 word"
type_synonym u16 = "16 word"
type_synonym u32 = "32 word"
type_synonym u64 = "64 word"

text \<open>An IPv4 address is the opaque 32-bit \<open>s_addr\<close>; \<open>time_t\<close> is a signed count of seconds.\<close>

type_synonym in_addr = u32
type_synonym time_t = int
type_synonym bytes = "u8 list"

named_theorems mem_simps \<open>reads of byte memory after writes\<close>
named_theorems run_simps \<open>unfolding of fallible steps\<close>

section \<open>Faults and fallible steps\<close>

text \<open>
  \<open>Err\<close> is the macro ERR: print the message and exit the process.  The other
  constructors are the undefined behaviours the code can reach: an access outside an object,
  a null or dangling pointer, a signed overflow, a shift by too many bits.
\<close>

datatype fault =
    Err string
  | OutOfBounds
  | NullDeref
  | UseAfterFree
  | SignedOverflow
  | BadShift

type_synonym 'a result = "fault + 'a"

definition and_then :: "'a result \<Rightarrow> ('a \<Rightarrow> 'b result) \<Rightarrow> 'b result" where
  "and_then r f = (case r of Inl e \<Rightarrow> Inl e | Inr x \<Rightarrow> f x)"

lemma and_then_Inl [simp, run_simps]: "and_then (Inl e) f = Inl e"
  by (simp add: and_then_def)

lemma and_then_Inr [simp, run_simps]: "and_then (Inr x) f = f x"
  by (simp add: and_then_def)

lemma and_then_eq_Inr: "and_then r f = Inr y \<longleftrightarrow> (\<exists>x. r = Inr x \<and> f x = Inr y)"
  by (simp add: and_then_def split: sum.splits)

lemma and_then_eq_Inl:
  "and_then r f = Inl e \<longleftrightarrow> r = Inl e \<or> (\<exists>x. r = Inr x \<and> f x = Inl e)"
  by (auto simp add: and_then_def split: sum.splits)

lemma and_then_assoc: "and_then (and_then r f) g = and_then r (\<lambda>x. and_then (f x) g)"
  by (simp add: and_then_def split: sum.splits)

text \<open>\<open>guard b e\<close> is the early exit \<open>if (!b) fault e\<close>.\<close>

definition guard :: "bool \<Rightarrow> fault \<Rightarrow> unit result" where
  "guard b e = (if b then Inr () else Inl e)"

lemma guard_True [simp, run_simps]: "guard True e = Inr ()"
  by (simp add: guard_def)

lemma guard_False [simp, run_simps]: "guard False e = Inl e"
  by (simp add: guard_def)

lemma guard_eq_Inr [simp]: "guard b e = Inr u \<longleftrightarrow> b"
  by (simp add: guard_def)

lemma guard_eq_Inl [simp]: "guard b e = Inl e' \<longleftrightarrow> \<not> b \<and> e = e'"
  by (simp add: guard_def)

section \<open>Words\<close>

lemma unat_u16: "unat (w :: u16) < 65536"
  using unsigned_less[of w, where ?'a = nat] by simp

lemma unat_u32: "unat (w :: u32) < 4294967296"
  using unsigned_less[of w, where ?'a = nat] by simp

lemma unat_of_nat_u32: "m < 4294967296 \<Longrightarrow> unat (of_nat m :: u32) = m"
  by (simp add: unat_of_nat)

lemma unat_Suc_u32: "i < n \<Longrightarrow> unat (i + 1 :: u32) = Suc (unat i)"
proof -
  assume "i < n"
  then have "unat i + 1 < 4294967296" using unat_u32[of n] by (simp add: word_less_nat_alt)
  then show ?thesis by (simp add: unat_word_ariths)
qed

lemma unat_ucast_32_16: "unat (ucast (w :: u32) :: u16) = unat w mod 65536"
  by (simp add: unsigned_ucast_eq take_bit_eq_mod)

lemma unat_ucast_16_32: "unat (ucast (w :: u16) :: u32) = unat w"
  using unat_u16[of w] by (simp add: unsigned_ucast_eq take_bit_eq_mod)

section \<open>Byte order\<close>

definition htons :: "u16 \<Rightarrow> u16" where
  "htons w = (push_bit 8 w OR drop_bit 8 w)"

definition ntohs :: "u16 \<Rightarrow> u16" where
  "ntohs w = htons w"

lemma htons_htons [simp]: "htons (htons w) = w"
  by (rule bit_eqI) (auto simp: htons_def bit_simps)

lemma ntohs_htons [simp]: "ntohs (htons w) = w"
  by (simp add: ntohs_def)

lemma htons_ntohs [simp]: "htons (ntohs w) = w"
  by (simp add: ntohs_def)

section \<open>Byte memory\<close>

definition get_bytes :: "nat \<Rightarrow> nat \<Rightarrow> bytes \<Rightarrow> bytes" where
  "get_bytes off n bs = take n (drop off bs)"

definition put_bytes :: "nat \<Rightarrow> bytes \<Rightarrow> bytes \<Rightarrow> bytes" where
  "put_bytes off vs bs = take off bs @ vs @ drop (off + length vs) bs"

lemma length_get_bytes [mem_simps]: "off + n \<le> length bs \<Longrightarrow> length (get_bytes off n bs) = n"
  by (simp add: get_bytes_def)

lemma length_put_bytes [mem_simps]:
  "off + length vs \<le> length bs \<Longrightarrow> length (put_bytes off vs bs) = length bs"
  by (simp add: put_bytes_def)

lemma get_put_same [mem_simps]:
  "off + length vs \<le> length bs \<Longrightarrow> n = length vs \<Longrightarrow> get_bytes off n (put_bytes off vs bs) = vs"
  by (simp add: get_bytes_def put_bytes_def)

lemma nth_put_bytes:
  assumes "off + length vs \<le> length bs" and "k < length bs"
  shows "put_bytes off vs bs ! k =
    (if off \<le> k \<and> k < off + length vs then vs ! (k - off) else bs ! k)"
  using assms by (auto simp: put_bytes_def nth_append)

lemma get_put_before [mem_simps]:
  assumes "off + length vs \<le> length bs" and "o' + n \<le> off"
  shows "get_bytes o' n (put_bytes off vs bs) = get_bytes o' n bs"
  using assms
  by (intro nth_equalityI) (auto simp: get_bytes_def length_put_bytes nth_put_bytes)

lemma get_put_after [mem_simps]:
  assumes "off + length vs \<le> length bs" and "off + length vs \<le> o'"
  shows "get_bytes o' n (put_bytes off vs bs) = get_bytes o' n bs"
  using assms
  by (intro nth_equalityI) (auto simp: get_bytes_def length_put_bytes nth_put_bytes)

lemma get_get_bytes [mem_simps]:
  "o' + m \<le> n \<Longrightarrow> get_bytes o' m (get_bytes off n bs) = get_bytes (off + o') m bs"
  by (simp add: get_bytes_def take_drop min_def add.commute)

text \<open>Little-endian integer fields.\<close>

definition le16 :: "u16 \<Rightarrow> bytes" where
  "le16 w = [ucast w, ucast (drop_bit 8 w)]"

definition of_le16 :: "bytes \<Rightarrow> u16" where
  "of_le16 bs = ucast (bs ! 0) OR push_bit 8 (ucast (bs ! 1))"

definition le32 :: "u32 \<Rightarrow> bytes" where
  "le32 w = [ucast w, ucast (drop_bit 8 w), ucast (drop_bit 16 w), ucast (drop_bit 24 w)]"

definition of_le32 :: "bytes \<Rightarrow> u32" where
  "of_le32 bs = ucast (bs ! 0) OR push_bit 8 (ucast (bs ! 1)) OR push_bit 16 (ucast (bs ! 2))
     OR push_bit 24 (ucast (bs ! 3))"

definition le64 :: "u64 \<Rightarrow> bytes" where
  "le64 w = le32 (ucast w) @ le32 (ucast (drop_bit 32 w))"

definition of_le64 :: "bytes \<Rightarrow> u64" where
  "of_le64 bs = ucast (of_le32 (take 4 bs)) OR push_bit 32 (ucast (of_le32 (drop 4 bs)))"

lemma length_le [simp, mem_simps]: "length (le16 w) = 2" "length (le32 x) = 4" "length (le64 y) = 8"
  by (simp_all add: le16_def le32_def le64_def)

lemma of_le16_le16 [simp, mem_simps]: "of_le16 (le16 w) = w"
  by (rule bit_eqI) (auto simp: of_le16_def le16_def bit_simps)

lemma of_le32_le32 [simp, mem_simps]: "of_le32 (le32 w) = w"
proof (rule bit_eqI)
  fix n
  assume "possible_bit TYPE(32 word) n"
  then have n: "n < 32" by simp
  then consider "n < 8" | "8 \<le> n" "n < 16" | "16 \<le> n" "n < 24" | "24 \<le> n" by linarith
  then show "bit (of_le32 (le32 w)) n = bit w n"
    by cases (use n in \<open>auto simp: of_le32_def le32_def bit_simps\<close>)
qed

lemma of_le64_le64 [simp, mem_simps]: "of_le64 (le64 w) = w"
proof -
  have *: "take 4 (le64 w) = le32 (ucast w)" "drop 4 (le64 w) = le32 (ucast (drop_bit 32 w))"
    by (simp_all add: le64_def)
  show ?thesis
  proof (rule bit_eqI)
    fix n
    assume "possible_bit TYPE(64 word) n"
    then have n: "n < 64" by simp
    then consider "n < 32" | "32 \<le> n" by linarith
    then show "bit (of_le64 (le64 w)) n = bit w n"
      by cases (use n in \<open>auto simp: of_le64_def * bit_simps\<close>)
  qed
qed

section \<open>Lists\<close>

text \<open>The first element that satisfies a test, with its position: the search loops of the daemons.\<close>

fun find_idx :: "('a \<Rightarrow> bool) \<Rightarrow> 'a list \<Rightarrow> nat option" where
  "find_idx P [] = None"
| "find_idx P (x # xs) = (if P x then Some 0 else map_option Suc (find_idx P xs))"

lemma find_idx_None: "find_idx P xs = None \<longleftrightarrow> (\<forall>x \<in> set xs. \<not> P x)"
  by (induction xs) auto

lemma find_idx_Some: "find_idx P xs = Some i \<Longrightarrow> i < length xs \<and> P (xs ! i) \<and> (\<forall>j < i. \<not> P (xs ! j))"
proof (induction xs arbitrary: i)
  case Nil
  then show ?case by simp
next
  case (Cons x xs)
  then show ?case
    by (auto split: if_splits simp: less_Suc_eq_0_disj nth_Cons')
qed

lemma find_idx_Some_iff:
  "find_idx P xs = Some i \<longleftrightarrow> i < length xs \<and> P (xs ! i) \<and> (\<forall>j < i. \<not> P (xs ! j))"
proof
  assume r: "i < length xs \<and> P (xs ! i) \<and> (\<forall>j < i. \<not> P (xs ! j))"
  then obtain k where k: "find_idx P xs = Some k"
    by (metis find_idx_None nth_mem not_None_eq)
  with r show "find_idx P xs = Some i"
    by (metis find_idx_Some linorder_neqE_nat)
qed (rule find_idx_Some)

lemma find_idx_append:
  "find_idx P (xs @ ys) = (case find_idx P xs of Some i \<Rightarrow> Some i
     | None \<Rightarrow> map_option (\<lambda>i. length xs + i) (find_idx P ys))"
proof (induction xs)
  case Nil
  show ?case by (cases "find_idx P ys") auto
next
  case (Cons x xs)
  then show ?case by (cases "find_idx P xs"; cases "find_idx P ys") auto
qed

lemma find_idx_update:
  "j < length xs \<Longrightarrow> P y = P (xs ! j) \<Longrightarrow> find_idx P (xs[j := y]) = find_idx P xs"
  by (induction xs arbitrary: j) (auto split: nat.splits)

end
