(* ===== verification/Iprp_Memory.thy ===== *)
theory Iprp_Memory
  imports Iprp_Prelude
begin

text \<open>
  C objects in byte memory.  A type of the program is stored at an offset by writing its fields,
  which leaves the padding bytes as they were, and read back field by field.  The interface
  \<open>mem_type\<close> states what a client of such a layout relies on (size, round trip, frame,
  locality); \<open>mem_array\<close> extends it to fixed-length arrays, whose laws follow from the
  element's.  The structures of the protocol and of the exchange files interpret it.
\<close>

section \<open>Scalars\<close>

definition put8 :: "nat \<Rightarrow> u8 \<Rightarrow> bytes \<Rightarrow> bytes" where
  "put8 off x bs = put_bytes off [x] bs"

definition get8 :: "nat \<Rightarrow> bytes \<Rightarrow> u8" where
  "get8 off bs = get_bytes off 1 bs ! 0"

definition put16 :: "nat \<Rightarrow> u16 \<Rightarrow> bytes \<Rightarrow> bytes" where
  "put16 off x bs = put_bytes off (le16 x) bs"

definition get16 :: "nat \<Rightarrow> bytes \<Rightarrow> u16" where
  "get16 off bs = of_le16 (get_bytes off 2 bs)"

definition put32 :: "nat \<Rightarrow> u32 \<Rightarrow> bytes \<Rightarrow> bytes" where
  "put32 off x bs = put_bytes off (le32 x) bs"

definition get32 :: "nat \<Rightarrow> bytes \<Rightarrow> u32" where
  "get32 off bs = of_le32 (get_bytes off 4 bs)"

definition put64 :: "nat \<Rightarrow> u64 \<Rightarrow> bytes \<Rightarrow> bytes" where
  "put64 off x bs = put_bytes off (le64 x) bs"

definition get64 :: "nat \<Rightarrow> bytes \<Rightarrow> u64" where
  "get64 off bs = of_le64 (get_bytes off 8 bs)"

text \<open>A \<open>char[n]\<close> field.\<close>

definition get_raw :: "nat \<Rightarrow> nat \<Rightarrow> bytes \<Rightarrow> bytes" where
  "get_raw n off bs = get_bytes off n bs"

lemmas scalar_defs = put8_def get8_def put16_def get16_def put32_def get32_def put64_def get64_def
  get_raw_def

lemma list_all_True [simp]: "list_all (\<lambda>_. True) xs"
  by (simp add: list_all_iff)

section \<open>The interface\<close>

locale mem_type =
  fixes w :: nat
    and put :: "nat \<Rightarrow> 'a \<Rightarrow> bytes \<Rightarrow> bytes"
    and get :: "nat \<Rightarrow> bytes \<Rightarrow> 'a"
    and ok :: "'a \<Rightarrow> bool"
  assumes put_length: "ok x \<Longrightarrow> off + w \<le> length bs \<Longrightarrow> length (put off x bs) = length bs"
    and get_put: "ok x \<Longrightarrow> off + w \<le> length bs \<Longrightarrow> get off (put off x bs) = x"
    and put_frame: "ok x \<Longrightarrow> off + w \<le> length bs \<Longrightarrow> o' + n \<le> off \<or> off + w \<le> o' \<Longrightarrow>
      get_bytes o' n (put off x bs) = get_bytes o' n bs"
    and get_local: "off + w \<le> length bs \<Longrightarrow> get off bs = get 0 (get_bytes off w bs)"
begin

lemma get_cong:
  "off + w \<le> length bs \<Longrightarrow> off + w \<le> length bs' \<Longrightarrow> get_bytes off w bs = get_bytes off w bs' \<Longrightarrow>
   get off bs = get off bs'"
  using get_local[of off bs] get_local[of off bs'] by simp

lemma get_put_other:
  "ok x \<Longrightarrow> off + w \<le> length bs \<Longrightarrow> o' + w \<le> length bs \<Longrightarrow> o' + w \<le> off \<or> off + w \<le> o' \<Longrightarrow>
   get o' (put off x bs) = get o' bs"
  by (rule get_cong) (auto simp: put_length put_frame)

end

interpretation m8: mem_type 1 put8 get8 "\<lambda>_. True"
  by unfold_locales (auto simp: scalar_defs mem_simps)

interpretation m16: mem_type 2 put16 get16 "\<lambda>_. True"
  by unfold_locales (auto simp: scalar_defs mem_simps)

interpretation m32: mem_type 4 put32 get32 "\<lambda>_. True"
  by unfold_locales (auto simp: scalar_defs mem_simps)

interpretation m64: mem_type 8 put64 get64 "\<lambda>_. True"
  by unfold_locales (auto simp: scalar_defs mem_simps)

interpretation raw: mem_type n put_bytes "get_raw n" "\<lambda>x. length x = n" for n
  by unfold_locales (auto simp: scalar_defs mem_simps)

section \<open>Arrays\<close>

fun put_array :: "(nat \<Rightarrow> 'a \<Rightarrow> bytes \<Rightarrow> bytes) \<Rightarrow> nat \<Rightarrow> nat \<Rightarrow> 'a list \<Rightarrow> bytes \<Rightarrow> bytes" where
  "put_array put w off [] bs = bs"
| "put_array put w off (x # xs) bs = put_array put w (off + w) xs (put off x bs)"

fun get_array :: "(nat \<Rightarrow> bytes \<Rightarrow> 'a) \<Rightarrow> nat \<Rightarrow> nat \<Rightarrow> nat \<Rightarrow> bytes \<Rightarrow> 'a list" where
  "get_array get w 0 off bs = []"
| "get_array get w (Suc n) off bs = get off bs # get_array get w n (off + w) bs"

lemma length_get_array [simp]: "length (get_array get w n off bs) = n"
  by (induction n arbitrary: off) auto

context mem_type
begin

lemma array_length:
  "list_all ok xs \<Longrightarrow> off + length xs * w \<le> length bs \<Longrightarrow>
   length (put_array put w off xs bs) = length bs"
proof (induction xs arbitrary: off bs)
  case (Cons x xs)
  then show ?case by (simp add: put_length)
qed simp

lemma array_frame:
  "list_all ok xs \<Longrightarrow> off + length xs * w \<le> length bs \<Longrightarrow>
   o' + n \<le> off \<or> off + length xs * w \<le> o' \<Longrightarrow>
   get_bytes o' n (put_array put w off xs bs) = get_bytes o' n bs"
proof (induction xs arbitrary: off bs)
  case (Cons x xs)
  have "get_bytes o' n (put_array put w (off + w) xs (put off x bs)) = get_bytes o' n (put off x bs)"
    using Cons.prems by (intro Cons.IH) (auto simp: put_length)
  also have "\<dots> = get_bytes o' n bs"
    using Cons.prems by (intro put_frame) auto
  finally show ?case by simp
qed simp

lemma array_get_put:
  "list_all ok xs \<Longrightarrow> off + length xs * w \<le> length bs \<Longrightarrow>
   get_array get w (length xs) off (put_array put w off xs bs) = xs"
proof (induction xs arbitrary: off bs)
  case (Cons x xs)
  let ?bs = "put off x bs"
  have l: "length ?bs = length bs" using Cons.prems by (simp add: put_length)
  have "get off (put_array put w (off + w) xs ?bs) = get off ?bs"
    using Cons.prems l by (intro get_cong array_frame) (auto simp: array_length)
  with Cons.prems l show ?case by (simp add: get_put Cons.IH)
qed simp

lemma array_local:
  "off + n * w \<le> length bs \<Longrightarrow> o' + n * w \<le> length bs' \<Longrightarrow>
   get_bytes off (n * w) bs = get_bytes o' (n * w) bs' \<Longrightarrow>
   get_array get w n off bs = get_array get w n o' bs'"
proof (induction n arbitrary: off o')
  case (Suc n)
  have split: "get_bytes p (w + n * w) cs = get_bytes p w cs @ get_bytes (p + w) (n * w) cs" for p cs
    by (simp add: get_bytes_def take_add add.commute)
  have "length (get_bytes off w bs) = length (get_bytes o' w bs')"
    using Suc.prems by (simp add: length_get_bytes)
  with Suc.prems have "get_bytes off w bs = get_bytes o' w bs'"
    "get_bytes (off + w) (n * w) bs = get_bytes (o' + w) (n * w) bs'"
    by (simp_all add: split)
  moreover from this(1) Suc.prems have "get off bs = get o' bs'"
    using get_local[of off bs] get_local[of o' bs'] by simp
  ultimately show ?case using Suc.prems Suc.IH[of "off + w" "o' + w"] by simp
qed simp

end

locale mem_array = mem_type +
  fixes n :: nat
begin

lemma arr_laws:
  "mem_type (n * w) (put_array put w) (get_array get w n) (\<lambda>xs. length xs = n \<and> list_all ok xs)"
proof unfold_locales
  fix xs :: "'a list" and off o' k :: nat and bs :: bytes
  assume x: "length xs = n \<and> list_all ok xs" and b: "off + n * w \<le> length bs"
  show "length (put_array put w off xs bs) = length bs"
    and "get_array get w n off (put_array put w off xs bs) = xs"
    using x b array_length[of xs off bs] array_get_put[of xs off bs] by auto
  show "o' + k \<le> off \<or> off + n * w \<le> o' \<Longrightarrow>
      get_bytes o' k (put_array put w off xs bs) = get_bytes o' k bs"
    using x b array_frame[of xs off bs o' k] by auto
next
  fix off :: nat and bs :: bytes
  assume "off + n * w \<le> length bs"
  then show "get_array get w n off bs = get_array get w n 0 (get_bytes off (n * w) bs)"
    by (intro array_local) (auto simp: get_bytes_def)
qed

end

sublocale mem_array \<subseteq> arr: mem_type "n * w" "put_array put w" "get_array get w n"
    "\<lambda>xs. length xs = n \<and> list_all ok xs"
  by (rule arr_laws)

interpretation a32: mem_array 4 put32 get32 "\<lambda>_. True" n for n
  by unfold_locales

end
