(* ===== verification/Iprp_Global.thy ===== *)
theory Iprp_Global
  imports Iprp_Memory
begin

text \<open>
  The definitions every daemon shares: the constants and structures of inc/global.h (interface,
  host, link, socket address) with their layout in memory, and the utility functions of
  src/lib/global.c (socket address, IND matching, thread names).  The build is one of two
  variants, selected by the macro IPRP_MULTICAST.
\<close>

datatype variant = Unicast | Multicast

section \<open>Constants\<close>

definition IPRP_SNSID_SIZE :: nat where "IPRP_SNSID_SIZE = 20"
definition IPRP_VERSION :: u32 where "IPRP_VERSION = 1"
definition IPRP_CTL_PORT :: u16 where "IPRP_CTL_PORT = 1000"
definition IPRP_DATA_PORT :: u16 where "IPRP_DATA_PORT = 1001"
definition IPRP_MAX_IFACE :: nat where "IPRP_MAX_IFACE = 16"
definition IPRP_MAX_INDS :: nat where "IPRP_MAX_INDS = 16"
definition IPRP_MAX_MONITORED_PORTS :: nat where "IPRP_MAX_MONITORED_PORTS = 16"

lemmas iprp_consts = IPRP_SNSID_SIZE_def IPRP_VERSION_def IPRP_CTL_PORT_def IPRP_DATA_PORT_def
  IPRP_MAX_IFACE_def IPRP_MAX_INDS_def IPRP_MAX_MONITORED_PORTS_def

text \<open>The netfilter verdicts (linux/netfilter.h).\<close>

definition NF_DROP :: u32 where "NF_DROP = 0"
definition NF_ACCEPT :: u32 where "NF_ACCEPT = 1"
definition NF_QUEUE :: u32 where "NF_QUEUE = 3"

section \<open>Structures\<close>

record iface =
  ind :: u8
  if_addr :: in_addr

text \<open>\<open>ifaces\<close> is the array of IPRP_MAX_IFACE entries, of which the first \<open>nb_ifaces\<close> are used.\<close>

record host =
  nb_ifaces :: nat
  ifaces :: "iface list"

record link =
  src_addr :: in_addr
  dest_addr :: in_addr
  src_port :: u16
  dest_port :: u16
  snsid :: bytes

definition link_ok :: "link \<Rightarrow> bool" where
  "link_ok l \<longleftrightarrow> length (snsid l) = IPRP_SNSID_SIZE"

definition host_ok :: "host \<Rightarrow> bool" where
  "host_ok h \<longleftrightarrow> nb_ifaces h \<le> IPRP_MAX_IFACE \<and> length (ifaces h) = IPRP_MAX_IFACE"

text \<open>The interfaces in use; a loop to \<open>nb_ifaces\<close> reads past the array when there are more.\<close>

definition used_ifaces :: "host \<Rightarrow> iface list result" where
  "used_ifaces h = (if nb_ifaces h \<le> length (ifaces h) then Inr (take (nb_ifaces h) (ifaces h))
     else Inl OutOfBounds)"

section \<open>Layout in memory\<close>

definition put_iface :: "nat \<Rightarrow> iface \<Rightarrow> bytes \<Rightarrow> bytes" where
  "put_iface off x bs = put32 (off + 4) (if_addr x) (put8 off (ind x) bs)"

definition get_iface :: "nat \<Rightarrow> bytes \<Rightarrow> iface" where
  "get_iface off bs = \<lparr>ind = get8 off bs, if_addr = get32 (off + 4) bs\<rparr>"

interpretation mif: mem_type 8 put_iface get_iface "\<lambda>_. True"
  by unfold_locales
    (auto simp: put_iface_def get_iface_def scalar_defs mem_simps)

interpretation aif: mem_array 8 put_iface get_iface "\<lambda>_. True" n for n
  by unfold_locales

definition put_host :: "nat \<Rightarrow> host \<Rightarrow> bytes \<Rightarrow> bytes" where
  "put_host off h bs =
     put_array put_iface 8 (off + 8) (ifaces h) (put64 off (of_nat (nb_ifaces h)) bs)"

definition get_host :: "nat \<Rightarrow> bytes \<Rightarrow> host" where
  "get_host off bs = \<lparr>nb_ifaces = unat (get64 off bs), ifaces = get_array get_iface 8 16 (off + 8) bs\<rparr>"

definition put_link :: "nat \<Rightarrow> link \<Rightarrow> bytes \<Rightarrow> bytes" where
  "put_link off l bs =
     put_bytes (off + 12) (snsid l)
     (put16 (off + 10) (dest_port l)
     (put16 (off + 8) (src_port l)
     (put32 (off + 4) (dest_addr l)
     (put32 off (src_addr l) bs))))"

definition get_link :: "nat \<Rightarrow> bytes \<Rightarrow> link" where
  "get_link off bs = \<lparr>src_addr = get32 off bs, dest_addr = get32 (off + 4) bs,
     src_port = get16 (off + 8) bs, dest_port = get16 (off + 10) bs,
     snsid = get_raw 20 (off + 12) bs\<rparr>"

interpretation mlink: mem_type 32 put_link get_link link_ok
  by unfold_locales
    (auto simp: put_link_def get_link_def scalar_defs mem_simps link_ok_def iprp_consts)

lemma host_okD: "host_ok h \<Longrightarrow> nb_ifaces h \<le> 16 \<and> length (ifaces h) = 16"
  by (simp add: host_ok_def iprp_consts)

lemma put_host_length: "host_ok h \<Longrightarrow> off + 136 \<le> length bs \<Longrightarrow> length (put_host off h bs) = length bs"
  by (auto dest!: host_okD simp: put_host_def m64.put_length mif.array_length)

interpretation mhost: mem_type 136 put_host get_host host_ok
proof unfold_locales
  fix h off and bs :: bytes
  assume ok: "host_ok h" and b: "off + 136 \<le> length bs"
  let ?b1 = "put64 off (of_nat (nb_ifaces h)) bs"
  have l1: "length ?b1 = length bs" using b by (simp add: m64.put_length)
  show "length (put_host off h bs) = length bs" using ok b by (rule put_host_length)
  have "get64 off (put_array put_iface 8 (off + 8) (ifaces h) ?b1) = get64 off ?b1"
    using b l1 host_okD[OF ok]
    by (intro m64.get_cong mif.array_frame) (auto simp: mif.array_length)
  then have n: "unat (get64 off (put_host off h bs)) = nb_ifaces h"
    using b host_okD[OF ok] by (simp add: put_host_def m64.get_put unat_of_nat)
  have a: "get_array get_iface 8 16 (off + 8) (put_host off h bs) = ifaces h"
    using b l1 host_okD[OF ok] mif.array_get_put[of "ifaces h" "off + 8" ?b1]
    by (simp add: put_host_def)
  from n a show "get_host off (put_host off h bs) = h" by (simp add: get_host_def)
next
  fix h off o' n and bs :: bytes
  assume "host_ok h" and "off + 136 \<le> length bs" and "o' + n \<le> off \<or> off + 136 \<le> o'"
  then show "get_bytes o' n (put_host off h bs) = get_bytes o' n bs"
    by (auto dest!: host_okD simp: put_host_def mif.array_frame m64.put_frame m64.put_length)
next
  fix off :: nat and bs :: bytes
  assume b: "off + 136 \<le> length bs"
  then have "get64 off bs = get64 0 (get_bytes off 136 bs)"
    by (simp add: scalar_defs mem_simps)
  moreover have "get_array get_iface 8 16 (off + 8) bs
      = get_array get_iface 8 16 8 (get_bytes off 136 bs)"
    using b by (intro mif.array_local) (auto simp: mem_simps)
  ultimately show "get_host off bs = get_host 0 (get_bytes off 136 bs)"
    by (simp add: get_host_def)
qed

section \<open>Socket addresses\<close>

record sockaddr_in =
  sin_family :: u16
  sin_port :: u16
  sin_addr :: in_addr
  sin_zero :: bytes

definition AF_INET :: u16 where "AF_INET = 2"

text \<open>Every field is overwritten, so the previous contents of the structure do not matter.\<close>

definition sockaddr_fill :: "in_addr \<Rightarrow> u16 \<Rightarrow> sockaddr_in" where
  "sockaddr_fill addr port =
     \<lparr>sin_family = AF_INET, sin_port = htons port, sin_addr = addr, sin_zero = replicate 8 0\<rparr>"

text \<open>The options the multicast build sets on its sockets with \<open>setsockopt\<close>; no result of these
  calls is looked at.\<close>

datatype sock_opt = Multicast_If in_addr | Multicast_Ttl u8 | Multicast_Loop bool

section \<open>The clock (time.c)\<close>

text \<open>The variable the other threads read: \<open>curr_time\<close> starts as 0, and each iteration of the thread
  stores what \<open>time\<close> returns.\<close>

fun time_routine :: "time_t list \<Rightarrow> time_t \<Rightarrow> time_t" where
  "time_routine [] curr_time = curr_time"
| "time_routine (now # ts) curr_time = time_routine ts now"

section \<open>IND matching\<close>

text \<open>\<open>1 << ind\<close> on a 32-bit \<open>int\<close>: undefined from 31 on.\<close>

definition ind_bit :: "u8 \<Rightarrow> u32 result" where
  "ind_bit i = (if unat i < 31 then Inr (push_bit (unat i) 1) else Inl BadShift)"

text \<open>The accumulator \<open>sender_inds\<close> is a 16-bit bitmap: higher bits are cut off.\<close>

fun sender_inds :: "iface list \<Rightarrow> u16 \<Rightarrow> u16 result" where
  "sender_inds [] acc = Inr acc"
| "sender_inds (f # fs) acc = and_then (ind_bit (ind f)) (\<lambda>b. sender_inds fs (acc OR ucast b))"

definition ind_match :: "host \<Rightarrow> u16 \<Rightarrow> u16 result" where
  "ind_match sender receiver_inds =
     and_then (used_ifaces sender) (\<lambda>fs.
     and_then (sender_inds fs 0) (\<lambda>b. Inr (b AND receiver_inds)))"

definition inds_ok :: "host \<Rightarrow> bool" where
  "inds_ok h \<longleftrightarrow> host_ok h \<and> (\<forall>f \<in> set (take (nb_ifaces h) (ifaces h)). unat (ind f) < IPRP_MAX_INDS)"

lemma sender_inds_bits:
  "\<forall>f \<in> set fs. unat (ind f) < 16 \<Longrightarrow>
   \<exists>b. sender_inds fs acc = Inr b
     \<and> (\<forall>i < 16. bit b i \<longleftrightarrow> bit acc i \<or> (\<exists>f \<in> set fs. unat (ind f) = i))"
proof (induction fs arbitrary: acc)
  case Nil
  then show ?case by simp
next
  case (Cons f fs)
  have f: "unat (ind f) < 16" using Cons.prems by simp
  let ?acc = "acc OR ucast (push_bit (unat (ind f)) 1 :: u32)"
  from Cons.prems Cons.IH[of ?acc] obtain b where b: "sender_inds fs ?acc = Inr b"
    "\<forall>i < 16. bit b i \<longleftrightarrow> bit ?acc i \<or> (\<exists>f \<in> set fs. unat (ind f) = i)" by auto
  have "bit (ucast (push_bit (unat (ind f)) 1 :: u32) :: u16) i \<longleftrightarrow> unat (ind f) = i" if "i < 16" for i
    using that f by (auto simp: bit_simps)
  with b f show ?case by (auto simp: ind_bit_def bit_simps)
qed

lemma used_ifaces_ok: "host_ok h \<Longrightarrow> used_ifaces h = Inr (take (nb_ifaces h) (ifaces h))"
  by (simp add: used_ifaces_def host_ok_def)

lemma ind_match_ok:
  assumes "inds_ok h"
  shows "\<exists>m. ind_match h r = Inr m
    \<and> (\<forall>i < 16. bit m i \<longleftrightarrow> bit r i \<and> (\<exists>f \<in> set (take (nb_ifaces h) (ifaces h)). unat (ind f) = i))"
proof -
  from assms have h: "host_ok h" "\<forall>f \<in> set (take (nb_ifaces h) (ifaces h)). unat (ind f) < 16"
    by (auto simp: inds_ok_def iprp_consts)
  from sender_inds_bits[OF h(2), of 0] used_ifaces_ok[OF h(1)] show ?thesis
    by (fastforce simp: ind_match_def bit_simps)
qed

section \<open>Mutexes\<close>

text \<open>Taking a mutex (\<open>True\<close> when held); \<open>None\<close> blocks.\<close>

definition mutex_lock :: "bool \<Rightarrow> bool option" where
  "mutex_lock held = (if held then None else Some True)"

section \<open>Thread names\<close>

text \<open>The flag of each thread (inc/debug.h) and its printed name; the SI threads exist in the
  multicast variant only.\<close>

datatype thread =
  ICD_MAIN | ICD_CTL | ICD_PORTS | ICD_PB | ICD_AS | ICD_SI
| ISD_MAIN | ISD_PB | ISD_HANDLE
| IMD_MAIN | IMD_AS | IMD_HANDLE
| IRD_MAIN | IRD_SI | IRD_HANDLE

fun thread_flag :: "thread \<Rightarrow> u32" where
  "thread_flag ICD_MAIN = push_bit 0 1"
| "thread_flag ICD_CTL = push_bit 1 1"
| "thread_flag ICD_PORTS = push_bit 2 1"
| "thread_flag ICD_PB = push_bit 3 1"
| "thread_flag ICD_AS = push_bit 4 1"
| "thread_flag ICD_SI = push_bit 5 1"
| "thread_flag ISD_MAIN = push_bit 8 1"
| "thread_flag ISD_PB = push_bit 9 1"
| "thread_flag ISD_HANDLE = push_bit 10 1"
| "thread_flag IMD_MAIN = push_bit 16 1"
| "thread_flag IMD_AS = push_bit 17 1"
| "thread_flag IMD_HANDLE = push_bit 18 1"
| "thread_flag IRD_MAIN = push_bit 24 1"
| "thread_flag IRD_SI = push_bit 25 1"
| "thread_flag IRD_HANDLE = push_bit 26 1"

text \<open>The flags are single bits, which orders the threads as the enumeration does.\<close>

lemma thread_flag_inject: "thread_flag s = thread_flag t \<longleftrightarrow> s = t"
  by (cases s) (cases t; simp)+

instantiation thread :: linorder
begin

definition less_eq_thread :: "thread \<Rightarrow> thread \<Rightarrow> bool" where
  "less_eq_thread s t \<longleftrightarrow> thread_flag s \<le> thread_flag t"

definition less_thread :: "thread \<Rightarrow> thread \<Rightarrow> bool" where
  "less_thread s t \<longleftrightarrow> thread_flag s < thread_flag t"

instance
  by standard (auto simp: less_eq_thread_def less_thread_def simp flip: thread_flag_inject)

end

lemma threads_sorted:
  "sorted_wrt (<) [ICD_MAIN, ICD_CTL, ICD_PORTS, ICD_PB, ICD_AS, ICD_SI, ISD_MAIN, ISD_PB, ISD_HANDLE,
     IMD_MAIN, IMD_AS, IMD_HANDLE, IRD_MAIN, IRD_SI, IRD_HANDLE]"
  by (simp add: less_thread_def)

definition iprp_thr_name :: "variant \<Rightarrow> u32 \<Rightarrow> string" where
  "iprp_thr_name v t =
     (if t = thread_flag ICD_MAIN then ''icd''
      else if t = thread_flag ICD_CTL then ''icd-control''
      else if t = thread_flag ICD_PORTS then ''icd-ports''
      else if t = thread_flag ICD_AS then ''icd-as''
      else if t = thread_flag ICD_PB then ''icd-pb''
      else if v = Multicast \<and> t = thread_flag ICD_SI then ''icd-si''
      else if t = thread_flag ISD_MAIN then ''isd''
      else if t = thread_flag ISD_HANDLE then ''isd-handle''
      else if t = thread_flag ISD_PB then ''isd-pb''
      else if t = thread_flag IMD_MAIN then ''imd''
      else if t = thread_flag IMD_HANDLE then ''imd-handle''
      else if t = thread_flag IMD_AS then ''imd-as''
      else if t = thread_flag IRD_MAIN then ''ird''
      else if t = thread_flag IRD_HANDLE then ''ird-handle''
      else if v = Multicast \<and> t = thread_flag IRD_SI then ''ird-si''
      else ''???'')"

lemma thr_names:
  "iprp_thr_name Multicast (thread_flag t) =
     (case t of ICD_MAIN \<Rightarrow> ''icd'' | ICD_CTL \<Rightarrow> ''icd-control'' | ICD_PORTS \<Rightarrow> ''icd-ports''
      | ICD_PB \<Rightarrow> ''icd-pb'' | ICD_AS \<Rightarrow> ''icd-as'' | ICD_SI \<Rightarrow> ''icd-si'' | ISD_MAIN \<Rightarrow> ''isd''
      | ISD_PB \<Rightarrow> ''isd-pb'' | ISD_HANDLE \<Rightarrow> ''isd-handle'' | IMD_MAIN \<Rightarrow> ''imd''
      | IMD_AS \<Rightarrow> ''imd-as'' | IMD_HANDLE \<Rightarrow> ''imd-handle'' | IRD_MAIN \<Rightarrow> ''ird''
      | IRD_SI \<Rightarrow> ''ird-si'' | IRD_HANDLE \<Rightarrow> ''ird-handle'')"
  by (cases t) (simp_all add: iprp_thr_name_def)

lemma thread_names_distinct:
  "iprp_thr_name Multicast (thread_flag s) = iprp_thr_name Multicast (thread_flag t) \<Longrightarrow> s = t"
  unfolding thr_names by (cases s) (cases t; simp)+

end
