(* ===== verification/Iprp_Format.thy ===== *)
theory Iprp_Format
  imports Iprp_Global
begin

text \<open>
  The text the daemons build with \<open>snprintf\<close>: decimal and hexadecimal numbers, the dotted
  form of an address, the truncation to a buffer.  Numbers are read back from their digits, so
  different numbers have different texts; the lengths bound the buffers.
\<close>

section \<open>Numbers\<close>

definition digit :: "nat \<Rightarrow> char" where
  "digit n = ''0123456789abcdef'' ! n"

fun dec :: "nat \<Rightarrow> string" where
  "dec n = (if n < 10 then [digit n] else dec (n div 10) @ [digit (n mod 10)])"

fun hex :: "nat \<Rightarrow> string" where
  "hex n = (if n < 16 then [digit n] else hex (n div 16) @ [digit (n mod 16)])"

declare dec.simps [simp del] hex.simps [simp del]

text \<open>\<open>%d\<close>\<close>

definition fmt_d :: "int \<Rightarrow> string" where
  "fmt_d i = (if i < 0 then ''-'' @ dec (nat (- i)) else dec (nat i))"

text \<open>\<open>%02x\<close> of an \<open>unsigned int\<close>\<close>

definition fmt_02x :: "u32 \<Rightarrow> string" where
  "fmt_02x w = (let s = hex (unat w) in if length s < 2 then ''0'' @ s else s)"

text \<open>\<open>snprintf\<close> into a buffer of \<open>n\<close> bytes, one of them for the end.\<close>

definition snprintf :: "nat \<Rightarrow> string \<Rightarrow> string" where
  "snprintf n s = take (n - 1) s"

text \<open>\<open>inet_ntop\<close>: the four bytes of the address in memory order.\<close>

definition inet_ntop :: "in_addr \<Rightarrow> string" where
  "inet_ntop a = (case map (\<lambda>b. dec (unat b)) (le32 a) of
     [p, q, r, s] \<Rightarrow> p @ ''.'' @ q @ ''.'' @ r @ ''.'' @ s | _ \<Rightarrow> [])"

section \<open>Reading the digits back\<close>

definition digit_val :: "char \<Rightarrow> nat" where
  "digit_val c = the (find_idx (\<lambda>d. d = c) ''0123456789abcdef'')"

definition num_val :: "nat \<Rightarrow> string \<Rightarrow> nat" where
  "num_val base s = foldl (\<lambda>a c. base * a + digit_val c) 0 s"

lemma find_idx_nth: "distinct xs \<Longrightarrow> n < length xs \<Longrightarrow> find_idx (\<lambda>d. d = xs ! n) xs = Some n"
  by (simp add: find_idx_Some_iff nth_eq_iff_index_eq)

lemma digit_val_digit: "n < 16 \<Longrightarrow> digit_val (digit n) = n"
proof -
  assume n: "n < 16"
  have d: "distinct ''0123456789abcdef''" and l: "length ''0123456789abcdef'' = 16" by simp_all
  from find_idx_nth[OF d, of n] n l show ?thesis unfolding digit_val_def digit_def by simp
qed

lemma num_val_snoc: "num_val b (s @ [c]) = b * num_val b s + digit_val c"
  by (simp add: num_val_def)

lemma num_val_dec: "num_val 10 (dec n) = n"
proof (induction n rule: dec.induct)
  case (1 n)
  show ?case
  proof (cases "n < 10")
    case True
    then show ?thesis by (subst dec.simps) (simp add: num_val_def digit_val_digit)
  next
    case False
    with 1 show ?thesis by (subst dec.simps) (simp add: num_val_snoc digit_val_digit)
  qed
qed

lemma dec_inject: "dec m = dec n \<longleftrightarrow> m = n"
  by (metis num_val_dec)

lemma length_dec: "n < 10 ^ k \<Longrightarrow> 0 < k \<Longrightarrow> length (dec n) \<le> k"
proof (induction k arbitrary: n)
  case (Suc k)
  show ?case
  proof (cases "n < 10")
    case True
    then show ?thesis by (subst dec.simps) simp
  next
    case False
    then have "0 < k" using Suc.prems(1) by (cases k) auto
    moreover have "n div 10 < 10 ^ k" using Suc.prems(1) by (simp add: less_mult_imp_div_less mult.commute)
    ultimately have "length (dec (n div 10)) \<le> k" by (rule Suc.IH[rotated])
    with False show ?thesis by (subst dec.simps) simp
  qed
qed simp

lemma length_dec_u16: "length (dec (unat (w :: u16))) \<le> 5"
  using unat_u16[of w] by (intro length_dec) auto

lemma length_dec_u8: "length (dec (unat (w :: u8))) \<le> 3"
proof -
  have "unat w < 256" using unsigned_less[of w, where ?'a = nat] by simp
  then show ?thesis by (intro length_dec) auto
qed

lemma length_inet_ntop: "length (inet_ntop a) \<le> 15"
proof -
  have "length (inet_ntop a) = length (dec (unat (ucast a :: u8))) + length (dec (unat (ucast (drop_bit 8 a) :: u8)))
      + length (dec (unat (ucast (drop_bit 16 a) :: u8))) + length (dec (unat (ucast (drop_bit 24 a) :: u8))) + 3"
    by (simp add: inet_ntop_def le32_def)
  then show ?thesis
    using length_dec_u8[of "ucast a"] length_dec_u8[of "ucast (drop_bit 8 a)"]
      length_dec_u8[of "ucast (drop_bit 16 a)"] length_dec_u8[of "ucast (drop_bit 24 a)"] by linarith
qed

section \<open>Bytes in hexadecimal\<close>

text \<open>A \<open>char\<close> is signed, and promoted to \<open>int\<close> before it is printed as unsigned.\<close>

definition fmt_char_02x :: "u8 \<Rightarrow> string" where
  "fmt_char_02x b = fmt_02x (signed b)"

lemma unat_signed_char:
  "unat (signed (b :: u8) :: u32) = (if unat b < 128 then unat b else unat b + 4294967040)"
proof -
  define k where "k = uint b"
  have k: "0 \<le> k" "k < 256" using unsigned_less[of b, where ?'a = int] by (simp_all add: k_def)
  have u: "unat b = nat k" by (simp add: k_def)
  have "sint b = signed_take_bit 7 k" by (simp add: sint_uint k_def)
  also have "\<dots> = (k + 128) mod 256 - 128" by (simp add: signed_take_bit_eq_take_bit_shift take_bit_eq_mod)
  finally have s: "sint b = (k + 128) mod 256 - 128" .
  have "(signed b :: u32) = word_of_int (sint b)" by simp
  then have "unat (signed b :: u32) = nat ((sint b) mod 4294967296)"
    by (simp only: unat_eq_nat_uint uint_word_of_int) (simp add: take_bit_eq_mod)
  moreover have "k < 128 \<Longrightarrow> (k + 128) mod 256 = k + 128" using k by simp
  moreover have "\<not> k < 128 \<Longrightarrow> (k + 128) mod 256 = k - 128"
  proof -
    assume "\<not> k < 128"
    then have "(k - 128) mod 256 = k - 128" using k by simp
    then show ?thesis using mod_mult_self2[of "k - 128" 256 1] by (simp add: add.commute)
  qed
  moreover have "\<not> k < 128 \<Longrightarrow> (k - 256) mod 4294967296 = k + 4294967040"
    using k mod_add_self2[of "k - 256" 4294967296] by simp
  ultimately show ?thesis using s u k by (cases "k < 128") (simp_all add: nat_add_distrib)
qed

text \<open>Below 128 two digits that determine the byte, from 128 on eight, which begin with ff.\<close>

lemma hex_16: "16 \<le> n \<Longrightarrow> hex n = hex (n div 16) @ [digit (n mod 16)]"
  by (subst hex.simps) simp

lemma length_hex_ge: "16 ^ k \<le> n \<Longrightarrow> k < length (hex n)"
proof (induction k arbitrary: n)
  case 0
  show ?case by (subst hex.simps) simp
next
  case (Suc k)
  moreover have "1 \<le> (16 :: nat) ^ k" by simp
  ultimately have n: "16 \<le> n" by (simp only: power_Suc)
  have "16 ^ k \<le> n div 16" using Suc.prems by (simp add: less_eq_div_iff_mult_less_eq mult.commute)
  from Suc.IH[OF this] show ?case using hex_16[OF n] by simp
qed

lemma take_2_hex: "256 \<le> n \<Longrightarrow> take 2 (hex n) = take 2 (hex (n div 16))"
proof -
  assume n: "256 \<le> n"
  then have "16 ^ 1 \<le> n div 16" by simp
  from length_hex_ge[OF this] have l: "2 \<le> length (hex (n div 16))" by simp
  from n have "hex n = hex (n div 16) @ [digit (n mod 16)]" by (intro hex_16) simp
  with l show ?thesis by simp
qed

lemma take_2_hex_div: "16 * 16 ^ k \<le> n \<Longrightarrow> take 2 (hex n) = take 2 (hex (n div 16 ^ k))"
proof (induction k arbitrary: n)
  case (Suc k)
  have "1 \<le> (16 :: nat) ^ k" by simp
  with Suc.prems have n: "256 \<le> n" by (simp only: power_Suc)
  have "16 * 16 ^ k \<le> n div 16" using Suc.prems by (simp add: less_eq_div_iff_mult_less_eq)
  from Suc.IH[OF this] take_2_hex[OF n] show ?case by (simp add: div_mult2_eq)
qed simp

lemma char_02x_low:
  assumes "unat b < 128"
  shows "fmt_char_02x b = [digit (unat b div 16), digit (unat b mod 16)]"
proof (cases "unat b < 16")
  case True
  then show ?thesis using assms
    by (simp add: fmt_char_02x_def fmt_02x_def unat_signed_char hex.simps Let_def) (simp add: digit_def)
next
  case False
  moreover have "unat b div 16 < 16" using assms by simp
  ultimately have "hex (unat b) = [digit (unat b div 16), digit (unat b mod 16)]"
    by (simp add: hex_16 hex.simps[of "unat b div 16"])
  with assms show ?thesis by (simp add: fmt_char_02x_def fmt_02x_def unat_signed_char Let_def)
qed

lemma char_02x_high:
  assumes "128 \<le> unat b"
  shows "snprintf 3 (fmt_char_02x b) = ''ff''"
proof -
  let ?n = "unat b + 4294967040"
  have b: "unat b < 256" using unsigned_less[of b, where ?'a = nat] by simp
  have h: "unat (signed b :: u32) = ?n" using assms by (simp add: unat_signed_char)
  have "?n div 16 ^ 6 = 255" using b by simp
  then have "take 2 (hex ?n) = take 2 (hex 255)" using take_2_hex_div[of 6 ?n] by simp
  also have "\<dots> = ''ff''" by (simp add: hex.simps digit_def)
  finally have t: "take 2 (hex ?n) = ''ff''" .
  then have "\<not> length (hex ?n) < 2" by auto
  with t h show ?thesis by (simp add: snprintf_def fmt_char_02x_def fmt_02x_def Let_def)
qed

end
