(* ===== verification/Iprp_Packet.thy ===== *)
theory Iprp_Packet
  imports Iprp_Global
begin

text \<open>
  Packets as the daemons see them: the bytes netfilter hands over (an IPv4 header of 20 bytes,
  a UDP header of 8, the payload), the position of the fields the code accesses, the packed iPRP
  header of inc/global.h, and the answers of the netfilter library for one packet.
\<close>

section \<open>Layout\<close>

text \<open>\<open>sizeof(struct iphdr)\<close>, \<open>sizeof(struct udphdr)\<close> and \<open>sizeof(iprp_header_t)\<close>.\<close>

definition iphdr_size :: nat where "iphdr_size = 20"
definition udphdr_size :: nat where "udphdr_size = 8"

fun iprp_header_size :: "variant \<Rightarrow> nat" where
  "iprp_header_size Unicast = 192"
| "iprp_header_size Multicast = 188"

text \<open>Fields of \<open>struct iphdr\<close> and \<open>struct udphdr\<close>, from the start of the packet.\<close>

definition ip_tot_len :: nat where "ip_tot_len = 2"
definition ip_check :: nat where "ip_check = 10"
definition ip_saddr :: nat where "ip_saddr = 12"
definition ip_daddr :: nat where "ip_daddr = 16"
definition udp_source :: nat where "udp_source = 20"
definition udp_dest :: nat where "udp_dest = 22"
definition udp_len :: nat where "udp_len = 24"
definition udp_check :: nat where "udp_check = 26"

text \<open>Fields of \<open>iprp_header_t\<close>, from its start.  \<open>dest_addr\<close> exists in the unicast
  variant only; \<open>ind\<close> and \<open>hmac\<close>, which follow, are never written nor read.\<close>

definition hdr_version :: nat where "hdr_version = 0"
definition hdr_snsid :: nat where "hdr_snsid = 1"
definition hdr_seq_nb :: nat where "hdr_seq_nb = 21"
definition hdr_dest_port :: nat where "hdr_dest_port = 25"
definition hdr_dest_addr :: nat where "hdr_dest_addr = 27"

lemmas layout_defs = iphdr_size_def udphdr_size_def ip_tot_len_def ip_check_def ip_saddr_def
  ip_daddr_def udp_source_def udp_dest_def udp_len_def udp_check_def hdr_version_def hdr_snsid_def
  hdr_seq_nb_def hdr_dest_port_def hdr_dest_addr_def

lemma iprp_header_size_cases: "iprp_header_size v = 192 \<or> iprp_header_size v = 188"
  by (cases v) auto

section \<open>The queue\<close>

definition ntohl :: "u32 \<Rightarrow> u32" where
  "ntohl w = of_le32 (rev (le32 w))"

text \<open>
  What libnetfilter_queue answers for a packet: the payload (\<open>None\<close> when
  \<open>nfq_get_payload\<close> returns -1), the packet id (\<open>None\<close> when
  \<open>nfq_get_msg_packet_hdr\<close> returns NULL) and whether \<open>nfq_set_verdict\<close> succeeds.
\<close>

record nfq_packet =
  nfq_payload :: "bytes option"
  nfq_id :: "u32 option"
  nfq_verdict_ok :: bool

text \<open>A call of \<open>nfq_set_verdict\<close>: packet id, verdict, length and data.\<close>

record verdict =
  vd_id :: u32
  vd_code :: u32
  vd_data :: bytes

definition set_verdict :: "nfq_packet \<Rightarrow> u32 \<Rightarrow> u32 \<Rightarrow> bytes \<Rightarrow> string \<Rightarrow> verdict result" where
  "set_verdict p i code data msg =
     (if nfq_verdict_ok p then Inr \<lparr>vd_id = ntohl i, vd_code = code, vd_data = data\<rparr> else Inl (Err msg))"

text \<open>\<open>nfq_get_payload\<close> and \<open>nfq_get_msg_packet_hdr\<close> with the exit on failure.\<close>

definition get_payload :: "nfq_packet \<Rightarrow> bytes result" where
  "get_payload p = (case nfq_payload p of
     None \<Rightarrow> Inl (Err ''Unable to retrieve payload from received packet'') | Some b \<Rightarrow> Inr b)"

definition get_packet_id :: "nfq_packet \<Rightarrow> u32 result" where
  "get_packet_id p = (case nfq_id p of
     None \<Rightarrow> Inl (Err ''Unable to retrieve header from received packet'') | Some i \<Rightarrow> Inr i)"

text \<open>A packet all library calls succeed on.\<close>

definition nfq_good :: "bytes \<Rightarrow> u32 \<Rightarrow> nfq_packet" where
  "nfq_good b i = \<lparr>nfq_payload = Some b, nfq_id = Some i, nfq_verdict_ok = True\<rparr>"

lemma nfq_good_simps [simp]:
  "get_payload (nfq_good b i) = Inr b" "get_packet_id (nfq_good b i) = Inr i"
  "set_verdict (nfq_good b i) j code data msg
     = Inr \<lparr>vd_id = ntohl j, vd_code = code, vd_data = data\<rparr>"
  by (simp_all add: nfq_good_def get_payload_def get_packet_id_def set_verdict_def)

section \<open>Receiving from a queue (src/lib/nfqueue.c)\<close>

text \<open>
  The outcomes of \<open>recv\<close>: an error with the errno it left, or the bytes received (none at
  end of file).  \<open>get_and_handle\<close> returns the error code of inc/debug.h; a failure inside the
  callback is not reported.
\<close>

definition IPRP_ERR :: nat where "IPRP_ERR = 1"
definition IPRP_ERR_UNKNOWN :: nat where "IPRP_ERR_UNKNOWN = 4"
definition IPRP_ERR_EMPTY :: nat where "IPRP_ERR_EMPTY = 5"
definition IPRP_ERR_NULLPTR :: nat where "IPRP_ERR_NULLPTR = 6"
definition ENOBUFS :: nat where "ENOBUFS = 105"

datatype 'p recv_outcome = RecvError nat | RecvEmpty | RecvPacket 'p

definition get_and_handle ::
  "('p \<Rightarrow> 's \<Rightarrow> ('s \<times> 'o) result) \<Rightarrow> 'p recv_outcome \<Rightarrow> 's \<Rightarrow> (nat \<times> 's \<times> 'o option) result" where
  "get_and_handle callback r s = (case r of
     RecvError errno \<Rightarrow> if errno = ENOBUFS then Inr (IPRP_ERR_UNKNOWN, s, None) else Inr (IPRP_ERR, s, None)
   | RecvEmpty \<Rightarrow> Inr (IPRP_ERR_EMPTY, s, None)
   | RecvPacket p \<Rightarrow> and_then (callback p s) (\<lambda>(s', out). Inr (0, s', Some out)))"

text \<open>
  The loop every packet thread runs (\<open>handle_routine\<close>, \<open>ird_handle_routine\<close>) over the
  outcomes of successive receives: \<open>IPRP_ERR\<close> ends the process, the other errors are skipped.
\<close>

fun handle_loop ::
  "string \<Rightarrow> ('p \<Rightarrow> 's \<Rightarrow> ('s \<times> 'o) result) \<Rightarrow> 'p recv_outcome list \<Rightarrow> 's \<Rightarrow> ('s \<times> 'o list) result" where
  "handle_loop msg callback [] s = Inr (s, [])"
| "handle_loop msg callback (r # rs) s =
     and_then (get_and_handle callback r s) (\<lambda>(err, s', out).
       if err = IPRP_ERR then Inl (Err msg)
       else and_then (handle_loop msg callback rs s') (\<lambda>(s'', outs).
            Inr (s'', (case out of None \<Rightarrow> outs | Some x \<Rightarrow> x # outs))))"

text \<open>
  The outcomes of the library calls of \<open>queue_setup\<close>, in the order the code makes them; the
  first failure ends the process, and the result is the descriptor \<open>nfq_fd\<close> returns.
\<close>

record nfq_calls =
  nfq_open_ok :: bool
  nfq_unbind_pf_ok :: bool
  nfq_bind_pf_ok :: bool
  nfq_create_queue_ok :: bool
  nfq_set_queue_maxlen_ok :: bool
  nfq_set_mode_ok :: bool
  nfq_fd_of :: int

definition queue_setup :: "nfq_calls \<Rightarrow> int result" where
  "queue_setup c =
     and_then (guard (nfq_open_ok c) (Err ''Unable to open queue handle'')) (\<lambda>_.
     and_then (guard (nfq_unbind_pf_ok c) (Err ''Unable to unbind IP protocol from queue handle'')) (\<lambda>_.
     and_then (guard (nfq_bind_pf_ok c) (Err ''Unable to bind IP protocol to queue handle'')) (\<lambda>_.
     and_then (guard (nfq_create_queue_ok c) (Err ''Unable to create queue'')) (\<lambda>_.
     and_then (guard (nfq_set_queue_maxlen_ok c) (Err ''Unable to set queue max length'')) (\<lambda>_.
     and_then (guard (nfq_set_mode_ok c) (Err ''Unable to set queue mode'')) (\<lambda>_.
     Inr (nfq_fd_of c)))))))"

lemma handle_loop_append:
  "handle_loop msg f (rs @ rs') s =
     and_then (handle_loop msg f rs s) (\<lambda>(s', outs).
     and_then (handle_loop msg f rs' s') (\<lambda>(s'', outs'). Inr (s'', outs @ outs')))"
proof (induction rs arbitrary: s)
  case Nil
  show ?case by (auto simp: and_then_def split: sum.splits)
next
  case (Cons r rs)
  show ?case
    by (auto simp: and_then_def Cons split: sum.splits option.splits if_splits)
qed

end
