(* ===== verification/Iprp_Debug.thy ===== *)
theory Iprp_Debug
  imports Iprp_Format Iprp_Packet
begin

text \<open>
  The macros of inc/debug.h: the error codes, the exit of ERR, and what LOG and DEBUG print at the three
  levels.  The models of the daemons keep of them that ERR ends the process with a message; here is the text.
\<close>

section \<open>Error codes\<close>

datatype iprp_error = Err_plain | Err_malloc | Err_noinit | Err_unknown | Err_empty | Err_nullptr | Err_badformat
  | Err_lookupfail | Err_multiple_same_ind | Err_nfqueue

definition iprp_errors :: "iprp_error list" where
  "iprp_errors = [Err_plain, Err_malloc, Err_noinit, Err_unknown, Err_empty, Err_nullptr, Err_badformat,
     Err_lookupfail, Err_multiple_same_ind, Err_nfqueue]"

text \<open>The enumeration starts at 1 and counts.\<close>

definition err_code :: "iprp_error \<Rightarrow> nat" where
  "err_code e = Suc (the (find_idx (\<lambda>d. d = e) iprp_errors))"

lemma err_codes:
  "err_code Err_plain = IPRP_ERR" "err_code Err_unknown = IPRP_ERR_UNKNOWN" "err_code Err_empty = IPRP_ERR_EMPTY"
  "err_code Err_nullptr = IPRP_ERR_NULLPTR" "err_code Err_nfqueue = 10" "err_code e \<noteq> 0"
  by (simp_all add: err_code_def iprp_errors_def IPRP_ERR_def IPRP_ERR_UNKNOWN_def IPRP_ERR_EMPTY_def
      IPRP_ERR_NULLPTR_def)

section \<open>Messages\<close>

definition NEWLINE :: char where "NEWLINE = CHR 0x0A"

text \<open>\<open>ERR\<close>: the line printed and the status of the process.\<close>

definition err_line :: "string \<Rightarrow> int \<Rightarrow> string" where
  "err_line msg var = ''Error: '' @ msg @ '' ('' @ fmt_d var @ '')'' @ [NEWLINE]"

definition err_exit :: "string \<Rightarrow> int \<Rightarrow> string \<times> int" where
  "err_exit msg var = (err_line msg var, 1)"

text \<open>\<open>MSG\<close> in a file of a thread, with the text its arguments make.\<close>

definition msg_line :: "variant \<Rightarrow> thread \<Rightarrow> string \<Rightarrow> string" where
  "msg_line v file text = ''['' @ iprp_thr_name v (thread_flag file) @ ''] '' @ text @ [NEWLINE]"

datatype debug_level = DEBUG_NONE | DEBUG_INFO | DEBUG_FULL

text \<open>The level the header sets, and the threads that DEBUG prints for.\<close>

definition the_level :: debug_level where "the_level = DEBUG_FULL"
definition DEBUG_THREADS :: u32 where "DEBUG_THREADS = - 1"

definition log_macro :: "debug_level \<Rightarrow> variant \<Rightarrow> thread \<Rightarrow> string \<Rightarrow> string" where
  "log_macro level v file text = (case level of DEBUG_NONE \<Rightarrow> [] | _ \<Rightarrow> msg_line v file text)"

definition debug_macro :: "debug_level \<Rightarrow> variant \<Rightarrow> thread \<Rightarrow> string \<Rightarrow> string" where
  "debug_macro level v file text = (case level of
     DEBUG_FULL \<Rightarrow> if thread_flag file AND DEBUG_THREADS \<noteq> 0 then msg_line v file text else []
   | _ \<Rightarrow> [])"

section \<open>A line names its thread\<close>

lemma names_no_bracket: "CHR '']'' \<notin> set (iprp_thr_name v t)"
  by (simp add: iprp_thr_name_def)

lemma thr_names_inject: "iprp_thr_name Multicast (thread_flag s) = iprp_thr_name Multicast (thread_flag t) \<longleftrightarrow> s = t"
  unfolding thr_names by (cases s; cases t; simp)

theorem lines_name_their_threads:
  "debug_macro the_level Multicast s text = log_macro the_level Multicast t text' \<longleftrightarrow> s = t \<and> text = text'"
proof -
  have "thread_flag s AND DEBUG_THREADS \<noteq> 0" by (cases s) (simp_all add: DEBUG_THREADS_def)
  moreover have "a @ CHR '']'' # xs = b @ CHR '']'' # ys \<longleftrightarrow> a = b \<and> xs = ys"
    if "CHR '']'' \<notin> set a" "CHR '']'' \<notin> set b" for a b xs ys :: string
    using that by (auto simp: append_eq_append_conv2 append_eq_Cons_conv Cons_eq_append_conv)
  from this[OF names_no_bracket names_no_bracket] have
    "msg_line Multicast s text = msg_line Multicast t text' \<longleftrightarrow> s = t \<and> text = text'"
    by (auto simp: msg_line_def thr_names_inject)
  ultimately show ?thesis by (simp add: debug_macro_def log_macro_def the_level_def)
qed

end
