(* ===== verification/Iprp_List.thy ===== *)
theory Iprp_List
  imports Iprp_Prelude
begin

text \<open>
  The doubly linked list of src/lib/list.c, at the level of pointers: a heap maps the address
  of a live \<open>list_elem_t\<close> to its node, \<open>malloc\<close> is the address it returns
  (\<open>None\<close> for NULL), \<open>free\<close> removes the address, and every access of a dead or null
  address is a fault.  The payload \<open>elem\<close> (a \<open>void*\<close> each caller allocates for one node)
  is kept in the node.  The representation predicate \<open>dll\<close> relates a list to the sequence of
  its nodes; append, delete and the iteration idioms of the daemons (search, sweep, copy out)
  are proved against that sequence, the idioms once, over the interface \<open>seq_list\<close>.
\<close>

section \<open>Data\<close>

type_synonym addr = nat

record 'a list_elem =
  elem :: 'a
  prev_elem :: "addr option"
  next_elem :: "addr option"

record list_t =
  head :: "addr option"
  tail :: "addr option"
  size_of :: u64
  mutex :: bool

type_synonym 'a heap = "addr \<rightharpoonup> 'a list_elem"

text \<open>The heap with the list header that lives in it.\<close>

type_synonym 'a lstate = "'a heap \<times> list_t"

section \<open>Operations\<close>

definition list_init :: list_t where
  "list_init = \<lparr>head = None, tail = None, size_of = 0, mutex = False\<rparr>"

fun list_append :: "'a lstate \<Rightarrow> 'a \<Rightarrow> addr option \<Rightarrow> 'a lstate result" where
  "list_append (h, l) value None = Inl (Err ''Unable to allocate list element'')"
| "list_append (h, l) value (Some a) =
     (let h1 = h(a \<mapsto> \<lparr>elem = value, prev_elem = tail l, next_elem = None\<rparr>)
      in if head l = None
         then Inr (h1, l\<lparr>head := Some a, tail := Some a, size_of := size_of l + 1\<rparr>)
         else (case tail l of
             None \<Rightarrow> Inl NullDeref
           | Some t \<Rightarrow> (case h1 t of
               None \<Rightarrow> Inl UseAfterFree
             | Some n \<Rightarrow> Inr (h1(t \<mapsto> n\<lparr>next_elem := Some a\<rparr>),
                              l\<lparr>tail := Some a, size_of := size_of l + 1\<rparr>))))"

text \<open>The write \<open>p->prev = q\<close> (or \<open>next\<close>) through a pointer that the code tested against NULL.\<close>

definition set_prev :: "'a heap \<Rightarrow> addr option \<Rightarrow> addr option \<Rightarrow> 'a heap result" where
  "set_prev h p q = (case p of None \<Rightarrow> Inr h | Some a \<Rightarrow>
     (case h a of None \<Rightarrow> Inl UseAfterFree | Some n \<Rightarrow> Inr (h(a \<mapsto> n\<lparr>prev_elem := q\<rparr>))))"

definition set_next :: "'a heap \<Rightarrow> addr option \<Rightarrow> addr option \<Rightarrow> 'a heap result" where
  "set_next h p q = (case p of None \<Rightarrow> Inr h | Some a \<Rightarrow>
     (case h a of None \<Rightarrow> Inl UseAfterFree | Some n \<Rightarrow> Inr (h(a \<mapsto> n\<lparr>next_elem := q\<rparr>))))"

definition deref :: "'a heap \<Rightarrow> addr \<Rightarrow> 'a list_elem result" where
  "deref h a = (case h a of None \<Rightarrow> Inl UseAfterFree | Some n \<Rightarrow> Inr n)"

definition list_delete :: "'a lstate \<Rightarrow> addr \<Rightarrow> 'a lstate result" where
  "list_delete s e = (case s of (h, l) \<Rightarrow>
     and_then (deref h e) (\<lambda>n.
     let l1 = (if head l = Some e then l\<lparr>head := next_elem n\<rparr> else l);
         l2 = (if tail l1 = Some e then l1\<lparr>tail := prev_elem n\<rparr> else l1)
     in and_then (set_prev h (next_elem n) (prev_elem n)) (\<lambda>h1.
        and_then (deref h1 e) (\<lambda>n1.
        and_then (set_next h1 (prev_elem n1) (next_elem n1)) (\<lambda>h2.
        Inr (h2(e := None), l2\<lparr>size_of := size_of l2 - 1\<rparr>))))))"

definition list_size :: "list_t \<Rightarrow> u64" where
  "list_size l = size_of l"

text \<open>
  The mutex is a default (not recursive) one: locking it while it is held does not return,
  which is \<open>None\<close>.
\<close>

definition list_lock :: "list_t \<Rightarrow> list_t option" where
  "list_lock l = (if mutex l then None else Some (l\<lparr>mutex := True\<rparr>))"

definition list_unlock :: "list_t \<Rightarrow> list_t" where
  "list_unlock l = l\<lparr>mutex := False\<rparr>"

text \<open>The iterator accesses of the daemons: \<open>list.head\<close>, \<open>it->elem\<close>, \<open>it->next\<close>,
  and a write to the payload.\<close>

definition list_head :: "'a lstate \<Rightarrow> addr option" where
  "list_head s = head (snd s)"

definition it_elem :: "'a lstate \<Rightarrow> addr \<Rightarrow> 'a result" where
  "it_elem s p = and_then (deref (fst s) p) (\<lambda>n. Inr (elem n))"

definition it_next :: "'a lstate \<Rightarrow> addr \<Rightarrow> addr option result" where
  "it_next s p = and_then (deref (fst s) p) (\<lambda>n. Inr (next_elem n))"

definition it_write :: "'a lstate \<Rightarrow> addr \<Rightarrow> 'a \<Rightarrow> 'a lstate result" where
  "it_write s p v = and_then (deref (fst s) p) (\<lambda>n. Inr ((fst s)(p \<mapsto> n\<lparr>elem := v\<rparr>), snd s))"

section \<open>Representation\<close>

definition first_ptr :: "('p \<times> 'a) list \<Rightarrow> 'p option \<Rightarrow> 'p option" where
  "first_ptr xs z = (case xs of [] \<Rightarrow> z | x # _ \<Rightarrow> Some (fst x))"

definition last_ptr :: "('p \<times> 'a) list \<Rightarrow> 'p option \<Rightarrow> 'p option" where
  "last_ptr xs z = (if xs = [] then z else Some (fst (last xs)))"

lemma first_ptr_simps [simp]:
  "first_ptr [] z = z" "first_ptr (x # xs) z = Some (fst x)"
  "first_ptr (xs @ ys) z = first_ptr xs (first_ptr ys z)"
  by (auto simp: first_ptr_def split: list.splits)

lemma last_ptr_simps [simp]:
  "last_ptr [] z = z" "last_ptr (xs @ [x]) z = Some (fst x)"
  "last_ptr (x # xs) z = last_ptr xs (Some (fst x))"
  "last_ptr (xs @ ys) z = last_ptr ys (last_ptr xs z)"
  by (auto simp: last_ptr_def)

lemma last_ptr_SomeD: "last_ptr xs (Some a) = Some e \<Longrightarrow> e = a \<or> e \<in> fst ` set xs"
  by (cases xs rule: rev_cases) auto

text \<open>\<open>dseg h p xs q\<close>: the nodes \<open>xs\<close> are linked in order, the first one's predecessor is
  \<open>p\<close>, the last one's successor is \<open>q\<close>.\<close>

fun dseg :: "'a heap \<Rightarrow> addr option \<Rightarrow> (addr \<times> 'a) list \<Rightarrow> addr option \<Rightarrow> bool" where
  "dseg h p [] q \<longleftrightarrow> True"
| "dseg h p ((a, v) # xs) q \<longleftrightarrow>
     h a = Some \<lparr>elem = v, prev_elem = p, next_elem = first_ptr xs q\<rparr> \<and> dseg h (Some a) xs q"

definition dll :: "'a lstate \<Rightarrow> (addr \<times> 'a) list \<Rightarrow> bool" where
  "dll s xs \<longleftrightarrow> distinct (map fst xs) \<and> dseg (fst s) None xs None
     \<and> head (snd s) = first_ptr xs None \<and> tail (snd s) = last_ptr xs None
     \<and> size_of (snd s) = of_nat (length xs)"

lemma dseg_append [simp]:
  "dseg h p (xs @ ys) q \<longleftrightarrow> dseg h p xs (first_ptr ys q) \<and> dseg h (last_ptr xs p) ys q"
  by (induction h p xs q rule: dseg.induct) auto

lemma dseg_upd [simp]: "a \<notin> fst ` set xs \<Longrightarrow> dseg (h(a := n)) p xs q = dseg h p xs q"
  by (induction h p xs q rule: dseg.induct) auto

lemma dseg_live: "dseg h p xs q \<Longrightarrow> (a, v) \<in> set xs \<Longrightarrow> \<exists>n. h a = Some n \<and> elem n = v"
  by (induction h p xs q rule: dseg.induct) auto

lemma dll_init: "dll (h, list_init) []"
  by (simp add: dll_def list_init_def)

lemma list_append_dll:
  assumes r: "dll (h, l) xs" and fresh: "h a = None"
  shows "\<exists>s'. list_append (h, l) v (Some a) = Inr s' \<and> dll s' (xs @ [(a, v)])"
proof -
  have dead: "a \<notin> fst ` set xs"
    using r fresh dseg_live[of h None xs None] by (fastforce simp: dll_def)
  show ?thesis
  proof (cases xs rule: rev_cases)
    case Nil
    then show ?thesis using r by (simp add: dll_def)
  next
    case (snoc ys y)
    obtain t w where y: "y = (t, w)" by (cases y)
    have "head l \<noteq> None"
      using r snoc by (cases ys) (auto simp: dll_def)
    with r snoc y dead show ?thesis
      by (auto simp: dll_def Let_def)
  qed
qed

lemma dll_split_delete:
  assumes r: "dll (h, l) (xs @ (e, v) # ys)"
  shows "\<exists>s'. list_delete (h, l) e = Inr s' \<and> dll s' (xs @ ys)"
proof -
  have n: "h e = Some \<lparr>elem = v, prev_elem = last_ptr xs None, next_elem = first_ptr ys None\<rparr>"
    using r by (simp add: dll_def)
  have e: "e \<notin> fst ` set xs" "e \<notin> fst ` set ys"
    using r by (auto simp: dll_def)
  consider (single) "xs = []" "ys = []" | (front) b w ys' where "xs = []" "ys = (b, w) # ys'"
    | (rear) a u xs' where "xs = xs' @ [(a, u)]" "ys = []"
    | (mid) a u xs' b w ys' where "xs = xs' @ [(a, u)]" "ys = (b, w) # ys'"
    by (cases xs rule: rev_cases; cases ys) auto
  then show ?thesis
  proof cases
    case single
    with r n e show ?thesis
      by (auto simp: list_delete_def dll_def deref_def set_prev_def set_next_def)
  next
    case front
    with r n e show ?thesis
      by (auto simp: list_delete_def dll_def deref_def set_prev_def set_next_def Let_def
          dest: last_ptr_SomeD)
  next
    case rear
    with r n e show ?thesis
      by (cases xs') (auto simp: list_delete_def dll_def deref_def set_prev_def set_next_def Let_def)
  next
    case mid
    with r n e show ?thesis
      by (cases xs') (auto simp: list_delete_def dll_def deref_def set_prev_def set_next_def
          Let_def dest: last_ptr_SomeD)
  qed
qed

section \<open>Iteration\<close>

text \<open>
  The loops the daemons run over a list, written once over the accesses they use.  Fuel bounds
  the number of iterations; the lemmas below show that one more than the number of nodes is
  enough, so that on a represented list the loops return.  \<open>search_loop\<close> is the lookup
  (stop at the first element that matches), \<open>sweep_loop\<close> the cleanup (delete what is aged,
  count the rest, reading the successor before the deletion), \<open>copy_loop\<close> the export of
  the first \<open>n\<close> elements.
\<close>

fun search_loop ::
  "('s \<Rightarrow> 'p \<Rightarrow> 'a result) \<Rightarrow> ('s \<Rightarrow> 'p \<Rightarrow> 'p option result) \<Rightarrow> ('a \<Rightarrow> bool)
   \<Rightarrow> nat \<Rightarrow> 's \<Rightarrow> 'p option \<Rightarrow> 'p option result option" where
  "search_loop el nx P 0 s it = None"
| "search_loop el nx P (Suc n) s None = Some (Inr None)"
| "search_loop el nx P (Suc n) s (Some p) =
     (case el s p of Inl e \<Rightarrow> Some (Inl e)
      | Inr v \<Rightarrow> if P v then Some (Inr (Some p))
          else (case nx s p of Inl e \<Rightarrow> Some (Inl e) | Inr q \<Rightarrow> search_loop el nx P n s q))"

fun sweep_loop ::
  "('s \<Rightarrow> 'p \<Rightarrow> 'a result) \<Rightarrow> ('s \<Rightarrow> 'p \<Rightarrow> 'p option result) \<Rightarrow> ('s \<Rightarrow> 'p \<Rightarrow> 's result)
   \<Rightarrow> ('a \<Rightarrow> bool) \<Rightarrow> nat \<Rightarrow> nat \<Rightarrow> 's \<Rightarrow> 'p option \<Rightarrow> (nat \<times> 's) result option" where
  "sweep_loop el nx dl aged 0 c s it = None"
| "sweep_loop el nx dl aged (Suc n) c s None = Some (Inr (c, s))"
| "sweep_loop el nx dl aged (Suc n) c s (Some p) =
     (case el s p of Inl e \<Rightarrow> Some (Inl e)
      | Inr v \<Rightarrow> (case nx s p of Inl e \<Rightarrow> Some (Inl e)
         | Inr q \<Rightarrow>
             if aged v
             then (case dl s p of Inl e \<Rightarrow> Some (Inl e)
                   | Inr s' \<Rightarrow> sweep_loop el nx dl aged n c s' q)
             else sweep_loop el nx dl aged n (Suc c) s q))"

fun copy_loop ::
  "('s \<Rightarrow> 'p \<Rightarrow> 'a result) \<Rightarrow> ('s \<Rightarrow> 'p \<Rightarrow> 'p option result) \<Rightarrow> nat \<Rightarrow> 's \<Rightarrow> 'p option
   \<Rightarrow> 'a list result" where
  "copy_loop el nx 0 s it = Inr []"
| "copy_loop el nx (Suc n) s None = Inl NullDeref"
| "copy_loop el nx (Suc n) s (Some p) =
     and_then (el s p) (\<lambda>v. and_then (nx s p) (\<lambda>q.
     and_then (copy_loop el nx n s q) (\<lambda>vs. Inr (v # vs))))"

text \<open>
  The interface the daemons rely on: a state that represents a sequence of nodes, an append at
  a fresh address, deletion and writing at a live one.
\<close>

locale seq_list =
  fixes repr :: "'s \<Rightarrow> ('p \<times> 'a) list \<Rightarrow> bool"
    and fresh :: "'s \<Rightarrow> 'p \<Rightarrow> bool"
    and hd_of :: "'s \<Rightarrow> 'p option"
    and el :: "'s \<Rightarrow> 'p \<Rightarrow> 'a result"
    and nx :: "'s \<Rightarrow> 'p \<Rightarrow> 'p option result"
    and wr :: "'s \<Rightarrow> 'p \<Rightarrow> 'a \<Rightarrow> 's result"
    and ap :: "'s \<Rightarrow> 'a \<Rightarrow> 'p option \<Rightarrow> 's result"
    and dl :: "'s \<Rightarrow> 'p \<Rightarrow> 's result"
  assumes repr_distinct: "repr s xs \<Longrightarrow> distinct (map fst xs)"
    and hd_law: "repr s xs \<Longrightarrow> hd_of s = first_ptr xs None"
    and el_law: "repr s (xs @ (p, v) # ys) \<Longrightarrow> el s p = Inr v"
    and nx_law: "repr s (xs @ (p, v) # ys) \<Longrightarrow> nx s p = Inr (first_ptr ys None)"
    and wr_law: "repr s (xs @ (p, v) # ys) \<Longrightarrow> \<exists>s'. wr s p w = Inr s' \<and> repr s' (xs @ (p, w) # ys)"
    and ap_law: "repr s xs \<Longrightarrow> fresh s p \<Longrightarrow> \<exists>s'. ap s v (Some p) = Inr s' \<and> repr s' (xs @ [(p, v)])"
    and dl_law: "repr s (xs @ (p, v) # ys) \<Longrightarrow> \<exists>s'. dl s p = Inr s' \<and> repr s' (xs @ ys)"
begin

lemma search_from:
  "repr s (xs @ ys) \<Longrightarrow> length ys < n \<Longrightarrow>
   search_loop el nx P n s (first_ptr ys None)
     = Some (Inr (map_option fst (find (\<lambda>x. P (snd x)) ys)))"
proof (induction ys arbitrary: xs n)
  case Nil
  then show ?case by (cases n) auto
next
  case (Cons y ys)
  obtain p v where y: "y = (p, v)" by (cases y)
  from Cons.prems obtain m where n: "n = Suc m" "length ys < m" by (cases n) auto
  have "repr s ((xs @ [y]) @ ys)" using Cons.prems by simp
  note IH = Cons.IH[OF this n(2)]
  show ?case
    using Cons.prems n y IH el_law[of s xs p v ys] nx_law[of s xs p v ys] by simp
qed

lemma search_list:
  "repr s xs \<Longrightarrow> length xs < n \<Longrightarrow>
   search_loop el nx P n s (hd_of s) = Some (Inr (map_option fst (find (\<lambda>x. P (snd x)) xs)))"
  using search_from[of s "[]" xs n P] hd_law[of s xs] by simp

lemma sweep_from:
  "repr s (xs @ ys) \<Longrightarrow> length ys < n \<Longrightarrow>
   \<exists>s'. sweep_loop el nx dl aged n c s (first_ptr ys None)
          = Some (Inr (c + length (filter (\<lambda>x. \<not> aged (snd x)) ys), s'))
        \<and> repr s' (xs @ filter (\<lambda>x. \<not> aged (snd x)) ys)"
proof (induction ys arbitrary: xs n c s)
  case Nil
  then show ?case by (cases n) auto
next
  case (Cons y ys)
  obtain p v where y: "y = (p, v)" by (cases y)
  from Cons.prems obtain m where n: "n = Suc m" "length ys < m" by (cases n) auto
  have r: "repr s (xs @ (p, v) # ys)" using Cons.prems y by simp
  note acc = el_law[OF r] nx_law[OF r]
  show ?case
  proof (cases "aged v")
    case True
    from dl_law[OF r] obtain s1 where s1: "dl s p = Inr s1" "repr s1 (xs @ ys)" by auto
    from Cons.IH[OF s1(2) n(2), of c] show ?thesis
      using True n y acc s1(1) by simp
  next
    case False
    have "repr s ((xs @ [y]) @ ys)" using Cons.prems by simp
    from Cons.IH[OF this n(2), of "Suc c"] show ?thesis
      using False n y acc by simp
  qed
qed

lemma sweep_list:
  "repr s xs \<Longrightarrow> length xs < n \<Longrightarrow>
   \<exists>s'. sweep_loop el nx dl aged n 0 s (hd_of s)
          = Some (Inr (length (filter (\<lambda>x. \<not> aged (snd x)) xs), s'))
        \<and> repr s' (filter (\<lambda>x. \<not> aged (snd x)) xs)"
  using sweep_from[of s "[]" xs n aged 0] hd_law[of s xs] by simp

lemma copy_from:
  "repr s (xs @ ys) \<Longrightarrow>
   copy_loop el nx n s (first_ptr ys None)
     = (if n \<le> length ys then Inr (map snd (take n ys)) else Inl NullDeref)"
proof (induction ys arbitrary: xs n)
  case Nil
  then show ?case by (cases n) auto
next
  case (Cons y ys)
  obtain p v where y: "y = (p, v)" by (cases y)
  have r: "repr s (xs @ (p, v) # ys)" using Cons.prems y by simp
  have "repr s ((xs @ [y]) @ ys)" using Cons.prems by simp
  note IH = Cons.IH[OF this]
  show ?case
    using y IH el_law[OF r] nx_law[OF r] by (cases n) auto
qed

lemma copy_list:
  "repr s xs \<Longrightarrow> n \<le> length xs \<Longrightarrow> copy_loop el nx n s (hd_of s) = Inr (map snd (take n xs))"
  using copy_from[of s "[]" xs n] hd_law[of s xs] by simp

end

section \<open>The code's list implements the interface\<close>

definition unused :: "'a lstate \<Rightarrow> addr \<Rightarrow> bool" where
  "unused s a \<longleftrightarrow> fst s a = None"

lemma it_write_dll:
  assumes "dll s (xs @ (p, v) # ys)"
  shows "\<exists>s'. it_write s p w = Inr s' \<and> dll s' (xs @ (p, w) # ys)"
  using assms by (auto simp: it_write_def deref_def dll_def)

interpretation ll: seq_list dll unused list_head it_elem it_next it_write list_append list_delete
proof unfold_locales
  fix s :: "'a lstate" and xs ys p v w
  show "dll s xs \<Longrightarrow> distinct (map fst xs)"
    and "dll s xs \<Longrightarrow> list_head s = first_ptr xs None"
    and "dll s (xs @ (p, v) # ys) \<Longrightarrow> it_elem s p = Inr v"
    and "dll s (xs @ (p, v) # ys) \<Longrightarrow> it_next s p = Inr (first_ptr ys None)"
    by (auto simp: dll_def list_head_def it_elem_def it_next_def deref_def)
  show "dll s (xs @ (p, v) # ys) \<Longrightarrow> \<exists>s'. it_write s p w = Inr s' \<and> dll s' (xs @ (p, w) # ys)"
    by (rule it_write_dll)
  show "dll s xs \<Longrightarrow> unused s p \<Longrightarrow> \<exists>s'. list_append s v (Some p) = Inr s' \<and> dll s' (xs @ [(p, v)])"
    by (cases s) (metis list_append_dll unused_def fst_conv)
  show "dll s (xs @ (p, v) # ys) \<Longrightarrow> \<exists>s'. list_delete s p = Inr s' \<and> dll s' (xs @ ys)"
    by (cases s) (metis dll_split_delete)
qed

section \<open>Refinement of whole runs\<close>

text \<open>
  A run of appends (with the address \<open>malloc\<close> returned) and deletions, on the heap and on the
  sequence of nodes; on the sequence a run is defined when every appended node is new and every
  deleted one is there.  \<open>dll_owned\<close> says in addition that the heap holds these nodes only:
  nothing leaks.
\<close>

datatype 'a list_op = OpAppend 'a addr | OpDelete addr

fun run_ops :: "'a lstate \<Rightarrow> 'a list_op list \<Rightarrow> 'a lstate result" where
  "run_ops s [] = Inr s"
| "run_ops s (OpAppend v a # ops) = and_then (list_append s v (Some a)) (\<lambda>s'. run_ops s' ops)"
| "run_ops s (OpDelete a # ops) = and_then (list_delete s a) (\<lambda>s'. run_ops s' ops)"

fun run_seq :: "(addr \<times> 'a) list \<Rightarrow> 'a list_op list \<Rightarrow> (addr \<times> 'a) list option" where
  "run_seq xs [] = Some xs"
| "run_seq xs (OpAppend v a # ops) =
     (if a \<in> fst ` set xs then None else run_seq (xs @ [(a, v)]) ops)"
| "run_seq xs (OpDelete a # ops) =
     (if a \<in> fst ` set xs then run_seq (filter (\<lambda>x. fst x \<noteq> a) xs) ops else None)"

definition dll_owned :: "'a lstate \<Rightarrow> (addr \<times> 'a) list \<Rightarrow> bool" where
  "dll_owned s xs \<longleftrightarrow> dll s xs \<and> dom (fst s) = fst ` set xs"

lemma list_append_dom:
  "list_append s v (Some a) = Inr s' \<Longrightarrow> dom (fst s') = insert a (dom (fst s))"
  by (cases s) (auto simp: Let_def split: if_splits option.splits)

lemma set_link_dom:
  "set_prev h p q = Inr h' \<Longrightarrow> dom h' = dom h"
  "set_next h p q = Inr h' \<Longrightarrow> dom h' = dom h"
  by (auto simp: set_prev_def set_next_def split: option.splits if_splits)

lemma list_delete_heap:
  "list_delete s a = Inr s' \<Longrightarrow> \<exists>h. dom h = dom (fst s) \<and> fst s' = h(a := None)"
  unfolding list_delete_def Let_def and_then_eq_Inr prod.case_eq_if
  by (metis set_link_dom Inr_inject fst_conv)

lemma list_delete_dom:
  assumes "list_delete s a = Inr s'"
  shows "dom (fst s') = dom (fst s) - {a}"
proof -
  from list_delete_heap[OF assms] obtain h where "dom h = dom (fst s)" "fst s' = h(a := None)"
    by blast
  then show ?thesis by simp
qed

lemma filter_out_node:
  assumes "distinct (map fst (xs @ (a, v) # ys))"
  shows "filter (\<lambda>x. fst x \<noteq> a) (xs @ (a, v) # ys) = xs @ ys"
proof -
  have "\<forall>x \<in> set xs. fst x \<noteq> a" "\<forall>x \<in> set ys. fst x \<noteq> a" using assms by force+
  then show ?thesis by simp
qed

lemma append_owned:
  assumes "dll_owned s xs" and "a \<notin> fst ` set xs"
  shows "\<exists>s'. list_append s v (Some a) = Inr s' \<and> dll_owned s' (xs @ [(a, v)])"
proof -
  have "unused s a" using assms by (auto simp: dll_owned_def unused_def domIff)
  with assms(1) obtain s' where s': "list_append s v (Some a) = Inr s'" "dll s' (xs @ [(a, v)])"
    using ll.ap_law[of s xs a v] by (auto simp: dll_owned_def)
  with assms(1) list_append_dom[OF s'(1)] show ?thesis by (auto simp: dll_owned_def)
qed

lemma delete_owned:
  assumes o: "dll_owned s xs" and a: "a \<in> fst ` set xs"
  shows "\<exists>s'. list_delete s a = Inr s' \<and> dll_owned s' (filter (\<lambda>x. fst x \<noteq> a) xs)"
proof -
  from a obtain us v ws where xs: "xs = us @ (a, v) # ws" by (force simp: in_set_conv_decomp)
  have d: "distinct (map fst xs)" using o by (simp add: dll_owned_def dll_def)
  have f: "filter (\<lambda>x. fst x \<noteq> a) xs = us @ ws"
    using d xs filter_out_node by metis
  from o xs obtain s' where s': "list_delete s a = Inr s'" "dll s' (us @ ws)"
    using ll.dl_law[of s us a v ws] by (auto simp: dll_owned_def)
  have "dom (fst s') = fst ` set (us @ ws)"
    using list_delete_dom[OF s'(1)] o d xs by (auto simp: dll_owned_def)
  with s' f show ?thesis by (simp add: dll_owned_def)
qed

text \<open>
  C17. Refinement of src/lib/list.c: every run of appends at addresses \<open>malloc\<close> returns
  (not live) and deletions of nodes of the list completes without a fault and leaves a well
  formed doubly linked list of exactly the nodes of the abstract sequence, in order; head, tail
  and size agree with it, every deleted node is freed and none other.
\<close>

theorem list_runs_refine_sequences:
  assumes "dll_owned s xs" and "run_seq xs ops = Some ys"
  shows "\<exists>s'. run_ops s ops = Inr s' \<and> dll_owned s' ys"
  using assms
proof (induction ops arbitrary: s xs)
  case Nil
  then show ?case by simp
next
  case (Cons op ops)
  show ?case
  proof (cases op)
    case (OpAppend v a)
    with Cons.prems have "a \<notin> fst ` set xs" "run_seq (xs @ [(a, v)]) ops = Some ys"
      by (auto split: if_splits)
    with append_owned[OF Cons.prems(1), of a v] obtain s1
      where "list_append s v (Some a) = Inr s1" "dll_owned s1 (xs @ [(a, v)])" by blast
    with Cons.IH OpAppend \<open>run_seq (xs @ [(a, v)]) ops = Some ys\<close> show ?thesis by simp
  next
    case (OpDelete a)
    with Cons.prems have "a \<in> fst ` set xs" "run_seq (filter (\<lambda>x. fst x \<noteq> a) xs) ops = Some ys"
      by (auto split: if_splits)
    with delete_owned[OF Cons.prems(1), of a] obtain s1
      where "list_delete s a = Inr s1" "dll_owned s1 (filter (\<lambda>x. fst x \<noteq> a) xs)" by blast
    with Cons.IH OpDelete \<open>run_seq (filter (\<lambda>x. fst x \<noteq> a) xs) ops = Some ys\<close> show ?thesis by simp
  qed
qed

lemma dll_owned_init: "dll_owned (Map.empty, list_init) []"
  by (simp add: dll_owned_def dll_init)

theorem list_runs_refine_sequences_witness:
  "\<exists>s'. run_ops (Map.empty, list_init) [OpAppend True 7, OpAppend False 3, OpDelete 7] = Inr s'
     \<and> dll_owned s' [(3, False)]"
  by (rule list_runs_refine_sequences[OF dll_owned_init]) simp

text \<open>
  C18. The cleanup loop of the daemons (sweep from the head, successor read before the
  deletion) terminates within one iteration more than the list has nodes, never touches freed
  memory, deletes exactly the nodes whose payload is aged, keeps the order of the others and
  returns their number.
\<close>

theorem list_sweep_deletes_exactly_aged:
  assumes "dll s xs" and "length xs < n"
  shows "\<exists>s'. sweep_loop it_elem it_next list_delete aged n 0 s (list_head s)
       = Some (Inr (length (filter (\<lambda>x. \<not> aged (snd x)) xs), s'))
     \<and> dll s' (filter (\<lambda>x. \<not> aged (snd x)) xs)"
  using assms by (rule ll.sweep_list)

lemma dll_two_nodes:
  "dll ([7 \<mapsto> \<lparr>elem = v, prev_elem = None, next_elem = Some 3\<rparr>,
         3 \<mapsto> \<lparr>elem = w, prev_elem = Some 7, next_elem = None\<rparr>],
        \<lparr>head = Some 7, tail = Some 3, size_of = 2, mutex = False\<rparr>) [(7, v), (3, w)]"
  by (simp add: dll_def)

theorem list_sweep_deletes_exactly_aged_witness:
  "\<exists>s s'. sweep_loop it_elem it_next list_delete (\<lambda>t::int. t > 5) 3 0 s (list_head s)
       = Some (Inr (1, s')) \<and> dll s' [(3, 4)]"
  using list_sweep_deletes_exactly_aged[OF dll_two_nodes[of "9::int" 4], of 3 "\<lambda>t. t > 5"] by auto

end
