(* ===== verification/Iprp_Concurrency.thy ===== *)
theory Iprp_Concurrency
  imports Iprp_List
begin

text \<open>
  Packet threads and a cleanup thread on one list, as the IRD (receiver links, one packet thread) and
  the IMD (active senders, two packet threads) run them.  A packet thread locks, searches, updates
  the entry it found or appends a new one, and unlocks.  The cleanup thread reads the head without the
  lock, and for each element locks, reads the element and its successor, deletes it when it is aged
  and counts it when not, and unlocks; in the IMD it then copies as many elements as it counted,
  without the lock.  The steps interleave arbitrarily; what one thread does while it holds the lock
  is one step.  Source: \<open>handle_packet\<close> and \<open>cleanup_routine\<close> in src/ird/handle.c,
  \<open>global_handle\<close> in src/imd/handle.c, \<open>count_and_cleanup\<close> and \<open>get_entries\<close> in
  src/imd/activesenders.c.
\<close>

section \<open>States\<close>

text \<open>Where a packet thread is: outside the lock, inside before and inside after its work.\<close>

datatype handler_pc = H_Out | H_In | H_Done

text \<open>Where the cleanup thread is, with its count: between passes; at an iterator outside the lock;
  inside the lock with an element, and then with the next iterator; copying, with the number of
  elements to go and the iterator.\<close>

datatype cleaner_pc = C_Sleep | C_It nat "addr option" | C_In nat addr | C_Done nat "addr option"
  | C_Copy nat "addr option"

record 'a shared =
  sh :: "'a lstate"
  hpc :: "nat \<Rightarrow> handler_pc"
  cpc :: cleaner_pc

text \<open>A system state, or the fault a thread ran into.\<close>

datatype 'a conf = Running "'a shared" | Crashed fault

definition conf_of :: "'b result \<Rightarrow> ('b \<Rightarrow> 'a shared) \<Rightarrow> 'a conf" where
  "conf_of r f = (case r of Inl e \<Rightarrow> Crashed e | Inr x \<Rightarrow> Running (f x))"

text \<open>The lock operations on the shared list (\<open>None\<close> when the mutex is held).\<close>

definition sh_lock :: "'a lstate \<Rightarrow> 'a lstate option" where
  "sh_lock s = map_option (Pair (fst s)) (list_lock (snd s))"

definition sh_unlock :: "'a lstate \<Rightarrow> 'a lstate" where
  "sh_unlock s = (fst s, list_unlock (snd s))"

text \<open>What the cleanup thread does inside the lock: the list, the count and the next iterator.\<close>

definition visit ::
  "('a \<Rightarrow> bool) \<Rightarrow> nat \<Rightarrow> 'a lstate \<Rightarrow> addr \<Rightarrow> ('a lstate \<times> nat \<times> addr option) result" where
  "visit old k s p =
     and_then (it_elem s p) (\<lambda>v.
     and_then (it_next s p) (\<lambda>q.
     if old v then and_then (list_delete s p) (\<lambda>s'. Inr (s', k, q)) else Inr (s, Suc k, q)))"

text \<open>One element of the copy: its value is read, then its successor.\<close>

definition copy_elem :: "'a lstate \<Rightarrow> addr option \<Rightarrow> addr option result" where
  "copy_elem s it = (case it of None \<Rightarrow> Inl NullDeref
     | Some p \<Rightarrow> and_then (it_elem s p) (\<lambda>_. it_next s p))"

section \<open>Steps\<close>

inductive cstep :: "'a conf \<Rightarrow> 'a conf \<Rightarrow> bool" where
  h_lock: "hpc c i = H_Out \<Longrightarrow> sh_lock (sh c) = Some s \<Longrightarrow>
    cstep (Running c) (Running (c\<lparr>sh := s, hpc := (hpc c)(i := H_In)\<rparr>))"
| h_append: "hpc c i = H_In \<Longrightarrow>
    search_loop it_elem it_next P n (sh c) (list_head (sh c)) = Some (Inr None) \<Longrightarrow> fst (sh c) a = None \<Longrightarrow>
    cstep (Running c) (conf_of (list_append (sh c) v (Some a))
      (\<lambda>s. c\<lparr>sh := s, hpc := (hpc c)(i := H_Done)\<rparr>))"
| h_update: "hpc c i = H_In \<Longrightarrow>
    search_loop it_elem it_next P n (sh c) (list_head (sh c)) = Some (Inr (Some p)) \<Longrightarrow>
    cstep (Running c) (conf_of (it_write (sh c) p v) (\<lambda>s. c\<lparr>sh := s, hpc := (hpc c)(i := H_Done)\<rparr>))"
| h_search_fault: "hpc c i = H_In \<Longrightarrow>
    search_loop it_elem it_next P n (sh c) (list_head (sh c)) = Some (Inl e) \<Longrightarrow>
    cstep (Running c) (Crashed e)"
| h_unlock: "hpc c i = H_Done \<Longrightarrow>
    cstep (Running c) (Running (c\<lparr>sh := sh_unlock (sh c), hpc := (hpc c)(i := H_Out)\<rparr>))"
| c_head: "cpc c = C_Sleep \<Longrightarrow> cstep (Running c) (Running (c\<lparr>cpc := C_It 0 (list_head (sh c))\<rparr>))"
| c_lock: "cpc c = C_It k (Some p) \<Longrightarrow> sh_lock (sh c) = Some s \<Longrightarrow>
    cstep (Running c) (Running (c\<lparr>sh := s, cpc := C_In k p\<rparr>))"
| c_visit: "cpc c = C_In k p \<Longrightarrow>
    cstep (Running c) (conf_of (visit old k (sh c) p) (\<lambda>(s, k', q). c\<lparr>sh := s, cpc := C_Done k' q\<rparr>))"
| c_unlock: "cpc c = C_Done k q \<Longrightarrow>
    cstep (Running c) (Running (c\<lparr>sh := sh_unlock (sh c), cpc := C_It k q\<rparr>))"
| c_end: "cpc c = C_It k None \<Longrightarrow> cstep (Running c) (Running (c\<lparr>cpc := C_Sleep\<rparr>))"
| c_start_copy: "cpc c = C_It k None \<Longrightarrow>
    cstep (Running c) (Running (c\<lparr>cpc := C_Copy k (list_head (sh c))\<rparr>))"
| c_copy: "cpc c = C_Copy (Suc k) q \<Longrightarrow>
    cstep (Running c) (conf_of (copy_elem (sh c) q) (\<lambda>q'. c\<lparr>cpc := C_Copy k q'\<rparr>))"
| c_end_copy: "cpc c = C_Copy 0 q \<Longrightarrow> cstep (Running c) (Running (c\<lparr>cpc := C_Sleep\<rparr>))"

inductive_cases cstepE [consumes 1, case_names h_lock h_append h_update h_search_fault h_unlock
  c_head c_lock c_visit c_unlock c_end c_start_copy c_copy c_end_copy]: "cstep (Running c) d"
inductive_simps cstep_crashed: "cstep (Crashed e) d"

definition conc_start :: "'a shared" where
  "conc_start = \<lparr>sh = (Map.empty, list_init), hpc = (\<lambda>i. H_Out), cpc = C_Sleep\<rparr>"

definition conc_init :: "'a conf" where
  "conc_init = Running conc_start"

section \<open>The invariant\<close>

definition inside_h :: "handler_pc \<Rightarrow> bool" where
  "inside_h p \<longleftrightarrow> p \<noteq> H_Out"

fun inside_c :: "cleaner_pc \<Rightarrow> bool" where
  "inside_c (C_In k p) = True"
| "inside_c (C_Done k q) = True"
| "inside_c _ = False"

text \<open>The cleanup thread on the nodes of the list: it has counted at most the nodes before its
  iterator, and has at most the nodes from its iterator on to copy.\<close>

definition first_of :: "addr list \<Rightarrow> addr option" where
  "first_of ps = (case ps of [] \<Rightarrow> None | p # _ \<Rightarrow> Some p)"

fun cleaner_at :: "addr list \<Rightarrow> cleaner_pc \<Rightarrow> bool" where
  "cleaner_at ps C_Sleep = True"
| "cleaner_at ps (C_It k q) = (\<exists>us ws. ps = us @ ws \<and> q = first_of ws \<and> k \<le> length us)"
| "cleaner_at ps (C_In k p) = (\<exists>us ws. ps = us @ p # ws \<and> k \<le> length us)"
| "cleaner_at ps (C_Done k q) = (\<exists>us ws. ps = us @ ws \<and> q = first_of ws \<and> k \<le> length us)"
| "cleaner_at ps (C_Copy k q) = (\<exists>us ws. ps = us @ ws \<and> q = first_of ws \<and> k \<le> length ws)"

definition excluded :: "'a shared \<Rightarrow> bool" where
  "excluded c \<longleftrightarrow> (\<forall>i. inside_h (hpc c i) \<longrightarrow> \<not> inside_c (cpc c) \<and> (\<forall>j. inside_h (hpc c j) \<longrightarrow> i = j))"

definition conc_inv :: "'a shared \<Rightarrow> bool" where
  "conc_inv c \<longleftrightarrow> (\<exists>xs. dll_owned (sh c) xs \<and> cleaner_at (map fst xs) (cpc c))
     \<and> mutex (snd (sh c)) = ((\<exists>i. inside_h (hpc c i)) \<or> inside_c (cpc c)) \<and> excluded c"

lemma first_of_simps [simp]: "first_of [] = None" "first_of (p # ps) = Some p"
  by (simp_all add: first_of_def)

lemma first_of_Some: "Some p = first_of ws \<longleftrightarrow> (\<exists>rest. ws = p # rest)"
  by (cases ws) auto

lemma first_of_None: "None = first_of ws \<longleftrightarrow> ws = []"
  by (cases ws) auto

lemma first_ptr_first_of: "first_ptr xs None = first_of (map fst xs)"
  by (cases xs) (auto simp: first_ptr_def)

lemma cleaner_atI:
  "k \<le> length us \<Longrightarrow> cleaner_at (us @ ws) (C_It k (first_of ws))"
  "k \<le> length us \<Longrightarrow> cleaner_at (us @ ws) (C_Done k (first_of ws))"
  "k \<le> length us \<Longrightarrow> cleaner_at (us @ p # ws) (C_In k p)"
  "k \<le> length ws \<Longrightarrow> cleaner_at (us @ ws) (C_Copy k (first_of ws))"
  by auto

lemma cleaner_at_append:
  assumes "cleaner_at ps u"
  shows "cleaner_at (ps @ [a]) u"
proof (cases u)
  case (C_It k q)
  with assms obtain us ws where w: "ps = us @ ws" "q = first_of ws" "k \<le> length us" by auto
  then show ?thesis using C_It
    by (cases ws) (auto intro: exI[of _ "ps @ [a]"] exI[of _ us] simp: first_of_def)
next
  case (C_In k p)
  with assms show ?thesis by force
next
  case (C_Done k q)
  with assms obtain us ws where w: "ps = us @ ws" "q = first_of ws" "k \<le> length us" by auto
  then show ?thesis using C_Done
    by (cases ws) (auto intro: exI[of _ "ps @ [a]"] exI[of _ us] simp: first_of_def)
next
  case (C_Copy k q)
  with assms obtain us ws where w: "ps = us @ ws" "q = first_of ws" "k \<le> length ws" by auto
  then show ?thesis using C_Copy
    by (cases ws) (auto intro: exI[of _ "ps @ [a]"] exI[of _ us] simp: first_of_def)
qed simp

lemma list_append_mutex: "list_append s v p = Inr s' \<Longrightarrow> mutex (snd s') = mutex (snd s)"
  by (cases s; cases p) (auto simp: Let_def split: if_splits option.splits)

lemma it_write_mutex: "it_write s p v = Inr s' \<Longrightarrow> mutex (snd s') = mutex (snd s)"
  by (auto simp: it_write_def and_then_eq_Inr)

lemma list_delete_mutex: "list_delete s p = Inr s' \<Longrightarrow> mutex (snd s') = mutex (snd s)"
  by (auto simp: list_delete_def and_then_eq_Inr Let_def split: prod.splits if_splits)

lemma sh_lock_owned: "sh_lock s = Some s' \<Longrightarrow> \<not> mutex (snd s) \<and> mutex (snd s') \<and> (dll_owned s' xs = dll_owned s xs)"
  by (clarsimp simp: sh_lock_def list_lock_def dll_owned_def dll_def split: if_splits)

lemma sh_unlock_owned: "\<not> mutex (snd (sh_unlock s)) \<and> (dll_owned (sh_unlock s) xs = dll_owned s xs)"
  by (auto simp: sh_unlock_def list_unlock_def dll_owned_def dll_def)

lemma in_nodes: "p \<in> fst ` set xs \<Longrightarrow> \<exists>us v ws. xs = us @ (p, v) # ws"
  by (force simp: in_set_conv_decomp)

lemma write_owned:
  assumes "dll_owned s xs" and "p \<in> fst ` set xs"
  shows "\<exists>s' ys. it_write s p v = Inr s' \<and> dll_owned s' ys \<and> map fst ys = map fst xs"
proof -
  from in_nodes[OF assms(2)] obtain us u ws where xs: "xs = us @ (p, u) # ws" by blast
  with assms(1) ll.wr_law[of s us p u ws v] obtain s' where
    s': "it_write s p v = Inr s'" "dll s' (us @ (p, v) # ws)" by (auto simp: dll_owned_def)
  then have "dom (fst s') = dom (fst s)" by (auto simp: it_write_def and_then_eq_Inr deref_def split: option.splits if_splits)
  with s' assms(1) xs show ?thesis
    by (intro exI[of _ s'] exI[of _ "us @ (p, v) # ws"]) (simp add: dll_owned_def)
qed

lemma visit_owned:
  assumes "dll_owned s xs" and "cleaner_at (map fst xs) (C_In k p)"
  shows "\<exists>s' k' q ys. visit old k s p = Inr (s', k', q) \<and> dll_owned s' ys
    \<and> cleaner_at (map fst ys) (C_Done k' q) \<and> mutex (snd s') = mutex (snd s)"
proof -
  from assms(2) obtain ps qs where pq: "map fst xs = ps @ p # qs" "k \<le> length ps" by auto
  then obtain us v ws where xs: "xs = us @ (p, v) # ws" "map fst us = ps" "map fst ws = qs"
    by (auto simp: map_eq_append_conv Cons_eq_map_conv)
  have d: "distinct (map fst xs)" "dll s (us @ (p, v) # ws)" using assms(1) xs(1) by (auto simp: dll_owned_def dll_def)
  note acc = ll.el_law[OF d(2)] ll.nx_law[OF d(2), unfolded first_ptr_first_of]
  have k: "k \<le> length us" using pq(2) xs(2) by auto
  show ?thesis
  proof (cases "old v")
    case True
    from delete_owned[OF assms(1), of p] xs(1) obtain s' where
      s': "list_delete s p = Inr s'" "dll_owned s' (filter (\<lambda>x. fst x \<noteq> p) xs)" by auto
    have "filter (\<lambda>x. fst x \<noteq> p) xs = us @ ws" using filter_out_node d(1) xs(1) by metis
    moreover have "cleaner_at (map fst (us @ ws)) (C_Done k (first_of (map fst ws)))"
      using cleaner_atI(2)[of k "map fst us" "map fst ws"] k by simp
    ultimately show ?thesis using s' True acc list_delete_mutex[OF s'(1)]
      by (intro exI[of _ s'] exI[of _ k] exI[of _ "first_of (map fst ws)"] exI[of _ "us @ ws"]) (auto simp: visit_def)
  next
    case False
    have "cleaner_at (map fst xs) (C_Done (Suc k) (first_of (map fst ws)))"
      using cleaner_atI(2)[of "Suc k" "map fst us @ [p]" "map fst ws"] k xs(1) by simp
    with False acc assms(1) show ?thesis
      by (intro exI[of _ s] exI[of _ "Suc k"] exI[of _ "first_of (map fst ws)"] exI[of _ xs]) (auto simp: visit_def)
  qed
qed

lemma copy_owned:
  assumes "dll_owned s xs" and "cleaner_at (map fst xs) (C_Copy (Suc k) q)"
  shows "\<exists>q'. copy_elem s q = Inr q' \<and> cleaner_at (map fst xs) (C_Copy k q')"
proof -
  from assms(2) obtain ps qs where pq: "map fst xs = ps @ qs" "q = first_of qs" "Suc k \<le> length qs" by auto
  then obtain us w ws where xs: "xs = us @ w # ws" "q = Some (fst w)" "k \<le> length ws"
    by (cases qs) (auto simp: map_eq_append_conv Cons_eq_map_conv)
  then have d: "dll s (us @ (fst w, snd w) # ws)" using assms(1) by (simp add: dll_owned_def)
  have "cleaner_at (map fst xs) (C_Copy k (first_of (map fst ws)))"
    using cleaner_atI(4)[of k "map fst ws" "map fst us @ [fst w]"] xs by simp
  with ll.el_law[OF d] ll.nx_law[OF d] xs(2) show ?thesis by (simp add: copy_elem_def first_ptr_first_of)
qed

lemma search_from_owned:
  "dll s (us @ ws) \<Longrightarrow> search_loop it_elem it_next P n s (first_ptr ws None) = Some r \<Longrightarrow>
   \<exists>it. r = Inr it \<and> (\<forall>p. it = Some p \<longrightarrow> p \<in> fst ` set ws)"
proof (induction n arbitrary: us ws)
  case (Suc n)
  show ?case
  proof (cases ws)
    case (Cons w rest)
    obtain p v where w: "w = (p, v)" by (cases w)
    have d: "dll s (us @ (p, v) # rest)" "dll s ((us @ [w]) @ rest)" using Suc.prems(1) Cons w by auto
    from Suc.prems(2) Suc.IH[OF d(2)] ll.el_law[OF d(1)] ll.nx_law[OF d(1)] Cons w show ?thesis
      by (cases "P v") auto
  qed (use Suc.prems(2) in auto)
qed simp

lemma search_owned:
  "dll_owned s xs \<Longrightarrow> search_loop it_elem it_next P n s (list_head s) = Some r \<Longrightarrow>
   \<exists>it. r = Inr it \<and> (\<forall>p. it = Some p \<longrightarrow> p \<in> fst ` set xs)"
  using search_from_owned[of s "[]" xs P n r] ll.hd_law[of s xs] by (simp add: dll_owned_def)

lemmas owned_ops = append_owned write_owned visit_owned copy_owned search_owned

lemma conf_of_Inr: "r = Inr x \<Longrightarrow> conf_of r f = Running (f x)"
  by (simp add: conf_of_def)

lemma inside_simps [simp]: "inside_h H_In" "inside_h H_Done" "\<not> inside_h H_Out"
  by (simp_all add: inside_h_def)

text \<open>What the lock gives a thread that has it.\<close>

lemma excludedD:
  "excluded c \<Longrightarrow> inside_h (hpc c i) \<Longrightarrow> \<not> inside_c (cpc c)"
  "excluded c \<Longrightarrow> inside_h (hpc c i) \<Longrightarrow> inside_h (hpc c j) \<Longrightarrow> i = j"
  "excluded c \<Longrightarrow> inside_c (cpc c) \<Longrightarrow> \<not> inside_h (hpc c i)"
  by (auto simp: excluded_def)

lemma conc_invI:
  "dll_owned (sh c) xs \<Longrightarrow> cleaner_at (map fst xs) (cpc c) \<Longrightarrow>
   mutex (snd (sh c)) = ((\<exists>i. inside_h (hpc c i)) \<or> inside_c (cpc c)) \<Longrightarrow> excluded c \<Longrightarrow> conc_inv c"
  by (auto simp: conc_inv_def)

text \<open>A packet thread inside finishes its work on the list and stays inside.\<close>

lemma conc_inv_worked:
  assumes "conc_inv c" and "hpc c i = H_In" and "dll_owned s xs" and "mutex (snd s) = mutex (snd (sh c))"
    and "cleaner_at (map fst xs) (cpc c)"
  shows "conc_inv (c\<lparr>sh := s, hpc := (hpc c)(i := H_Done)\<rparr>)"
proof (rule conc_invI)
  have inside: "inside_h (hpc c i)" using assms(2) by simp
  show "excluded (c\<lparr>sh := s, hpc := (hpc c)(i := H_Done)\<rparr>)"
  proof -
    have "excluded c" using assms(1) by (simp add: conc_inv_def)
    then have "\<not> inside_c (cpc c)" "inside_h (hpc c j) \<Longrightarrow> i = j" for j using excludedD(1,2) inside by blast+
    then show ?thesis by (auto simp: excluded_def)
  qed
  show "mutex (snd (sh (c\<lparr>sh := s, hpc := (hpc c)(i := H_Done)\<rparr>)))
    = ((\<exists>j. inside_h (hpc (c\<lparr>sh := s, hpc := (hpc c)(i := H_Done)\<rparr>) j))
       \<or> inside_c (cpc (c\<lparr>sh := s, hpc := (hpc c)(i := H_Done)\<rparr>)))"
  proof -
    have "mutex (snd s)" using assms(1,4) inside unfolding conc_inv_def by blast
    moreover have "\<exists>j. inside_h (((hpc c)(i := H_Done)) j)" by (rule exI[of _ i]) simp
    ultimately show ?thesis by simp
  qed
qed (use assms(3,5) in simp_all)

lemma handler_step_inv:
  assumes "conc_inv c" and "hpc c i = H_In"
  shows "fst (sh c) a = None \<Longrightarrow> \<exists>s. list_append (sh c) v (Some a) = Inr s
      \<and> conc_inv (c\<lparr>sh := s, hpc := (hpc c)(i := H_Done)\<rparr>)"
    and "search_loop it_elem it_next P n (sh c) (list_head (sh c)) = Some r \<Longrightarrow>
      \<exists>it. r = Inr it \<and> (\<forall>p. it = Some p \<longrightarrow> (\<exists>s. it_write (sh c) p v = Inr s
        \<and> conc_inv (c\<lparr>sh := s, hpc := (hpc c)(i := H_Done)\<rparr>)))"
proof -
  from assms(1) obtain xs where o: "dll_owned (sh c) xs" and at: "cleaner_at (map fst xs) (cpc c)"
    by (auto simp: conc_inv_def)
  show "\<exists>s. list_append (sh c) v (Some a) = Inr s \<and> conc_inv (c\<lparr>sh := s, hpc := (hpc c)(i := H_Done)\<rparr>)"
    if "fst (sh c) a = None"
  proof -
    have "a \<notin> fst ` set xs" using that o by (auto simp: dll_owned_def domIff)
    from append_owned[OF o this] obtain s where
      s: "list_append (sh c) v (Some a) = Inr s" "dll_owned s (xs @ [(a, v)])" by blast
    moreover have "cleaner_at (map fst (xs @ [(a, v)])) (cpc c)" using cleaner_at_append[OF at] by simp
    ultimately show ?thesis using conc_inv_worked[OF assms s(2) list_append_mutex[OF s(1)]] by blast
  qed
  show "\<exists>it. r = Inr it \<and> (\<forall>p. it = Some p \<longrightarrow> (\<exists>s. it_write (sh c) p v = Inr s
        \<and> conc_inv (c\<lparr>sh := s, hpc := (hpc c)(i := H_Done)\<rparr>)))"
    if "search_loop it_elem it_next P n (sh c) (list_head (sh c)) = Some r"
  proof -
    from search_owned[OF o that] obtain it where it: "r = Inr it" "\<forall>p. it = Some p \<longrightarrow> p \<in> fst ` set xs" by blast
    have "\<exists>s. it_write (sh c) p v = Inr s \<and> conc_inv (c\<lparr>sh := s, hpc := (hpc c)(i := H_Done)\<rparr>)" if "it = Some p" for p
    proof -
      from write_owned[OF o, of p v] it(2) that obtain s ys where
        s: "it_write (sh c) p v = Inr s" "dll_owned s ys" "map fst ys = map fst xs" by blast
      with at conc_inv_worked[OF assms s(2) it_write_mutex[OF s(1)]] show ?thesis by auto
    qed
    with it(1) show ?thesis by blast
  qed
qed

lemma cstep_inv:
  assumes "cstep (Running c) d" and inv: "conc_inv c"
  shows "\<exists>c'. d = Running c' \<and> conc_inv c'"
proof -
  from inv obtain xs where o: "dll_owned (sh c) xs" and at: "cleaner_at (map fst xs) (cpc c)"
    and m: "mutex (snd (sh c)) = ((\<exists>i. inside_h (hpc c i)) \<or> inside_c (cpc c))"
    and x: "excluded c" by (auto simp: conc_inv_def)
  have h: "first_of (map fst xs) = list_head (sh c)"
    using o ll.hd_law[of "sh c" xs] by (simp add: dll_owned_def first_ptr_first_of)
  show ?thesis
    using assms(1)
  proof (cases rule: cstepE)
    case (h_lock i s)
    note lk = sh_lock_owned[OF h_lock(3), of xs]
    then have "\<not> inside_h (hpc c j)" "\<not> inside_c (cpc c)" for j using m by auto
    with lk o at have "conc_inv (c\<lparr>sh := s, hpc := (hpc c)(i := H_In)\<rparr>)"
      by (intro conc_invI[of _ xs]) (auto simp: excluded_def)
    with h_lock(1) show ?thesis by blast
  next
    case (h_append i P n a v)
    with handler_step_inv(1)[OF inv h_append(2,4), of v] show ?thesis by (auto simp: conf_of_Inr)
  next
    case (h_update i P n p v)
    with handler_step_inv(2)[OF inv h_update(2,3), of v] show ?thesis by (auto simp: conf_of_Inr)
  next
    case (h_search_fault i P n e)
    with search_owned[OF o h_search_fault(3)] show ?thesis by auto
  next
    case (h_unlock i)
    then have inside: "inside_h (hpc c i)" by simp
    have "\<not> inside_c (cpc c)" "j \<noteq> i \<Longrightarrow> \<not> inside_h (hpc c j)" for j
      using excludedD(1,2)[OF x inside] by auto
    with sh_unlock_owned[of "sh c" xs] o at have "conc_inv (c\<lparr>sh := sh_unlock (sh c), hpc := (hpc c)(i := H_Out)\<rparr>)"
      by (intro conc_invI[of _ xs]) (auto simp: excluded_def)
    with h_unlock(1) show ?thesis by blast
  next
    case c_head
    have "cleaner_at (map fst xs) (C_It 0 (list_head (sh c)))"
      using cleaner_atI(1)[of 0 "[]" "map fst xs"] h by simp
    with c_head o m x show ?thesis by (auto intro!: conc_invI[of _ xs] simp: excluded_def simp del: cleaner_at.simps)
  next
    case (c_lock k p s)
    note lk = sh_lock_owned[OF c_lock(3), of xs]
    then have "\<not> inside_h (hpc c j)" for j using m by auto
    moreover from at c_lock(2) obtain us ws where "map fst xs = us @ p # ws" "k \<le> length us"
      by (auto simp: first_of_Some)
    ultimately have "conc_inv (c\<lparr>sh := s, cpc := C_In k p\<rparr>)" using lk o
      by (intro conc_invI[of _ xs]) (auto simp: excluded_def)
    with c_lock(1) show ?thesis by blast
  next
    case (c_visit k p old)
    with at have "cleaner_at (map fst xs) (C_In k p)" by simp
    from visit_owned[OF o this, of old] obtain s' k' q ys where
      s': "visit old k (sh c) p = Inr (s', k', q)" "dll_owned s' ys" "cleaner_at (map fst ys) (C_Done k' q)"
      "mutex (snd s') = mutex (snd (sh c))" by blast
    moreover have "excluded (c\<lparr>sh := s', cpc := C_Done k' q\<rparr>)"
      using x c_visit(2) by (auto simp: excluded_def)
    ultimately have "conc_inv (c\<lparr>sh := s', cpc := C_Done k' q\<rparr>)"
      using m c_visit(2) by (intro conc_invI[of _ ys]) auto
    with c_visit(1) s'(1) show ?thesis by (simp add: conf_of_Inr)
  next
    case (c_unlock k q)
    then have "\<not> inside_h (hpc c i)" for i using excludedD(3)[OF x] by simp
    with sh_unlock_owned[of "sh c" xs] o at c_unlock(2) have "conc_inv (c\<lparr>sh := sh_unlock (sh c), cpc := C_It k q\<rparr>)"
      by (intro conc_invI[of _ xs]) (auto simp: excluded_def)
    with c_unlock(1) show ?thesis by blast
  next
    case (c_end k)
    with o m x show ?thesis by (auto intro!: conc_invI[of _ xs] simp: excluded_def)
  next
    case (c_start_copy k)
    have "cleaner_at (map fst xs) (C_Copy k (list_head (sh c)))"
    proof -
      have "k \<le> length (map fst xs)" using at c_start_copy(2) by (auto simp: first_of_None)
      from cleaner_atI(4)[OF this, of "[]"] h show ?thesis by simp
    qed
    with c_start_copy o m x show ?thesis by (auto intro!: conc_invI[of _ xs] simp: excluded_def simp del: cleaner_at.simps)
  next
    case (c_copy k q)
    with at have "cleaner_at (map fst xs) (C_Copy (Suc k) q)" by simp
    from copy_owned[OF o this] obtain q' where
      "copy_elem (sh c) q = Inr q'" "cleaner_at (map fst xs) (C_Copy k q')" by blast
    with c_copy o m x show ?thesis
      by (auto simp: conf_of_Inr excluded_def simp del: cleaner_at.simps intro!: conc_invI[of _ xs])
  next
    case (c_end_copy q)
    with o m x show ?thesis by (auto intro!: conc_invI[of _ xs] simp: excluded_def)
  qed
qed

lemma reachable_inv: "cstep\<^sup>*\<^sup>* conc_init d \<Longrightarrow> \<exists>c. d = Running c \<and> conc_inv c"
proof (induction rule: rtranclp_induct)
  case base
  have "conc_inv conc_start"
    using dll_owned_init by (auto simp: conc_inv_def conc_start_def excluded_def list_init_def intro!: exI[of _ "[]"])
  then show ?case by (simp add: conc_init_def)
next
  case (step d e)
  then show ?case using cstep_inv by blast
qed

section \<open>Progress\<close>

lemma fresh_addr: "dll_owned s xs \<Longrightarrow> \<exists>a. fst s a = None"
proof -
  assume "dll_owned s xs"
  then have "finite (dom (fst s))" by (simp add: dll_owned_def)
  then show ?thesis by (metis domIff ex_new_if_finite infinite_UNIV_nat)
qed

text \<open>A thread inside leaves within two steps of its own.\<close>

lemma handler_leaves:
  assumes "conc_inv c" and "inside_h (hpc c i)"
  shows "\<exists>c'. cstep\<^sup>*\<^sup>* (Running c) (Running c') \<and> conc_inv c' \<and> \<not> mutex (snd (sh c'))"
proof -
  have unlocks: "\<exists>c'. cstep (Running b) (Running c') \<and> conc_inv c' \<and> \<not> mutex (snd (sh c'))"
    if "conc_inv b" "hpc b i = H_Done" for b :: "'a shared"
  proof -
    let ?c = "b\<lparr>sh := sh_unlock (sh b), hpc := (hpc b)(i := H_Out)\<rparr>"
    have st: "cstep (Running b) (Running ?c)" using that(2) by (rule h_unlock)
    with cstep_inv[OF st that(1)] sh_unlock_owned[of "sh b"] show ?thesis by auto
  qed
  show ?thesis
  proof (cases "hpc c i")
    case H_In
    from assms(1) obtain xs where o: "dll_owned (sh c) xs" by (auto simp: conc_inv_def)
    then have "search_loop it_elem it_next (\<lambda>_. False) (Suc (length xs)) (sh c) (list_head (sh c)) = Some (Inr None)"
      using ll.search_list[of "sh c" xs "Suc (length xs)" "\<lambda>_. False"] by (simp add: dll_owned_def find_None_iff)
    note absent = h_append[OF H_In this]
    from o obtain a where a: "fst (sh c) a = None" using fresh_addr by blast
    from handler_step_inv(1)[OF assms(1) H_In a] obtain s where
      s: "list_append (sh c) undefined (Some a) = Inr s" "conc_inv (c\<lparr>sh := s, hpc := (hpc c)(i := H_Done)\<rparr>)" by blast
    have "cstep (Running c) (Running (c\<lparr>sh := s, hpc := (hpc c)(i := H_Done)\<rparr>))"
      using absent[OF a, of undefined] s(1) by (simp add: conf_of_Inr)
    moreover from unlocks[OF s(2)] obtain c' where
      "cstep (Running (c\<lparr>sh := s, hpc := (hpc c)(i := H_Done)\<rparr>)) (Running c')" "conc_inv c'" "\<not> mutex (snd (sh c'))"
      by auto
    ultimately show ?thesis by (blast intro: converse_rtranclp_into_rtranclp)
  next
    case H_Done
    with unlocks[OF assms(1)] show ?thesis by (blast intro: r_into_rtranclp)
  qed (use assms(2) in simp)
qed

lemma cleaner_leaves:
  assumes "conc_inv c" and "inside_c (cpc c)"
  shows "\<exists>c'. cstep\<^sup>*\<^sup>* (Running c) (Running c') \<and> conc_inv c' \<and> \<not> mutex (snd (sh c'))"
proof -
  have unlocks: "\<exists>c'. cstep (Running b) (Running c') \<and> conc_inv c' \<and> \<not> mutex (snd (sh c'))"
    if "conc_inv b" "cpc b = C_Done k q" for b :: "'a shared" and k q
  proof -
    let ?c = "b\<lparr>sh := sh_unlock (sh b), cpc := C_It k q\<rparr>"
    have st: "cstep (Running b) (Running ?c)" using that(2) by (rule c_unlock)
    with cstep_inv[OF st that(1)] sh_unlock_owned[of "sh b"] show ?thesis by auto
  qed
  show ?thesis
  proof (cases "cpc c")
    case (C_In k p)
    have st: "cstep (Running c) (conf_of (visit (\<lambda>_. False) k (sh c) p) (\<lambda>(s, k', q). c\<lparr>sh := s, cpc := C_Done k' q\<rparr>))"
      using C_In by (rule c_visit)
    from cstep_inv[OF this assms(1)] obtain b where
      b: "conf_of (visit (\<lambda>_. False) k (sh c) p) (\<lambda>(s, k', q). c\<lparr>sh := s, cpc := C_Done k' q\<rparr>) = Running b"
      "conc_inv b" by blast
    then obtain k' q where "cpc b = C_Done k' q" by (auto simp: conf_of_def split: sum.splits)
    from unlocks[OF b(2) this] obtain c' where
      "cstep (Running b) (Running c')" "conc_inv c'" "\<not> mutex (snd (sh c'))" by blast
    with st[unfolded b(1)] show ?thesis by (blast intro: converse_rtranclp_into_rtranclp)
  next
    case (C_Done k q)
    with unlocks[OF assms(1)] show ?thesis by (blast intro: r_into_rtranclp)
  qed (use assms(2) in simp_all)
qed

lemma lock_released:
  assumes "conc_inv c"
  shows "\<exists>c'. cstep\<^sup>*\<^sup>* (Running c) (Running c') \<and> conc_inv c' \<and> \<not> mutex (snd (sh c'))"
proof (cases "mutex (snd (sh c))")
  case True
  with assms have "(\<exists>i. inside_h (hpc c i)) \<or> inside_c (cpc c)" by (simp add: conc_inv_def)
  with handler_leaves[OF assms] cleaner_leaves[OF assms] show ?thesis by blast
qed (use assms in blast)

section \<open>Properties\<close>

text \<open>
  C19. The threads are safe on their list: with any number of packet threads, in every state that any
  interleaving of the steps reaches, no access touched freed or missing memory, the list is well
  formed and holds exactly the live nodes, at most one thread is inside the lock, and the cleanup
  thread, which keeps its iterator and copies the entries without the lock, is at a live node or at
  the end, with no more elements left to copy than nodes from there on.
\<close>

theorem list_threads_safe:
  assumes "cstep\<^sup>*\<^sup>* conc_init d"
  shows "\<exists>c xs. d = Running c \<and> dll_owned (sh c) xs \<and> cleaner_at (map fst xs) (cpc c) \<and> excluded c
    \<and> mutex (snd (sh c)) = ((\<exists>i. inside_h (hpc c i)) \<or> inside_c (cpc c))"
  using reachable_inv[OF assms] unfolding conc_inv_def by blast

lemma example_steps: "cstep\<^sup>*\<^sup>* conc_init
    (Running (conc_start\<lparr>sh := (Map.empty, list_init\<lparr>mutex := True\<rparr>), hpc := (\<lambda>i. H_Out)(1 := H_In), cpc := C_It 0 None\<rparr>))"
proof -
  let ?c1 = "conc_start\<lparr>cpc := C_It 0 None\<rparr>"
  have "cstep (Running conc_start) (Running ?c1)"
    using c_head[of conc_start] by (simp add: conc_start_def list_head_def list_init_def)
  moreover have "cstep (Running ?c1)
      (Running (conc_start\<lparr>sh := (Map.empty, list_init\<lparr>mutex := True\<rparr>), hpc := (\<lambda>i. H_Out)(1 := H_In), cpc := C_It 0 None\<rparr>))"
    using h_lock[of ?c1 1 "(Map.empty, list_init\<lparr>mutex := True\<rparr>)"]
    by (simp add: conc_start_def sh_lock_def list_lock_def list_init_def)
  ultimately show ?thesis unfolding conc_init_def
    by (blast intro: converse_rtranclp_into_rtranclp)
qed

theorem list_threads_safe_witness:
  "\<exists>xs :: (addr \<times> nat) list. dll_owned (Map.empty, list_init\<lparr>mutex := True\<rparr>) xs"
  using list_threads_safe[OF example_steps] by auto

text \<open>
  C33. No thread keeps the others out: from every reachable state, whoever holds the lock, a state can
  be reached in which any given packet thread is inside.
\<close>

theorem list_threads_progress:
  assumes "cstep\<^sup>*\<^sup>* conc_init d"
  shows "\<exists>c'. cstep\<^sup>*\<^sup>* d (Running c') \<and> hpc c' i = H_In"
proof -
  from reachable_inv[OF assms] obtain c where c: "d = Running c" "conc_inv c" by blast
  from lock_released[OF c(2)] obtain b where
    b: "cstep\<^sup>*\<^sup>* (Running c) (Running b)" "conc_inv b" "\<not> mutex (snd (sh b))" by blast
  then have "hpc b i = H_Out" by (auto simp: conc_inv_def inside_h_def)
  moreover have "sh_lock (sh b) = Some (fst (sh b), (snd (sh b))\<lparr>mutex := True\<rparr>)"
    using b(3) by (simp add: sh_lock_def list_lock_def)
  ultimately have "cstep (Running b) (Running (b\<lparr>sh := (fst (sh b), (snd (sh b))\<lparr>mutex := True\<rparr>), hpc := (hpc b)(i := H_In)\<rparr>))"
    by (rule h_lock)
  with b(1) c(1) show ?thesis
    by (intro exI[of _ "b\<lparr>sh := (fst (sh b), (snd (sh b))\<lparr>mutex := True\<rparr>), hpc := (hpc b)(i := H_In)\<rparr>"]) simp
qed

theorem list_threads_progress_witness:
  "\<exists>c'. cstep\<^sup>*\<^sup>* (Running (conc_start\<lparr>sh := (Map.empty, list_init\<lparr>mutex := True\<rparr>),
      hpc := (\<lambda>i. H_Out)(1 := H_In), cpc := C_It 0 None\<rparr> :: nat shared)) (Running c') \<and> hpc c' 0 = H_In"
  by (rule list_threads_progress[OF example_steps])

end
