(* ===== verification/Iprp_Icd_Race.thy ===== *)
theory Iprp_Icd_Race
  imports Iprp_Concurrency
begin

text \<open>
  The sender interfaces of the control daemon (src/icd/control.c and src/icd/senderifaces.c) between two
  of its threads.  The cleanup thread works as in the other daemons, but the control thread searches
  the list without the lock: \<open>in_sender_ifaces\<close>, called by \<open>handle_ack\<close>, follows the pointers
  with nothing held, and only the append takes the lock.
\<close>

section \<open>The control thread\<close>

text \<open>Where it is: between messages; searching, with its iterator; after a search without a result;
  inside the lock before and after the append.\<close>

datatype control_pc = K_Out | K_At "addr option" | K_Missing | K_In | K_Added

datatype 'a rconf = RRun "'a shared" control_pc | RCrashed fault

text \<open>
  One step of the unlocked search at an iterator: the entry is read; a match is refreshed (the write
  of \<open>last_seen\<close>) and ends the search, otherwise the iterator moves.
\<close>

definition unlocked_look :: "('a \<Rightarrow> bool) \<Rightarrow> ('a \<Rightarrow> 'a) \<Rightarrow> 'a lstate \<Rightarrow> addr \<Rightarrow> ('a lstate \<times> control_pc) result" where
  "unlocked_look P touch s p =
     and_then (it_elem s p) (\<lambda>v.
     if P v then and_then (it_write s p (touch v)) (\<lambda>s'. Inr (s', K_Out))
     else and_then (it_next s p) (\<lambda>q. Inr (s, K_At q)))"

definition rconf_of :: "'a shared \<Rightarrow> ('a lstate \<times> control_pc) result \<Rightarrow> 'a rconf" where
  "rconf_of c r = (case r of Inl e \<Rightarrow> RCrashed e | Inr (s, k) \<Rightarrow> RRun (c\<lparr>sh := s\<rparr>) k)"

text \<open>The steps; those of the cleanup thread are the steps of \<open>cstep\<close> in which no packet thread
  moves.\<close>

inductive rstep :: "'a rconf \<Rightarrow> 'a rconf \<Rightarrow> bool" where
  k_head: "rstep (RRun c K_Out) (RRun c (K_At (list_head (sh c))))"
| k_look: "rstep (RRun c (K_At (Some p))) (rconf_of c (unlocked_look P touch (sh c) p))"
| k_missing: "rstep (RRun c (K_At None)) (RRun c K_Missing)"
| k_lock: "sh_lock (sh c) = Some s \<Longrightarrow> rstep (RRun c K_Missing) (RRun (c\<lparr>sh := s\<rparr>) K_In)"
| k_append: "fst (sh c) a = None \<Longrightarrow>
    rstep (RRun c K_In) (rconf_of c (and_then (list_append (sh c) v (Some a)) (\<lambda>s. Inr (s, K_Added))))"
| k_unlock: "rstep (RRun c K_Added) (RRun (c\<lparr>sh := sh_unlock (sh c)\<rparr>) K_Out)"
| s_step: "cstep (Running c) (Running c') \<Longrightarrow> hpc c' = hpc c \<Longrightarrow> rstep (RRun c k) (RRun c' k)"
| s_fault: "cstep (Running c) (Crashed e) \<Longrightarrow> rstep (RRun c k) (RCrashed e)"

inductive_cases rstepE [consumes 1, case_names k_head k_look k_missing k_lock k_append k_unlock s_step s_fault]:
  "rstep (RRun c k) d"
inductive_simps rstep_crashed: "rstep (RCrashed e) d"

section \<open>A run that reads a freed entry\<close>

text \<open>The list with one entry, and without it, with the mutex free or held.\<close>

definition one_entry :: "'a \<Rightarrow> bool \<Rightarrow> 'a lstate" where
  "one_entry v held = ([0 \<mapsto> \<lparr>elem = v, prev_elem = None, next_elem = None\<rparr>],
     \<lparr>head = Some 0, tail = Some 0, size_of = 1, mutex = held\<rparr>)"

definition no_entry :: "bool \<Rightarrow> 'a lstate" where
  "no_entry held = (Map.empty, \<lparr>head = None, tail = None, size_of = 0, mutex = held\<rparr>)"

lemma entry_facts:
  "sh_lock (one_entry v False) = Some (one_entry v True)" "sh_unlock (one_entry v True) = one_entry v False"
  "sh_lock (no_entry False) = Some (no_entry True)" "sh_unlock (no_entry True) = no_entry False"
  "list_append (no_entry h) v (Some 0) = Inr (one_entry v h)" "list_delete (one_entry v h) 0 = Inr (no_entry h)"
  "list_head (one_entry v h) = Some 0" "list_head (no_entry h) = None"
  "it_elem (one_entry v h) 0 = Inr v" "it_next (one_entry v h) 0 = Inr None"
  "it_elem (no_entry h) 0 = Inl UseAfterFree" "fst (no_entry h) = Map.empty"
  by (simp_all add: one_entry_def no_entry_def sh_lock_def sh_unlock_def list_lock_def list_unlock_def
      list_delete_def list_head_def it_elem_def it_next_def deref_def set_prev_def set_next_def)

text \<open>The state of the system on these lists.\<close>

definition at_state :: "'a lstate \<Rightarrow> cleaner_pc \<Rightarrow> control_pc \<Rightarrow> 'a rconf" where
  "at_state s u k = RRun \<lparr>sh = s, hpc = (\<lambda>i. H_Out), cpc = u\<rparr> k"

lemma at_start: "RRun conc_start K_Out = at_state (no_entry False) C_Sleep K_Out"
  by (simp add: at_state_def conc_start_def no_entry_def list_init_def)

lemma control_moves:
  "rstep (at_state s u K_Out) (at_state s u (K_At (list_head s)))"
  "rstep (at_state s u (K_At None)) (at_state s u K_Missing)"
  "sh_lock s = Some s' \<Longrightarrow> rstep (at_state s u K_Missing) (at_state s' u K_In)"
  "fst s a = None \<Longrightarrow> list_append s v (Some a) = Inr s' \<Longrightarrow> rstep (at_state s u K_In) (at_state s' u K_Added)"
  "rstep (at_state s u K_Added) (at_state (sh_unlock s) u K_Out)"
  "it_elem s p = Inl e \<Longrightarrow> rstep (at_state s u (K_At (Some p))) (RCrashed e)"
  using k_head[of "\<lparr>sh = s, hpc = (\<lambda>i. H_Out), cpc = u\<rparr>"] k_missing[of "\<lparr>sh = s, hpc = (\<lambda>i. H_Out), cpc = u\<rparr>"]
    k_lock[of "\<lparr>sh = s, hpc = (\<lambda>i. H_Out), cpc = u\<rparr>" s'] k_append[of "\<lparr>sh = s, hpc = (\<lambda>i. H_Out), cpc = u\<rparr>" a v]
    k_unlock[of "\<lparr>sh = s, hpc = (\<lambda>i. H_Out), cpc = u\<rparr>"]
    k_look[of "\<lparr>sh = s, hpc = (\<lambda>i. H_Out), cpc = u\<rparr>" p]
  by (simp_all add: at_state_def rconf_of_def unlocked_look_def)

lemma cleaner_moves:
  "rstep (at_state s C_Sleep k) (at_state s (C_It 0 (list_head s)) k)"
  "sh_lock s = Some s' \<Longrightarrow> rstep (at_state s (C_It n (Some p)) k) (at_state s' (C_In n p) k)"
  "visit old n s p = Inr (s', n', q) \<Longrightarrow> rstep (at_state s (C_In n p) k) (at_state s' (C_Done n' q) k)"
  "rstep (at_state s (C_Done n q) k) (at_state (sh_unlock s) (C_It n q) k)"
proof -
  let ?c = "\<lambda>u. \<lparr>sh = s, hpc = (\<lambda>i. H_Out), cpc = u\<rparr>"
  show "rstep (at_state s C_Sleep k) (at_state s (C_It 0 (list_head s)) k)"
    using c_head[of "?c C_Sleep"] by (auto simp: at_state_def intro: s_step)
  show "rstep (at_state s (C_It n (Some p)) k) (at_state s' (C_In n p) k)" if "sh_lock s = Some s'"
    using c_lock[of "?c (C_It n (Some p))" n p s'] that by (auto simp: at_state_def intro: s_step)
  show "rstep (at_state s (C_In n p) k) (at_state s' (C_Done n' q) k)" if "visit old n s p = Inr (s', n', q)"
    using c_visit[of "?c (C_In n p)" n p old] that by (auto simp: at_state_def conf_of_def intro: s_step)
  show "rstep (at_state s (C_Done n q) k) (at_state (sh_unlock s) (C_It n q) k)"
    using c_unlock[of "?c (C_Done n q)" n q] by (auto simp: at_state_def intro: s_step)
qed

lemma control_adds_entry: "rstep\<^sup>*\<^sup>* (at_state (no_entry False) u K_Out) (at_state (one_entry v False) u K_Out)"
proof -
  have "rstep (at_state (no_entry False) u K_Out) (at_state (no_entry False) u (K_At None))"
    "rstep (at_state (no_entry False) u (K_At None)) (at_state (no_entry False) u K_Missing)"
    "rstep (at_state (no_entry False) u K_Missing) (at_state (no_entry True) u K_In)"
    "rstep (at_state (no_entry True) u K_In) (at_state (one_entry v True) u K_Added)"
    "rstep (at_state (one_entry v True) u K_Added) (at_state (one_entry v False) u K_Out)"
    using control_moves(1,2,5)[of "no_entry False" u] control_moves(3)[of "no_entry False" "no_entry True" u]
      control_moves(4)[of "no_entry True" 0 v "one_entry v True" u] control_moves(5)[of "one_entry v True" u]
    by (simp_all add: entry_facts)
  then show ?thesis by (blast intro: converse_rtranclp_into_rtranclp)
qed

lemma cleaner_frees_entry:
  "rstep\<^sup>*\<^sup>* (at_state (one_entry v False) C_Sleep k) (at_state (no_entry False) (C_It 0 None) k)"
proof -
  have v: "visit (\<lambda>_. True) 0 (one_entry v True) 0 = Inr (no_entry True, 0, None)"
    by (simp add: visit_def entry_facts)
  have "rstep (at_state (one_entry v False) C_Sleep k) (at_state (one_entry v False) (C_It 0 (Some 0)) k)"
    "rstep (at_state (one_entry v False) (C_It 0 (Some 0)) k) (at_state (one_entry v True) (C_In 0 0) k)"
    "rstep (at_state (one_entry v True) (C_In 0 0) k) (at_state (no_entry True) (C_Done 0 None) k)"
    "rstep (at_state (no_entry True) (C_Done 0 None) k) (at_state (no_entry False) (C_It 0 None) k)"
    using cleaner_moves(1)[of "one_entry v False" k] cleaner_moves(2)[of "one_entry v False" "one_entry v True" 0 0 k]
      cleaner_moves(3)[OF v, of k] cleaner_moves(4)[of "no_entry True" 0 None k]
    by (simp_all add: entry_facts)
  then show ?thesis by (blast intro: converse_rtranclp_into_rtranclp)
qed

section \<open>The only fault\<close>

text \<open>
  The lock still protects the structure of the list: seen as a packet thread of \<open>cstep\<close>, the control
  thread keeps the invariant of the list, and a fault can only be its search reading a freed node.
\<close>

fun as_hpc :: "control_pc \<Rightarrow> nat \<Rightarrow> handler_pc" where
  "as_hpc K_In = (\<lambda>i. H_Out)(0 := H_In)"
| "as_hpc K_Added = (\<lambda>i. H_Out)(0 := H_Done)"
| "as_hpc _ = (\<lambda>i. H_Out)"

definition race_inv :: "'a shared \<Rightarrow> control_pc \<Rightarrow> bool" where
  "race_inv c k \<longleftrightarrow> conc_inv (c\<lparr>hpc := as_hpc k\<rparr>) \<and> hpc c = (\<lambda>i. H_Out)"

lemma hpc_last:
  "c\<lparr>hpc := h, cpc := u\<rparr> = c\<lparr>cpc := u, hpc := h\<rparr>" "c\<lparr>hpc := h, sh := s\<rparr> = c\<lparr>sh := s, hpc := h\<rparr>"
  by simp_all

text \<open>A step of the cleanup thread does not depend on where the packet threads are.\<close>

lemma cleaner_step_any:
  assumes "cstep (Running c) d" and "hpc c = (\<lambda>i. H_Out)"
  shows "d = Running c' \<Longrightarrow> hpc c' = hpc c \<Longrightarrow> cstep (Running (c\<lparr>hpc := h\<rparr>)) (Running (c'\<lparr>hpc := h\<rparr>))"
    and "d = Crashed e \<Longrightarrow> cstep (Running (c\<lparr>hpc := h\<rparr>)) (Crashed e)"
proof -
  have conf: "conf_of r (\<lambda>x. (f x)\<lparr>hpc := h\<rparr>) = (case conf_of r f of Running b \<Rightarrow> Running (b\<lparr>hpc := h\<rparr>) | Crashed e \<Rightarrow> Crashed e)"
    for r :: "'c result" and f :: "'c \<Rightarrow> 'b shared" by (cases r) (simp_all add: conf_of_def)
  have step: "cstep (Running (c\<lparr>hpc := h\<rparr>)) (case d of Running b \<Rightarrow> Running (b\<lparr>hpc := h\<rparr>) | Crashed e \<Rightarrow> Crashed e)"
    if "\<forall>b. d = Running b \<longrightarrow> hpc b = hpc c"
    using assms(1)
  proof (cases rule: cstepE)
    case (h_lock i s)
    with that have "(hpc c)(i := H_In) = hpc c" by simp
    then have "((hpc c)(i := H_In)) i = hpc c i" by simp
    with assms(2) show ?thesis by simp
  next
    case (c_visit k p old)
    have eq: "(\<lambda>(s, k', q). (c\<lparr>hpc := h\<rparr>)\<lparr>sh := s, cpc := C_Done k' q\<rparr>)
        = (\<lambda>x. (case x of (s, k', q) \<Rightarrow> c\<lparr>sh := s, cpc := C_Done k' q\<rparr>)\<lparr>hpc := h\<rparr>)"
      by (rule ext) (auto split: prod.splits)
    have "cstep (Running (c\<lparr>hpc := h\<rparr>)) (conf_of (visit old k (sh (c\<lparr>hpc := h\<rparr>)) p)
        (\<lambda>(s, k', q). (c\<lparr>hpc := h\<rparr>)\<lparr>sh := s, cpc := C_Done k' q\<rparr>))"
      by (rule cstep.c_visit) (simp add: c_visit(2))
    then have "cstep (Running (c\<lparr>hpc := h\<rparr>)) (conf_of (visit old k (sh c) p)
        (\<lambda>x. (case x of (s, k', q) \<Rightarrow> c\<lparr>sh := s, cpc := C_Done k' q\<rparr>)\<lparr>hpc := h\<rparr>))"
      unfolding eq by simp
    then show ?thesis unfolding conf c_visit(1) .
  next
    case (c_copy k q)
    have eq: "(\<lambda>q'. (c\<lparr>hpc := h\<rparr>)\<lparr>cpc := C_Copy k q'\<rparr>) = (\<lambda>q'. (c\<lparr>cpc := C_Copy k q'\<rparr>)\<lparr>hpc := h\<rparr>)"
      by (rule ext) simp
    have "cstep (Running (c\<lparr>hpc := h\<rparr>)) (conf_of (copy_elem (sh (c\<lparr>hpc := h\<rparr>)) q) (\<lambda>q'. (c\<lparr>hpc := h\<rparr>)\<lparr>cpc := C_Copy k q'\<rparr>))"
      by (rule cstep.c_copy) (simp add: c_copy(2))
    then have "cstep (Running (c\<lparr>hpc := h\<rparr>)) (conf_of (copy_elem (sh c) q) (\<lambda>q'. (c\<lparr>cpc := C_Copy k q'\<rparr>)\<lparr>hpc := h\<rparr>))"
      unfolding eq by simp
    then show ?thesis unfolding conf c_copy(1) .
  next
    case c_head
    with cstep.c_head[of "c\<lparr>hpc := h\<rparr>"] show ?thesis by (simp add: hpc_last)
  next
    case (c_lock k p s)
    with cstep.c_lock[of "c\<lparr>hpc := h\<rparr>" k p s] show ?thesis by (simp add: hpc_last)
  next
    case (c_unlock k q)
    with cstep.c_unlock[of "c\<lparr>hpc := h\<rparr>" k q] show ?thesis by (simp add: hpc_last)
  next
    case (c_end k)
    with cstep.c_end[of "c\<lparr>hpc := h\<rparr>" k] show ?thesis by (simp add: hpc_last)
  next
    case (c_start_copy k)
    with cstep.c_start_copy[of "c\<lparr>hpc := h\<rparr>" k] show ?thesis by (simp add: hpc_last)
  next
    case (c_end_copy q)
    with cstep.c_end_copy[of "c\<lparr>hpc := h\<rparr>" q] show ?thesis by (simp add: hpc_last)
  qed (use assms(2) in simp_all)
  show "d = Running c' \<Longrightarrow> hpc c' = hpc c \<Longrightarrow> cstep (Running (c\<lparr>hpc := h\<rparr>)) (Running (c'\<lparr>hpc := h\<rparr>))"
    using step by simp
  show "d = Crashed e \<Longrightarrow> cstep (Running (c\<lparr>hpc := h\<rparr>)) (Crashed e)"
    using step by simp
qed

lemma look_inv:
  assumes "race_inv c k" and "\<not> inside_h (as_hpc k 0)"
  shows "unlocked_look P touch (sh c) p = Inl UseAfterFree
    \<or> (\<exists>s k'. unlocked_look P touch (sh c) p = Inr (s, k') \<and> race_inv (c\<lparr>sh := s\<rparr>) k')"
proof -
  have free: "as_hpc k = (\<lambda>i. H_Out)" using assms(2) by (cases k) auto
  from assms(1) free have inv: "conc_inv (c\<lparr>hpc := \<lambda>i. H_Out\<rparr>)" and out: "hpc c = (\<lambda>i. H_Out)" by (simp_all add: race_inv_def)
  from inv obtain xs where o: "dll_owned (sh c) xs" and at: "cleaner_at (map fst xs) (cpc c)" by (auto simp: conc_inv_def)
  show ?thesis
  proof (cases "p \<in> fst ` set xs")
    case True
    from in_nodes[OF True] obtain us v ws where "xs = us @ (p, v) # ws" by blast
    then have d: "dll (sh c) (us @ (p, v) # ws)" using o by (simp add: dll_owned_def)
    from write_owned[OF o True, of "touch v"] obtain s ys where
      s: "it_write (sh c) p (touch v) = Inr s" "dll_owned s ys" "map fst ys = map fst xs" by blast
    have "conc_inv (c\<lparr>sh := s, hpc := \<lambda>i. H_Out\<rparr>)"
      using inv s at it_write_mutex[OF s(1)] by (auto simp: conc_inv_def excluded_def intro!: exI[of _ ys])
    with ll.el_law[OF d] ll.nx_law[OF d] s(1) inv out show ?thesis
      by (auto simp: unlocked_look_def race_inv_def simp del: split_paired_Ex)
  next
    case False
    then have "fst (sh c) p = None" using o by (auto simp: dll_owned_def domIff)
    then show ?thesis by (simp add: unlocked_look_def it_elem_def deref_def)
  qed
qed

lemma rstep_inv:
  assumes "rstep (RRun c k) d" and inv: "race_inv c k"
  shows "d = RCrashed UseAfterFree \<or> (\<exists>c' k'. d = RRun c' k' \<and> race_inv c' k')"
proof -
  from inv have ci: "conc_inv (c\<lparr>hpc := as_hpc k\<rparr>)" and out: "hpc c = (\<lambda>i. H_Out)" by (simp_all add: race_inv_def)
  show ?thesis
    using assms(1)
  proof (cases rule: rstepE)
    case k_head
    with inv show ?thesis by (auto simp: race_inv_def)
  next
    case (k_look p P touch)
    with look_inv[OF inv, of P touch p] show ?thesis by (auto simp: rconf_of_def)
  next
    case k_missing
    with inv show ?thesis by (auto simp: race_inv_def)
  next
    case (k_lock s)
    have "cstep (Running (c\<lparr>hpc := as_hpc k\<rparr>)) (Running (c\<lparr>sh := s, hpc := as_hpc K_In\<rparr>))"
      using h_lock[of "c\<lparr>hpc := as_hpc k\<rparr>" 0 s] k_lock by simp
    from cstep_inv[OF this ci] out have "race_inv (c\<lparr>sh := s\<rparr>) K_In" by (simp add: race_inv_def)
    with k_lock show ?thesis by blast
  next
    case (k_append a v)
    then have "hpc (c\<lparr>hpc := as_hpc k\<rparr>) 0 = H_In" "fst (sh (c\<lparr>hpc := as_hpc k\<rparr>)) a = None" by simp_all
    from handler_step_inv(1)[OF ci this, of v] k_append out show ?thesis
      by (auto simp: race_inv_def rconf_of_def)
  next
    case k_unlock
    have "cstep (Running (c\<lparr>hpc := as_hpc k\<rparr>)) (Running (c\<lparr>sh := sh_unlock (sh c), hpc := as_hpc K_Out\<rparr>))"
      using h_unlock[of "c\<lparr>hpc := as_hpc k\<rparr>" 0] k_unlock by (simp add: fun_upd_idem)
    from cstep_inv[OF this ci] out have "race_inv (c\<lparr>sh := sh_unlock (sh c)\<rparr>) K_Out" by (simp add: race_inv_def)
    with k_unlock show ?thesis by blast
  next
    case (s_step c')
    from cstep_inv[OF cleaner_step_any(1)[OF s_step(2) out refl s_step(3)] ci] s_step(1,3) out show ?thesis
      by (auto simp: race_inv_def)
  next
    case (s_fault e)
    from cstep_inv[OF cleaner_step_any(2)[OF s_fault(2) out refl] ci] show ?thesis by simp
  qed
qed

lemma race_reachable:
  "rstep\<^sup>*\<^sup>* (RRun conc_start K_Out) d \<Longrightarrow> d = RCrashed UseAfterFree \<or> (\<exists>c k. d = RRun c k \<and> race_inv c k)"
proof (induction rule: rtranclp_induct)
  case base
  have "cstep\<^sup>*\<^sup>* conc_init conc_init" by simp
  from reachable_inv[OF this] have "conc_inv conc_start" by (simp add: conc_init_def)
  then show ?case by (simp add: race_inv_def conc_start_def)
next
  case (step d e)
  then show ?case using rstep_inv by (auto simp: rstep_crashed)
qed

section \<open>Property\<close>



end
