(* ===== verification/Iprp_Files.thy ===== *)
theory Iprp_Files
  imports Iprp_Packet
begin

text \<open>
  The files the daemons exchange (src/lib/files.c): the structures of inc/peerbase.h,
  inc/activesenders.h and inc/senderifaces.h as they lie in memory and on disk, the file system
  as a map from paths to contents, and the store and load functions.  The layouts interpret
  \<open>mem_type\<close>; the round trip of a file that holds a count and an array of entries is proved
  once, in \<open>mem_type\<close>, for both kinds of entries.
\<close>

section \<open>The file system\<close>

text \<open>\<open>room\<close> is how many bytes the device takes for a file; the code does not look at what
  \<open>fwrite\<close> and \<open>fread\<close> return, so a full device or a short file goes unnoticed.\<close>

record fs =
  files :: "string \<rightharpoonup> bytes"
  can_write :: "string \<Rightarrow> bool"
  room :: "string \<Rightarrow> nat"

definition fopen_w :: "string \<Rightarrow> fs \<Rightarrow> fs option" where
  "fopen_w path f = (if can_write f path then Some (f\<lparr>files := (files f)(path \<mapsto> [])\<rparr>) else None)"

definition fwrite :: "string \<Rightarrow> bytes \<Rightarrow> fs \<Rightarrow> fs" where
  "fwrite path dat f =
     f\<lparr>files := (files f)(path \<mapsto> take (room f path) (the (files f path) @ dat))\<rparr>"

text \<open>\<open>fread\<close> of \<open>n\<close> bytes: those read, and the rest of the file.\<close>

definition fread :: "nat \<Rightarrow> bytes \<Rightarrow> bytes \<times> bytes" where
  "fread n content = (take n content, drop n content)"

section \<open>Entries\<close>

text \<open>\<open>time_t\<close> is a signed 64-bit integer, \<open>int\<close> a signed 32-bit one.\<close>

definition time_ok :: "time_t \<Rightarrow> bool" where
  "time_ok t \<longleftrightarrow> - 9223372036854775808 \<le> t \<and> t < 9223372036854775808"

definition put_time :: "nat \<Rightarrow> time_t \<Rightarrow> bytes \<Rightarrow> bytes" where
  "put_time off t bs = put64 off (word_of_int t) bs"

definition get_time :: "nat \<Rightarrow> bytes \<Rightarrow> time_t" where
  "get_time off bs = sint (get64 off bs)"

lemma sint_time: "time_ok t \<Longrightarrow> sint (word_of_int t :: u64) = t"
  unfolding time_ok_def sint_sbintrunc' by (simp add: signed_take_bit_int_eq_self)

interpretation mtime: mem_type 8 put_time get_time time_ok
  by unfold_locales
    (auto simp: put_time_def get_time_def m64.put_length m64.get_put m64.put_frame sint_time
      dest: m64.get_local)

text \<open>
  \<open>iprp_active_sender_t\<close>; the flag exists in the multicast variant only, and is
  \<open>False\<close> in the other.
\<close>

record active_sender =
  as_src_addr :: in_addr
  as_dest_addr :: in_addr
  as_src_port :: u16
  as_dest_port :: u16
  as_last_seen :: time_t
  iprp_enabled :: bool

definition as_ok :: "variant \<Rightarrow> active_sender \<Rightarrow> bool" where
  "as_ok v a \<longleftrightarrow> time_ok (as_last_seen a) \<and> (v = Unicast \<longrightarrow> \<not> iprp_enabled a)"

fun as_size :: "variant \<Rightarrow> nat" where
  "as_size Unicast = 24"
| "as_size Multicast = 32"

definition put_as :: "variant \<Rightarrow> nat \<Rightarrow> active_sender \<Rightarrow> bytes \<Rightarrow> bytes" where
  "put_as v off a bs =
     (let b = put_time (off + 16) (as_last_seen a)
        (put16 (off + 10) (as_dest_port a)
        (put16 (off + 8) (as_src_port a)
        (put32 (off + 4) (as_dest_addr a)
        (put32 off (as_src_addr a) bs))))
      in case v of Unicast \<Rightarrow> b | Multicast \<Rightarrow> put8 (off + 24) (if iprp_enabled a then 1 else 0) b)"

definition get_as :: "variant \<Rightarrow> nat \<Rightarrow> bytes \<Rightarrow> active_sender" where
  "get_as v off bs = \<lparr>as_src_addr = get32 off bs, as_dest_addr = get32 (off + 4) bs,
     as_src_port = get16 (off + 8) bs, as_dest_port = get16 (off + 10) bs,
     as_last_seen = get_time (off + 16) bs,
     iprp_enabled = (case v of Unicast \<Rightarrow> False | Multicast \<Rightarrow> get8 (off + 24) bs \<noteq> 0)\<rparr>"

interpretation mas: mem_type "as_size v" "put_as v" "get_as v" "as_ok v" for v
  by unfold_locales
    (cases v; auto simp: put_as_def get_as_def as_ok_def put_time_def get_time_def scalar_defs
      mem_simps sint_time)+

text \<open>\<open>iprp_peerbase_t\<close>; the destination of each IND exists in the unicast variant only.\<close>

record peerbase =
  pb_link :: link
  pb_host :: host
  pb_inds :: u16
  pb_dest_addr :: "in_addr list"

definition pb_ok :: "variant \<Rightarrow> peerbase \<Rightarrow> bool" where
  "pb_ok v b \<longleftrightarrow> link_ok (pb_link b) \<and> host_ok (pb_host b)
     \<and> length (pb_dest_addr b) = (case v of Unicast \<Rightarrow> IPRP_MAX_INDS | Multicast \<Rightarrow> 0)"

fun pb_size :: "variant \<Rightarrow> nat" where
  "pb_size Unicast = 240"
| "pb_size Multicast = 176"

definition put_pb :: "variant \<Rightarrow> nat \<Rightarrow> peerbase \<Rightarrow> bytes \<Rightarrow> bytes" where
  "put_pb v off p bs =
     (let b = put16 (off + 168) (pb_inds p) (put_host (off + 32) (pb_host p) (put_link off (pb_link p) bs))
      in case v of Unicast \<Rightarrow> put_array put32 4 (off + 172) (pb_dest_addr p) b | Multicast \<Rightarrow> b)"

definition get_pb :: "variant \<Rightarrow> nat \<Rightarrow> bytes \<Rightarrow> peerbase" where
  "get_pb v off bs = \<lparr>pb_link = get_link off bs, pb_host = get_host (off + 32) bs,
     pb_inds = get16 (off + 168) bs,
     pb_dest_addr = (case v of Unicast \<Rightarrow> get_array get32 4 16 (off + 172) bs | Multicast \<Rightarrow> [])\<rparr>"

lemma get_local_at:
  "mem_type w put get ok \<Longrightarrow> off + n \<le> length bs \<Longrightarrow> o' + w \<le> n \<Longrightarrow>
   get (off + o') bs = get o' (get_bytes off n bs)"
  using mem_type.get_local[of w put get ok "off + o'" bs]
    mem_type.get_local[of w put get ok o' "get_bytes off n bs"]
  by (auto simp: mem_simps)

lemma mem_types:
  "mem_type 2 put16 get16 (\<lambda>_. True)" "mem_type 4 put32 get32 (\<lambda>_. True)"
  "mem_type 8 put_time get_time time_ok" "mem_type 8 put_iface get_iface (\<lambda>_. True)"
  "mem_type 136 put_host get_host host_ok" "mem_type 32 put_link get_link link_ok"
  by unfold_locales

interpretation mpb: mem_type "pb_size v" "put_pb v" "get_pb v" "pb_ok v" for v
proof unfold_locales
  fix p off and bs :: bytes
  assume ok: "pb_ok v p" and b: "off + pb_size v \<le> length bs"
  let ?b1 = "put_link off (pb_link p) bs"
  let ?b2 = "put_host (off + 32) (pb_host p) ?b1"
  let ?b3 = "put16 (off + 168) (pb_inds p) ?b2"
  have b': "off + 176 \<le> length bs" using b by (cases v) auto
  from ok have o: "link_ok (pb_link p)" "host_ok (pb_host p)" by (auto simp: pb_ok_def)
  have l1: "length ?b1 = length bs" using b' o by (simp add: mlink.put_length)
  have l2: "length ?b2 = length bs" using b' o l1 by (simp add: mhost.put_length)
  have l3: "length ?b3 = length bs" using b' l2 by (simp add: m16.put_length)
  show "length (put_pb v off p bs) = length bs"
    using ok b l3 by (cases v) (auto simp: put_pb_def pb_ok_def iprp_consts m32.array_length)
  have rd: "get_bytes o' n (put_pb v off p bs) = get_bytes o' n ?b3" if "o' + n \<le> off + 172" for o' n
    using that ok b l3 by (cases v) (auto simp: put_pb_def pb_ok_def iprp_consts m32.array_frame)
  have lp: "length (put_pb v off p bs) = length bs"
    using ok b l3 by (cases v) (auto simp: put_pb_def pb_ok_def iprp_consts m32.array_length)
  have "get_link off (put_pb v off p bs) = get_link off ?b3"
    using b' lp l3 rd by (intro mlink.get_cong) auto
  also have "\<dots> = get_link off ?b1" using b' o l1 l2 l3
    by (intro mlink.get_cong) (auto simp: m16.put_frame mhost.put_frame)
  finally have 1: "get_link off (put_pb v off p bs) = pb_link p" using b' o by (simp add: mlink.get_put)
  have "get_host (off + 32) (put_pb v off p bs) = get_host (off + 32) ?b3"
    using b' lp l3 rd by (intro mhost.get_cong) auto
  also have "\<dots> = get_host (off + 32) ?b2" using b' l2 l3
    by (intro mhost.get_cong) (auto simp: m16.put_frame)
  finally have 2: "get_host (off + 32) (put_pb v off p bs) = pb_host p"
    using b' o l1 by (simp add: mhost.get_put)
  have "get16 (off + 168) (put_pb v off p bs) = get16 (off + 168) ?b3"
    using b' lp l3 rd by (intro m16.get_cong) auto
  then have 3: "get16 (off + 168) (put_pb v off p bs) = pb_inds p"
    using b' l2 by (simp add: m16.get_put)
  have 4: "v = Unicast \<Longrightarrow> get_array get32 4 16 (off + 172) (put_pb v off p bs) = pb_dest_addr p"
    using ok b l3 m32.array_get_put[of "pb_dest_addr p" "off + 172" ?b3]
    by (simp add: put_pb_def pb_ok_def iprp_consts)
  show "get_pb v off (put_pb v off p bs) = p"
    using 1 2 3 4 ok by (cases v) (auto simp: get_pb_def pb_ok_def)
next
  fix p off o' n and bs :: bytes
  assume ok: "pb_ok v p" and b: "off + pb_size v \<le> length bs"
    and far: "o' + n \<le> off \<or> off + pb_size v \<le> o'"
  have b': "off + 176 \<le> length bs" using b by (cases v) auto
  have far': "o' + n \<le> off \<or> off + 176 \<le> o'" using far by (cases v) auto
  from ok have o: "link_ok (pb_link p)" "host_ok (pb_host p)" by (auto simp: pb_ok_def)
  let ?b3 = "put16 (off + 168) (pb_inds p) (put_host (off + 32) (pb_host p) (put_link off (pb_link p) bs))"
  have l3: "length ?b3 = length bs"
    using b' o by (simp add: mlink.put_length mhost.put_length m16.put_length)
  have "get_bytes o' n ?b3 = get_bytes o' n bs"
    using b' o far'
    by (auto simp: mlink.put_length mhost.put_length m16.put_frame mhost.put_frame mlink.put_frame)
  then show "get_bytes o' n (put_pb v off p bs) = get_bytes o' n bs"
    using ok b far l3 by (cases v) (auto simp: put_pb_def pb_ok_def iprp_consts m32.array_frame)
next
  fix off :: nat and bs :: bytes
  assume b: "off + pb_size v \<le> length bs"
  have 1: "get_link off bs = get_link 0 (get_bytes off (pb_size v) bs)"
    using get_local_at[OF mem_types(6), of off "pb_size v" bs 0] b by (cases v) auto
  have 2: "get_host (off + 32) bs = get_host 32 (get_bytes off (pb_size v) bs)"
    using get_local_at[OF mem_types(5), of off "pb_size v" bs 32] b by (cases v) auto
  have 3: "get16 (off + 168) bs = get16 168 (get_bytes off (pb_size v) bs)"
    using get_local_at[OF mem_types(1), of off "pb_size v" bs 168] b by (cases v) auto
  have 4: "v = Unicast \<Longrightarrow> get_array get32 4 16 (off + 172) bs
      = get_array get32 4 16 172 (get_bytes off (pb_size v) bs)"
    using b by (intro m32.array_local) (auto simp: mem_simps)
  show "get_pb v off bs = get_pb v 0 (get_bytes off (pb_size v) bs)"
    using 1 2 3 4 by (cases v) (simp_all add: get_pb_def)
qed

text \<open>\<open>iprp_sender_ifaces_t\<close> (multicast only).\<close>

record sender_ifaces =
  si_sender_addr :: in_addr
  si_group_addr :: in_addr
  si_nb_ifaces :: u32
  si_ifaces :: "iface list"
  si_host_addr :: "in_addr list"
  si_last_seen :: time_t

definition si_ok :: "sender_ifaces \<Rightarrow> bool" where
  "si_ok s \<longleftrightarrow> length (si_ifaces s) = IPRP_MAX_IFACE \<and> length (si_host_addr s) = IPRP_MAX_IFACE
     \<and> time_ok (si_last_seen s)"

definition si_size :: nat where "si_size = 216"

definition put_si :: "nat \<Rightarrow> sender_ifaces \<Rightarrow> bytes \<Rightarrow> bytes" where
  "put_si off s bs =
     put_time (off + 208) (si_last_seen s)
     (put_array put32 4 (off + 140) (si_host_addr s)
     (put_array put_iface 8 (off + 12) (si_ifaces s)
     (put32 (off + 8) (si_nb_ifaces s)
     (put32 (off + 4) (si_group_addr s)
     (put32 off (si_sender_addr s) bs)))))"

definition get_si :: "nat \<Rightarrow> bytes \<Rightarrow> sender_ifaces" where
  "get_si off bs = \<lparr>si_sender_addr = get32 off bs, si_group_addr = get32 (off + 4) bs,
     si_nb_ifaces = get32 (off + 8) bs, si_ifaces = get_array get_iface 8 16 (off + 12) bs,
     si_host_addr = get_array get32 4 16 (off + 140) bs, si_last_seen = get_time (off + 208) bs\<rparr>"

interpretation msi: mem_type si_size put_si get_si si_ok
proof unfold_locales
  fix s off and bs :: bytes
  assume ok: "si_ok s" and b0: "off + si_size \<le> length bs"
  from b0 have b: "off + 216 \<le> length bs" by (simp add: si_size_def)
  let ?b1 = "put32 off (si_sender_addr s) bs"
  let ?b2 = "put32 (off + 4) (si_group_addr s) ?b1"
  let ?b3 = "put32 (off + 8) (si_nb_ifaces s) ?b2"
  let ?b4 = "put_array put_iface 8 (off + 12) (si_ifaces s) ?b3"
  let ?b5 = "put_array put32 4 (off + 140) (si_host_addr s) ?b4"
  let ?r = "put_si off s bs"
  from ok have o: "length (si_ifaces s) = 16" "length (si_host_addr s) = 16" "time_ok (si_last_seen s)"
    by (auto simp: si_ok_def iprp_consts)
  have l3: "length ?b3 = length bs" using b by (simp add: m32.put_length)
  have l4: "length ?b4 = length bs" using b o l3 by (simp add: mif.array_length)
  have l5: "length ?b5 = length bs" using b o l4 by (simp add: m32.array_length)
  show lr: "length ?r = length bs" using b o l5 by (simp add: put_si_def mtime.put_length)
  have r5: "get_bytes p n ?r = get_bytes p n ?b5" if "p + n \<le> off + 208" for p n
    using that b o l5 by (simp add: put_si_def mtime.put_frame)
  have r4: "get_bytes p n ?r = get_bytes p n ?b4" if "p + n \<le> off + 140" for p n
    using that b o l4 r5 by (simp add: m32.array_frame)
  have r3: "get_bytes p n ?r = get_bytes p n ?b3" if "p + n \<le> off + 12" for p n
    using that b o l3 r4 by (simp add: mif.array_frame)
  have "get32 off ?r = si_sender_addr s" "get32 (off + 4) ?r = si_group_addr s"
    "get32 (off + 8) ?r = si_nb_ifaces s"
    using r3 b unfolding get32_def by (simp_all add: put32_def mem_simps)
  moreover have "get_array get_iface 8 16 (off + 12) ?r = get_array get_iface 8 16 (off + 12) ?b4"
    using b l4 lr r4 by (intro mif.array_local) auto
  then have "get_array get_iface 8 16 (off + 12) ?r = si_ifaces s"
    using mif.array_get_put[of "si_ifaces s" "off + 12" ?b3] b o l3 by simp
  moreover have "get_array get32 4 16 (off + 140) ?r = get_array get32 4 16 (off + 140) ?b5"
    using b l5 lr r5 by (intro m32.array_local) auto
  then have "get_array get32 4 16 (off + 140) ?r = si_host_addr s"
    using m32.array_get_put[of "si_host_addr s" "off + 140" ?b4] b o l4 by simp
  moreover have "get_time (off + 208) ?r = si_last_seen s"
    using b o l5 by (simp add: put_si_def mtime.get_put)
  ultimately show "get_si off ?r = s" by (simp add: get_si_def)
next
  fix s off o' n and bs :: bytes
  assume ok: "si_ok s" and b0: "off + si_size \<le> length bs" and far: "o' + n \<le> off \<or> off + si_size \<le> o'"
  then have b: "off + 216 \<le> length bs" "o' + n \<le> off \<or> off + 216 \<le> o'"
    by (simp_all add: si_size_def)
  from ok have o: "length (si_ifaces s) = 16" "length (si_host_addr s) = 16" "time_ok (si_last_seen s)"
    by (auto simp: si_ok_def iprp_consts)
  show "get_bytes o' n (put_si off s bs) = get_bytes o' n bs"
    using b o by (auto simp: put_si_def mtime.put_frame m32.array_frame mif.array_frame m32.put_frame
        m32.array_length mif.array_length m32.put_length)
next
  fix off :: nat and bs :: bytes
  assume b0: "off + si_size \<le> length bs"
  then have b: "off + 216 \<le> length bs" by (simp add: si_size_def)
  have "get32 off bs = get32 0 (get_bytes off 216 bs)" "get32 (off + 4) bs = get32 4 (get_bytes off 216 bs)"
    "get32 (off + 8) bs = get32 8 (get_bytes off 216 bs)"
    using get_local_at[OF mem_types(2), of off 216 bs 0] get_local_at[OF mem_types(2), of off 216 bs 4]
      get_local_at[OF mem_types(2), of off 216 bs 8] b by auto
  moreover have "get_time (off + 208) bs = get_time 208 (get_bytes off 216 bs)"
    using get_local_at[OF mem_types(3), of off 216 bs 208] b by auto
  moreover have "get_array get_iface 8 16 (off + 12) bs = get_array get_iface 8 16 12 (get_bytes off 216 bs)"
    using b by (intro mif.array_local) (auto simp: mem_simps)
  moreover have "get_array get32 4 16 (off + 140) bs = get_array get32 4 16 140 (get_bytes off 216 bs)"
    using b by (intro m32.array_local) (auto simp: mem_simps)
  ultimately show "get_si off bs = get_si 0 (get_bytes off si_size bs)"
    by (simp add: get_si_def si_size_def)
qed

section \<open>The peer base file\<close>

text \<open>
  A NULL path or structure is \<open>None\<close>.  The structure is given by its bytes; a load
  overwrites as many of them as the file holds, and leaves the rest as they were.
\<close>

definition peerbase_store ::
  "variant \<Rightarrow> string option \<Rightarrow> bytes option \<Rightarrow> fs \<Rightarrow> (nat \<times> fs) result" where
  "peerbase_store v path base f = (case (path, base) of
     (Some p, Some b) \<Rightarrow>
       (case fopen_w p f of
          None \<Rightarrow> Inl (Err ''Unable to write to peerbase file'')
        | Some f1 \<Rightarrow> Inr (0, fwrite p (take (pb_size v) b) f1))
   | _ \<Rightarrow> Inr (IPRP_ERR_NULLPTR, f))"

definition peerbase_load ::
  "variant \<Rightarrow> string option \<Rightarrow> bytes option \<Rightarrow> fs \<Rightarrow> (nat \<times> bytes option) result" where
  "peerbase_load v path base f = (case (path, base) of
     (Some p, Some b) \<Rightarrow>
       (case files f p of
          None \<Rightarrow> Inl (Err ''Unable to read peerbase file'')
        | Some content \<Rightarrow> Inr (0, Some (put_bytes 0 (fst (fread (pb_size v) content)) b)))
   | _ \<Rightarrow> Inr (IPRP_ERR_NULLPTR, base))"

section \<open>Files with a count and an array\<close>

text \<open>
  The active senders and the sender interfaces are written by the same code for their two entry
  sizes \<open>w\<close>: the count, a 32-bit signed integer, then the bytes of the entries.
\<close>

definition store_counted :: "nat \<Rightarrow> string \<Rightarrow> string \<Rightarrow> u32 \<Rightarrow> bytes \<Rightarrow> fs \<Rightarrow> fs result" where
  "store_counted w msg path count entries f =
     (case fopen_w path f of
        None \<Rightarrow> Inl (Err msg)
      | Some f1 \<Rightarrow>
          let f2 = fwrite path (le32 count) f1
          in if 0 < sint count
             then if unat count * w \<le> length entries
                  then Inr (fwrite path (take (unat count * w) entries) f2)
                  else Inl OutOfBounds
             else Inr f2)"

text \<open>
  \<open>calloc(n, size)\<close> of zeroed memory, of which \<open>mem\<close> bytes are available; a negative
  \<open>int\<close> converts to a huge \<open>size_t\<close>.
\<close>

definition size_of_int :: "u32 \<Rightarrow> nat" where
  "size_of_int n = unat (signed n :: u64)"

definition calloc :: "nat \<Rightarrow> nat \<Rightarrow> nat \<Rightarrow> bytes option" where
  "calloc mem n sz = (if n * sz \<le> mem then Some (replicate (n * sz) 0) else None)"

text \<open>
  The load.  \<open>count0\<close> is the memory of the caller's counter, which a file of less than four
  bytes leaves partly as it was; the test \<open>if (count > 0)\<close> compares the pointer, which is not
  NULL, so the array is allocated and read whatever the count.  \<open>fread\<close> into a NULL array
  faults unless the file is at its end.
\<close>

definition load_counted ::
  "nat \<Rightarrow> string \<Rightarrow> nat \<Rightarrow> string \<Rightarrow> bytes option \<Rightarrow> bool \<Rightarrow> fs \<Rightarrow> (nat \<times> u32 \<times> bytes option) result" where
  "load_counted w msg mem path count0 senders f =
     (case count0 of
        None \<Rightarrow> Inr (IPRP_ERR_NULLPTR, 0, None)
      | Some c0 \<Rightarrow>
        if \<not> senders then Inr (IPRP_ERR_NULLPTR, of_le32 c0, None)
        else (case files f path of
          None \<Rightarrow> Inl (Err msg)
        | Some content \<Rightarrow>
            let (cb, rest) = fread 4 content;
                count = of_le32 (put_bytes 0 cb c0);
                n = size_of_int count
            in case calloc mem n w of
                 None \<Rightarrow> if rest = [] then Inr (0, count, None) else Inl NullDeref
               | Some a \<Rightarrow> Inr (0, count, Some (put_bytes 0 (fst (fread (n * w) rest)) a))))"

definition activesenders_store :: "variant \<Rightarrow> string \<Rightarrow> u32 \<Rightarrow> bytes \<Rightarrow> fs \<Rightarrow> fs result" where
  "activesenders_store v = store_counted (as_size v) ''Unable to open active senders file''"

definition activesenders_load ::
  "variant \<Rightarrow> nat \<Rightarrow> string \<Rightarrow> bytes option \<Rightarrow> bool \<Rightarrow> fs \<Rightarrow> (nat \<times> u32 \<times> bytes option) result" where
  "activesenders_load v = load_counted (as_size v) ''Unable to open active senders file''"

definition senderifaces_store :: "string \<Rightarrow> u32 \<Rightarrow> bytes \<Rightarrow> fs \<Rightarrow> fs result" where
  "senderifaces_store = store_counted si_size ''Unable to open sender interfaces file''"

definition senderifaces_load ::
  "nat \<Rightarrow> string \<Rightarrow> bytes option \<Rightarrow> bool \<Rightarrow> fs \<Rightarrow> (nat \<times> u32 \<times> bytes option) result" where
  "senderifaces_load = load_counted si_size ''Unable to open sender interfaces file''"

section \<open>Round trips\<close>

lemma sint_of_nat_u32: "n < 2147483648 \<Longrightarrow> sint (of_nat n :: u32) = int n"
  using sint_sbintrunc'[of "int n", where ?'a = 32] by (simp add: signed_take_bit_int_eq_self)

lemma size_of_int_nat: "n < 2147483648 \<Longrightarrow> size_of_int (of_nat n) = n"
proof -
  assume n: "n < 2147483648"
  have "(signed (of_nat n :: u32) :: u64) = of_nat n"
    using signed_of_int[of "int n"] n
    by (metis sint_of_nat_u32 of_int_of_nat_eq of_int_sint)
  then show ?thesis using n by (simp add: size_of_int_def unat_of_nat)
qed

lemma files_fwrite:
  "files (fwrite p d f) = (files f)(p \<mapsto> take (room f p) (the (files f p) @ d))"
  "room (fwrite p d f) = room f"
  by (simp_all add: fwrite_def)

lemma fopen_w_Some: "can_write f p \<Longrightarrow> fopen_w p f = Some (f\<lparr>files := (files f)(p \<mapsto> [])\<rparr>)"
  by (simp add: fopen_w_def)

lemma store_counted_file:
  assumes "can_write f p" and "n < 2147483648" and "n * w \<le> length e" and "4 + n * w \<le> room f p"
  shows "\<exists>f'. store_counted w msg p (of_nat n) e f = Inr f'
    \<and> files f' = (files f)(p \<mapsto> le32 (of_nat n) @ take (n * w) e)"
proof -
  have u: "unat (of_nat n :: u32) = n" using assms(2) by (simp add: unat_of_nat_u32)
  have s: "0 < sint (of_nat n :: u32) \<longleftrightarrow> 0 < n" using assms(2) by (simp add: sint_of_nat_u32)
  show ?thesis
    using assms(1,3,4) by (simp add: store_counted_def fopen_w_Some Let_def u s files_fwrite)
qed

lemma load_counted_file:
  assumes "files f p = Some (le32 (of_nat n) @ e)" and "n < 2147483648" and "n * w \<le> mem"
    and "length e = n * w" and "length c0 = 4"
  shows "load_counted w msg mem p (Some c0) True f = Inr (0, of_nat n, Some e)"
  using assms
  by (simp add: load_counted_def fread_def Let_def put_bytes_def calloc_def size_of_int_nat)

context mem_type
begin

lemma counted_round_trip:
  assumes "list_all ok xs" and "length xs < 2147483648" and "length xs * w \<le> mem"
    and "can_write f p" and "4 + length xs * w \<le> room f p" and "length c0 = 4"
  shows "\<exists>f' a. store_counted w msg p (of_nat (length xs)) (put_array put w 0 xs (replicate (length xs * w) 0)) f
      = Inr f'
    \<and> load_counted w msg' mem p (Some c0) True f' = Inr (0, of_nat (length xs), Some a)
    \<and> get_array get w (length xs) 0 a = xs"
proof -
  let ?e = "put_array put w 0 xs (replicate (length xs * w) 0)"
  have l: "length ?e = length xs * w" using assms(1) by (simp add: array_length)
  have g: "get_array get w (length xs) 0 ?e = xs" using assms(1) by (simp add: array_get_put)
  from store_counted_file[OF assms(4,2) _ assms(5), of ?e msg] l obtain f' where
    f: "store_counted w msg p (of_nat (length xs)) ?e f = Inr f'"
    "files f' = (files f)(p \<mapsto> le32 (of_nat (length xs)) @ ?e)" by auto
  from f(2) have "files f' p = Some (le32 (of_nat (length xs)) @ ?e)" by simp
  from load_counted_file[OF this assms(2,3) l assms(6)] f(1) g show ?thesis by blast
qed

end

lemma peerbase_store_load:
  assumes "pb_ok v base" and "length m = pb_size v" and "length m' = pb_size v"
    and "can_write f p" and "pb_size v \<le> room f p"
  shows "\<exists>f' b. peerbase_store v (Some p) (Some (put_pb v 0 base m)) f = Inr (0, f')
    \<and> peerbase_load v (Some p) (Some m') f' = Inr (0, Some b) \<and> get_pb v 0 b = base"
proof -
  let ?b = "put_pb v 0 base m"
  have l: "length ?b = pb_size v" using assms(1,2) by (simp add: mpb.put_length)
  have g: "get_pb v 0 ?b = base" using assms(1,2) by (simp add: mpb.get_put)
  have c: "put_bytes 0 (take (pb_size v) ?b) m' = ?b" using l assms(3) by (simp add: put_bytes_def)
  show ?thesis
    using assms(4,5) l g c
    by (simp add: peerbase_store_def peerbase_load_def fopen_w_Some files_fwrite fread_def)
qed

section \<open>Properties\<close>

text \<open>
  What the ICD writes to a peer base file is what the ISD reads back: for every well-formed
  peer base, whatever the structures' memory held before on either side and whatever the file
  held, the load after the store succeeds and yields the same peer base.
\<close>

theorem peerbase_file_round_trip:
  assumes "pb_ok v base" and "length m = pb_size v" and "length m' = pb_size v"
    and "can_write f p" and "pb_size v \<le> room f p"
  shows "\<exists>f' b. peerbase_store v (Some p) (Some (put_pb v 0 base m)) f = Inr (0, f')
    \<and> peerbase_load v (Some p) (Some m') f' = Inr (0, Some b) \<and> get_pb v 0 b = base"
  using assms by (rule peerbase_store_load)

definition example_host :: host where
  "example_host = \<lparr>nb_ifaces = 2, ifaces =
     [\<lparr>ind = 0, if_addr = 0x0A00000A\<rparr>, \<lparr>ind = 3, if_addr = 0x0A00000B\<rparr>] @ replicate 14 \<lparr>ind = 0, if_addr = 0\<rparr>\<rparr>"

definition example_peerbase :: peerbase where
  "example_peerbase = \<lparr>pb_link = \<lparr>src_addr = 1, dest_addr = 2, src_port = 3, dest_port = 4,
       snsid = replicate 20 7\<rparr>, pb_host = example_host, pb_inds = 9,
     pb_dest_addr = replicate 16 5\<rparr>"

definition example_fs :: fs where
  "example_fs = \<lparr>files = Map.empty, can_write = (\<lambda>_. True), room = (\<lambda>_. 100000)\<rparr>"

lemma example_ok: "host_ok example_host" "pb_ok Unicast example_peerbase"
  by (auto simp: example_host_def example_peerbase_def host_ok_def pb_ok_def link_ok_def iprp_consts)

theorem peerbase_file_round_trip_witness:
  "\<exists>f' b. peerbase_store Unicast (Some ''base/0'')
        (Some (put_pb Unicast 0 example_peerbase (replicate 240 0))) example_fs = Inr (0, f')
    \<and> peerbase_load Unicast (Some ''base/0'') (Some (replicate 240 1)) f' = Inr (0, Some b)
    \<and> get_pb Unicast 0 b = example_peerbase"
  by (rule peerbase_file_round_trip) (simp_all add: example_ok example_fs_def)

text \<open>
  The store truncates the file before it writes it, and the load neither locks the file nor
  looks at what \<open>fread\<close> returned: a load that runs between the two succeeds on a file of
  any length and returns whatever the structure's memory held, here past the bytes written so far.
\<close>

theorem peerbase_load_torn:
  assumes "files f p = Some (take k stored)" and "length stored = pb_size v"
    and "length m = pb_size v" and "k \<le> pb_size v"
  shows "peerbase_load v (Some p) (Some m) f = Inr (0, Some (take k stored @ drop k m))"
  using assms by (simp add: peerbase_load_def fread_def put_bytes_def min_def)

theorem peerbase_load_torn_witness:
  "peerbase_load Unicast (Some ''base/0'') (Some (replicate 240 1))
      (example_fs\<lparr>files := [''base/0'' \<mapsto> take 0 (replicate 240 0)]\<rparr>)
    = Inr (0, Some (take 0 (replicate 240 0) @ drop 0 (replicate 240 1)))"
  by (rule peerbase_load_torn) simp_all

text \<open>
  What the IMD writes to the active senders file is what the ICD reads back: any list of
  well-formed entries, written from the array and read into a fresh one, is the same list.
\<close>

theorem activesenders_file_round_trip:
  assumes "list_all (as_ok v) xs" and "length xs < 2147483648" and "length xs * as_size v \<le> mem"
    and "can_write f p" and "4 + length xs * as_size v \<le> room f p" and "length c0 = 4"
  shows "\<exists>f' a. activesenders_store v p (of_nat (length xs))
        (put_array (put_as v) (as_size v) 0 xs (replicate (length xs * as_size v) 0)) f = Inr f'
    \<and> activesenders_load v mem p (Some c0) True f' = Inr (0, of_nat (length xs), Some a)
    \<and> get_array (get_as v) (as_size v) (length xs) 0 a = xs"
  unfolding activesenders_store_def activesenders_load_def
  using assms by (rule mas.counted_round_trip)

definition example_as :: active_sender where
  "example_as = \<lparr>as_src_addr = 1, as_dest_addr = 2, as_src_port = 3, as_dest_port = 4,
     as_last_seen = 1000, iprp_enabled = True\<rparr>"

lemma example_as_ok: "as_ok Multicast example_as"
  by (simp add: example_as_def as_ok_def time_ok_def)

theorem activesenders_file_round_trip_witness:
  "\<exists>f' a. activesenders_store Multicast ''as'' (of_nat (length [example_as]))
        (put_array (put_as Multicast) (as_size Multicast) 0 [example_as]
          (replicate (length [example_as] * as_size Multicast) 0)) example_fs = Inr f'
    \<and> activesenders_load Multicast 1000 ''as'' (Some [9, 9, 9, 9]) True f'
        = Inr (0, of_nat (length [example_as]), Some a)
    \<and> get_array (get_as Multicast) (as_size Multicast) (length [example_as]) 0 a = [example_as]"
  by (rule activesenders_file_round_trip) (simp_all add: example_as_ok example_fs_def)

text \<open>
  What the ICD writes to the sender interfaces file is what the IRD reads back.
\<close>

theorem senderifaces_file_round_trip:
  assumes "list_all si_ok xs" and "length xs < 2147483648" and "length xs * si_size \<le> mem"
    and "can_write f p" and "4 + length xs * si_size \<le> room f p" and "length c0 = 4"
  shows "\<exists>f' a. senderifaces_store p (of_nat (length xs))
        (put_array put_si si_size 0 xs (replicate (length xs * si_size) 0)) f = Inr f'
    \<and> senderifaces_load mem p (Some c0) True f' = Inr (0, of_nat (length xs), Some a)
    \<and> get_array get_si si_size (length xs) 0 a = xs"
  unfolding senderifaces_store_def senderifaces_load_def
  using assms by (rule msi.counted_round_trip)

definition example_si :: sender_ifaces where
  "example_si = \<lparr>si_sender_addr = 0x0A000001, si_group_addr = 0xE0000001, si_nb_ifaces = 1,
     si_ifaces = replicate 16 \<lparr>ind = 1, if_addr = 0x0A000002\<rparr>, si_host_addr = replicate 16 0x0A000003,
     si_last_seen = 1000\<rparr>"

lemma example_si_ok: "si_ok example_si"
  by (simp add: example_si_def si_ok_def time_ok_def iprp_consts)

theorem senderifaces_file_round_trip_witness:
  "\<exists>f' a. senderifaces_store ''si'' (of_nat (length [example_si, example_si]))
        (put_array put_si si_size 0 [example_si, example_si]
          (replicate (length [example_si, example_si] * si_size) 0)) example_fs = Inr f'
    \<and> senderifaces_load 1000 ''si'' (Some [0, 0, 0, 0]) True f'
        = Inr (0, of_nat (length [example_si, example_si]), Some a)
    \<and> get_array get_si si_size (length [example_si, example_si]) 0 a = [example_si, example_si]"
  by (rule senderifaces_file_round_trip) (simp_all add: example_si_ok example_fs_def si_size_def)

end
