(* ===== verification/Iprp_Isd.thy ===== *)
theory Iprp_Isd
  imports Iprp_Files
begin

text \<open>
  The sending daemon (src/isd): the sockets and the start (isd.c), the cache of the peer base
  file (peerbase.c), and the packet handler (handle.c) that turns a packet of the application into
  an iPRP packet, gives the verdict on the original, and sends one copy on each interface whose IND
  the receiver knows.
\<close>

definition IPRP_T_ISD_ALLOW :: time_t where "IPRP_T_ISD_ALLOW = 2"

section \<open>Sockets (isd.c)\<close>

text \<open>
  \<open>sock\<close> is what \<open>socket\<close> returns (-1 on failure).  A created socket comes with the options set
  on it.  The start compares the result with 0.
\<close>

definition create_socket :: "variant \<Rightarrow> int \<Rightarrow> int \<times> sock_opt list" where
  "create_socket v sock =
     (if sock = -1 then (int IPRP_ERR, [])
      else (sock, case v of Unicast \<Rightarrow> [] | Multicast \<Rightarrow> [Multicast_Ttl 255, Multicast_Loop False]))"

fun create_sockets :: "variant \<Rightarrow> nat \<Rightarrow> (nat \<Rightarrow> int) \<Rightarrow> (int \<times> sock_opt list) list result" where
  "create_sockets v 0 sock = Inr []"
| "create_sockets v (Suc n) sock =
     and_then (create_sockets v n sock) (\<lambda>ss.
     let s = create_socket v (sock n)
     in if fst s < 0 then Inl (Err ''Unable to setup socket'') else Inr (ss @ [s]))"

definition isd_sockets :: "variant \<Rightarrow> (nat \<Rightarrow> int) \<Rightarrow> (int \<times> sock_opt list) list result" where
  "isd_sockets v sock = create_sockets v IPRP_MAX_INDS sock"

section \<open>The cached peer base (peerbase.c)\<close>

record isd_peerbase =
  isd_base :: peerbase
  isd_loaded :: bool

text \<open>Set the outgoing interface of the socket of each IND; \<open>ok\<close> is what \<open>setsockopt\<close>
  answers.  The result is the calls made: socket index and address.\<close>

fun set_outgoing :: "(nat \<Rightarrow> in_addr \<Rightarrow> bool) \<Rightarrow> iface list \<Rightarrow> (nat \<times> in_addr) list result" where
  "set_outgoing ok [] = Inr []"
| "set_outgoing ok (f # fs) =
     (if \<not> unat (ind f) < IPRP_MAX_INDS then Inl OutOfBounds
      else if \<not> ok (unat (ind f)) (if_addr f) then Inl (Err ''Unable to set outgoing interface'')
      else and_then (set_outgoing ok fs) (\<lambda>cs. Inr ((unat (ind f), if_addr f) # cs)))"

text \<open>One round of \<open>pb_routine\<close>; \<open>temp\<close> is the uninitialised structure on the stack.\<close>

definition isd_pb_round ::
  "variant \<Rightarrow> (nat \<Rightarrow> in_addr \<Rightarrow> bool) \<Rightarrow> string option \<Rightarrow> bytes \<Rightarrow> fs \<Rightarrow> isd_peerbase
   \<Rightarrow> (isd_peerbase \<times> (nat \<times> in_addr) list) result" where
  "isd_pb_round v ok base_path temp f pb =
     and_then (peerbase_load v base_path (Some temp) f) (\<lambda>(err, b).
     if err \<noteq> 0 then Inl (Err ''Unable to load peerbase'')
     else let pb1 = pb\<lparr>isd_base := get_pb v 0 (the b)\<rparr>
          in and_then (case v of Unicast \<Rightarrow> Inr []
                       | Multicast \<Rightarrow> and_then (used_ifaces (pb_host (isd_base pb1))) (set_outgoing ok)) (\<lambda>cs.
             Inr (pb1\<lparr>isd_loaded := True\<rparr>, cs)))"

section \<open>The handler (handle.c)\<close>

text \<open>The static variables of the file: the next sequence number and the last packet let through.\<close>

record isd_state =
  seq_nb :: u32
  last_allowed_thru :: time_t

definition isd_init :: isd_state where
  "isd_init = \<lparr>seq_nb = 1, last_allowed_thru = 0\<rparr>"

definition next_seq :: "u32 \<Rightarrow> u32" where
  "next_seq s = (if s = 0xFFFFFFFF then 1 else s + 1)"

definition get_verdict :: "time_t \<Rightarrow> isd_state \<Rightarrow> u32 \<times> isd_state" where
  "get_verdict curr_time s =
     (if curr_time - last_allowed_thru s \<ge> IPRP_T_ISD_ALLOW
      then (NF_ACCEPT, s\<lparr>last_allowed_thru := curr_time\<rparr>) else (NF_DROP, s))"

text \<open>The environment of a call: the memory \<open>malloc\<close> has and what it holds, and whether a
  \<open>sendto\<close> on a socket to an address succeeds.\<close>

record isd_env =
  malloc_room :: nat
  garbage :: "nat \<Rightarrow> u8"
  sendto_ok :: "nat \<Rightarrow> sockaddr_in \<Rightarrow> bool"

definition malloc :: "isd_env \<Rightarrow> nat \<Rightarrow> bytes option" where
  "malloc env n = (if n \<le> malloc_room env then Some (map (garbage env) [0..<n]) else None)"

text \<open>The writes of the header; \<open>ind\<close> and \<open>hmac\<close> are not written.\<close>

definition put_iprp_header :: "variant \<Rightarrow> link \<Rightarrow> u32 \<Rightarrow> bytes \<Rightarrow> bytes" where
  "put_iprp_header v lk seq p0 =
     (let p1 = put8 hdr_version (ucast IPRP_VERSION) p0;
          p2 = put32 hdr_seq_nb seq p1;
          p3 = put16 hdr_dest_port (dest_port lk) p2;
          p4 = (case v of Unicast \<Rightarrow> put32 hdr_dest_addr (dest_addr lk) p3 | Multicast \<Rightarrow> p3)
      in put_bytes hdr_snsid (snsid lk) p4)"

text \<open>The new packet (\<open>None\<close> for the size 0 the code returns when \<open>malloc\<close> fails), the
  state, and the verdict set on the original.\<close>

definition create_iprp_packet ::
  "variant \<Rightarrow> isd_env \<Rightarrow> time_t \<Rightarrow> link \<Rightarrow> nfq_packet \<Rightarrow> isd_state
   \<Rightarrow> (bytes \<times> isd_state \<times> verdict) option result" where
  "create_iprp_packet v env curr_time lk packet s =
     and_then (get_payload packet) (\<lambda>buf.
     let payload = iphdr_size + udphdr_size;
         payload_size = (of_nat (length buf) - of_nat iphdr_size - of_nat udphdr_size :: u64)
     in (case malloc env (unat (payload_size + of_nat (iprp_header_size v))) of
           None \<Rightarrow> Inr None
         | Some new \<Rightarrow>
             and_then (guard (payload + unat payload_size \<le> length buf
                 \<and> iprp_header_size v + unat payload_size \<le> length new) OutOfBounds) (\<lambda>_.
             let new1 = put_bytes (iprp_header_size v) (get_bytes payload (unat payload_size) buf) new;
                 new2 = put_iprp_header v lk (seq_nb s) new1;
                 s1 = s\<lparr>seq_nb := next_seq (seq_nb s)\<rparr>;
                 (verdict, s2) = (case v of Unicast \<Rightarrow> (NF_DROP, s1) | Multicast \<Rightarrow> get_verdict curr_time s1)
             in and_then (get_packet_id packet) (\<lambda>i.
                and_then (set_verdict packet i verdict buf ''Unable to set verdict'') (\<lambda>vd.
                Inr (Some (new2, s2, vd)))))))"

text \<open>A datagram handed to \<open>sendto\<close>: the index of the socket, the data, the destination.\<close>

record datagram =
  dg_sock :: nat
  dg_data :: bytes
  dg_to :: sockaddr_in

text \<open>\<open>send_packet\<close>: the test \<open>(1 << ind) & base_inds\<close>, then \<open>sendto\<close>.\<close>

definition send_packet :: "isd_env \<Rightarrow> iface \<Rightarrow> bytes \<Rightarrow> sockaddr_in \<Rightarrow> u16 \<Rightarrow> (nat \<times> datagram list) result" where
  "send_packet env f packet addr base_inds =
     and_then (ind_bit (ind f)) (\<lambda>b.
     if b AND ucast base_inds \<noteq> 0
     then if \<not> unat (ind f) < IPRP_MAX_INDS then Inl OutOfBounds
          else if sendto_ok env (unat (ind f)) addr
          then Inr (0, [\<lparr>dg_sock = unat (ind f), dg_data = packet, dg_to = addr\<rparr>])
          else Inr (IPRP_ERR, [])
     else Inr (0, []))"

fun send_copies ::
  "isd_env \<Rightarrow> (iface \<Rightarrow> sockaddr_in result) \<Rightarrow> bytes \<Rightarrow> u16 \<Rightarrow> iface list \<Rightarrow> datagram list result" where
  "send_copies env dest packet base_inds [] = Inr []"
| "send_copies env dest packet base_inds (f # fs) =
     and_then (dest f) (\<lambda>addr.
     and_then (send_packet env f packet addr base_inds) (\<lambda>(err, ds).
     if err \<noteq> 0 then Inl (Err ''Unable to send packet'')
     else and_then (send_copies env dest packet base_inds fs) (\<lambda>rest. Inr (ds @ rest))))"

text \<open>The destination of a copy: by IND, or the group.\<close>

definition copy_dest :: "variant \<Rightarrow> peerbase \<Rightarrow> iface \<Rightarrow> sockaddr_in result" where
  "copy_dest v base f = (case v of
     Unicast \<Rightarrow> if unat (ind f) < length (pb_dest_addr base)
                then Inr (sockaddr_fill (pb_dest_addr base ! unat (ind f)) IPRP_DATA_PORT)
                else Inl OutOfBounds
   | Multicast \<Rightarrow> Inr (sockaddr_fill (dest_addr (pb_link base)) IPRP_DATA_PORT))"

text \<open>The whole handler; the new packet is not freed.\<close>

definition isd_handle_packet ::
  "variant \<Rightarrow> isd_env \<Rightarrow> time_t \<Rightarrow> isd_peerbase \<Rightarrow> nfq_packet \<Rightarrow> isd_state
   \<Rightarrow> (isd_state \<times> verdict \<times> datagram list) result" where
  "isd_handle_packet v env curr_time pb packet s =
     and_then (create_iprp_packet v env curr_time (pb_link (isd_base pb)) packet s) (\<lambda>r.
     case r of
       None \<Rightarrow> Inl (Err ''Unable to create IPRP packet'')
     | Some (new_packet, s', vd) \<Rightarrow>
         and_then (used_ifaces (pb_host (isd_base pb))) (\<lambda>fs.
         and_then (send_copies env (copy_dest v (isd_base pb)) new_packet (pb_inds (isd_base pb)) fs) (\<lambda>ds.
         Inr (s', vd, ds))))"

text \<open>
  The thread: it waits for the first peer base (\<open>None\<close> while there is none), then handles
  packets, each with its time, environment and the peer base cached then.
\<close>

type_synonym isd_msg = "time_t \<times> isd_env \<times> isd_peerbase \<times> nfq_packet"

definition isd_handle_routine ::
  "variant \<Rightarrow> isd_peerbase \<Rightarrow> isd_msg recv_outcome list \<Rightarrow> isd_state
   \<Rightarrow> (isd_state \<times> (verdict \<times> datagram list) list) result option" where
  "isd_handle_routine v pb0 rs s =
     (if isd_loaded pb0
      then Some (handle_loop ''Unable to retrieve packet from ISD queue''
        (\<lambda>(t, env, pb, p) s. and_then (isd_handle_packet v env t pb p s) (\<lambda>(s', vd, ds). Inr (s', (vd, ds)))) rs s)
      else None)"

definition isd_thread ::
  "variant \<Rightarrow> nfq_calls \<Rightarrow> isd_peerbase \<Rightarrow> isd_msg recv_outcome list
   \<Rightarrow> (isd_state \<times> (verdict \<times> datagram list) list) result option" where
  "isd_thread v calls pb0 rs = (case queue_setup calls of
     Inl e \<Rightarrow> Some (Inl e) | Inr fd \<Rightarrow> isd_handle_routine v pb0 rs isd_init)"

section \<open>Facts about the handler\<close>

lemma ind_bit_test:
  "n < 16 \<Longrightarrow> ((push_bit n 1 :: u32) AND ucast (w :: u16) \<noteq> 0) = bit w n"
proof
  assume n: "n < 16" and ne: "(push_bit n 1 :: u32) AND ucast w \<noteq> 0"
  show "bit w n"
  proof (rule ccontr)
    assume "\<not> bit w n"
    then have "(push_bit n 1 :: u32) AND ucast w = 0"
      by (intro bit_eqI) (auto simp: bit_simps)
    with ne show False by simp
  qed
next
  assume n: "n < 16" and b: "bit w n"
  then have "bit ((push_bit n 1 :: u32) AND ucast w) n" by (simp add: bit_simps)
  then show "(push_bit n 1 :: u32) AND ucast w \<noteq> 0" by (metis bit_0_eq bot_apply bot_bool_def)
qed

lemma send_packet_ok:
  assumes "unat (ind f) < 16" and "sendto_ok env (unat (ind f)) addr"
  shows "send_packet env f p addr inds = Inr (0, if bit inds (unat (ind f))
    then [\<lparr>dg_sock = unat (ind f), dg_data = p, dg_to = addr\<rparr>] else [])"
  using assms by (simp add: send_packet_def ind_bit_def ind_bit_test iprp_consts del: push_bit_of_1)

lemma send_copies_ok:
  assumes "\<forall>f \<in> set fs. unat (ind f) < 16 \<and> dest f = Inr (g f) \<and> sendto_ok env (unat (ind f)) (g f)"
  shows "send_copies env dest p inds fs =
    Inr (map (\<lambda>f. \<lparr>dg_sock = unat (ind f), dg_data = p, dg_to = g f\<rparr>)
      (filter (\<lambda>f. bit inds (unat (ind f))) fs))"
  using assms by (induction fs) (simp_all add: send_packet_ok)

lemma put_iprp_header_fields:
  fixes s :: u32
  assumes "iprp_header_size v \<le> length p" and "link_ok lk"
  defines "r \<equiv> put_iprp_header v lk s p"
  shows "length r = length p" "get8 hdr_version r = 1" "get_raw IPRP_SNSID_SIZE hdr_snsid r = snsid lk"
    "get32 hdr_seq_nb r = s" "get16 hdr_dest_port r = dest_port lk"
    "v = Unicast \<Longrightarrow> get32 hdr_dest_addr r = dest_addr lk"
    "31 \<le> o' \<Longrightarrow> get_bytes o' n r = get_bytes o' n p"
proof -
  have L: "31 \<le> length p" using assms(1) iprp_header_size_cases[of v] by auto
  have sl: "length (snsid lk) = 20" using assms(2) by (simp add: link_ok_def iprp_consts)
  show "length r = length p" "get8 hdr_version r = 1" "get_raw IPRP_SNSID_SIZE hdr_snsid r = snsid lk"
    "get32 hdr_seq_nb r = s" "get16 hdr_dest_port r = dest_port lk"
    "v = Unicast \<Longrightarrow> get32 hdr_dest_addr r = dest_addr lk"
    "31 \<le> o' \<Longrightarrow> get_bytes o' n r = get_bytes o' n p"
    using L sl by (cases v; simp add: r_def put_iprp_header_def layout_defs Let_def scalar_defs mem_simps
        iprp_consts)+
qed

lemma isd_payload_size:
  assumes "28 \<le> length (b :: bytes)" and "length b < 65536"
  shows "unat (of_nat (length b) - of_nat iphdr_size - of_nat udphdr_size :: u64) = length b - 28"
    and "unat (of_nat (length b) - of_nat iphdr_size - of_nat udphdr_size + of_nat (iprp_header_size v) :: u64)
      = length b - 28 + iprp_header_size v"
proof -
  have e: "(of_nat (length b) - of_nat iphdr_size - of_nat udphdr_size :: u64) = of_nat (length b - 28)"
    using assms by (simp add: layout_defs of_nat_diff)
  show 1: "unat (of_nat (length b) - of_nat iphdr_size - of_nat udphdr_size :: u64) = length b - 28"
    unfolding e using assms by (simp add: unat_of_nat del: of_nat_diff)
  have "(of_nat (length b - 28) + of_nat (iprp_header_size v) :: u64)
      = of_nat (length b - 28 + iprp_header_size v)" by simp
  then show "unat (of_nat (length b) - of_nat iphdr_size - of_nat udphdr_size
      + of_nat (iprp_header_size v) :: u64) = length b - 28 + iprp_header_size v"
    unfolding e using assms iprp_header_size_cases[of v]
    by (auto simp: unat_of_nat simp del: of_nat_diff of_nat_add)
qed

text \<open>The header and payload of a new packet.\<close>

definition iprp_packet_of :: "variant \<Rightarrow> link \<Rightarrow> u32 \<Rightarrow> bytes \<Rightarrow> bytes \<Rightarrow> bool" where
  "iprp_packet_of v lk s payload p \<longleftrightarrow>
     length p = iprp_header_size v + length payload
     \<and> get8 hdr_version p = 1
     \<and> get_raw IPRP_SNSID_SIZE hdr_snsid p = snsid lk
     \<and> get32 hdr_seq_nb p = s
     \<and> get16 hdr_dest_port p = dest_port lk
     \<and> (v = Unicast \<longrightarrow> get32 hdr_dest_addr p = dest_addr lk)
     \<and> get_bytes (iprp_header_size v) (length payload) p = payload"

definition isd_verdict :: "variant \<Rightarrow> time_t \<Rightarrow> isd_state \<Rightarrow> u32 \<times> time_t" where
  "isd_verdict v t s = (if v = Multicast \<and> t - last_allowed_thru s \<ge> 2 then (NF_ACCEPT, t)
     else (NF_DROP, last_allowed_thru s))"

lemma create_iprp_packet_good:
  assumes "28 \<le> length b" and "length b < 65536" and "length b + 192 \<le> malloc_room env" and "link_ok lk"
  shows "\<exists>new vd. create_iprp_packet v env t lk (nfq_good b i) s
      = Inr (Some (new, \<lparr>seq_nb = next_seq (seq_nb s), last_allowed_thru = snd (isd_verdict v t s)\<rparr>, vd))
    \<and> iprp_packet_of v lk (seq_nb s) (drop 28 b) new
    \<and> vd_code vd = fst (isd_verdict v t s) \<and> vd_data vd = b"
proof -
  let ?h = "iprp_header_size v" and ?n = "length b - 28"
  let ?new = "map (garbage env) [0..<?n + ?h]"
  let ?p1 = "put_bytes ?h (get_bytes 28 ?n b) ?new"
  let ?p2 = "put_iprp_header v lk (seq_nb s) ?p1"
  have m: "malloc env (?n + ?h) = Some ?new"
    using assms(1,3) iprp_header_size_cases[of v] by (auto simp: malloc_def)
  have gl: "length (get_bytes 28 ?n b) = ?n" using assms(1) by (simp add: length_get_bytes)
  have gd: "get_bytes 28 ?n b = drop 28 b" using assms(1) by (simp add: get_bytes_def)
  have l1: "length ?p1 = ?h + ?n" using gl by (simp add: length_put_bytes)
  have hs: "31 \<le> ?h" using iprp_header_size_cases[of v] by auto
  have hl: "?h \<le> length ?p1" using l1 by simp
  note F = put_iprp_header_fields[where v = v and p = ?p1 and lk = lk and s = "seq_nb s", OF hl assms(4)]
  have "get_bytes ?h ?n ?p2 = get_bytes ?h ?n ?p1" using F(7) hs by simp
  also have "\<dots> = drop 28 b" using gl gd by (simp add: get_put_same)
  finally have g: "get_bytes ?h ?n ?p2 = drop 28 b" .
  then have pk: "iprp_packet_of v lk (seq_nb s) (drop 28 b) ?p2"
    using F(1-6) l1 assms(1) by (simp add: iprp_packet_of_def)
  have run: "create_iprp_packet v env t lk (nfq_good b i) s
    = Inr (Some (?p2, \<lparr>seq_nb = next_seq (seq_nb s), last_allowed_thru = snd (isd_verdict v t s)\<rparr>,
        \<lparr>vd_id = ntohl i, vd_code = fst (isd_verdict v t s), vd_data = b\<rparr>))"
    unfolding create_iprp_packet_def nfq_good_simps and_then_Inr Let_def isd_payload_size[OF assms(1,2)]
      m option.case
    using assms(1)
    by (cases v) (auto simp: layout_defs isd_verdict_def get_verdict_def IPRP_T_ISD_ALLOW_def)
  show ?thesis unfolding run using pk by simp
qed

text \<open>A peer base the handler can use, and the destination of its copies.\<close>

definition base_ok :: "variant \<Rightarrow> peerbase \<Rightarrow> bool" where
  "base_ok v b \<longleftrightarrow> pb_ok v b \<and> inds_ok (pb_host b)"

definition dest_of :: "variant \<Rightarrow> peerbase \<Rightarrow> iface \<Rightarrow> sockaddr_in" where
  "dest_of v b f = sockaddr_fill (case v of Unicast \<Rightarrow> pb_dest_addr b ! unat (ind f)
     | Multicast \<Rightarrow> dest_addr (pb_link b)) IPRP_DATA_PORT"

lemma isd_handle_good:
  assumes b: "28 \<le> length b" "length b < 65536" "length b + 192 \<le> malloc_room env"
    and base: "base_ok v (isd_base pb)" and snd: "\<forall>i addr. sendto_ok env i addr"
  shows "\<exists>new vd. isd_handle_packet v env t pb (nfq_good b i) s
      = Inr (\<lparr>seq_nb = next_seq (seq_nb s), last_allowed_thru = snd (isd_verdict v t s)\<rparr>, vd,
          map (\<lambda>f. \<lparr>dg_sock = unat (ind f), dg_data = new, dg_to = dest_of v (isd_base pb) f\<rparr>)
            (filter (\<lambda>f. bit (pb_inds (isd_base pb)) (unat (ind f)))
              (take (nb_ifaces (pb_host (isd_base pb))) (ifaces (pb_host (isd_base pb))))))
    \<and> iprp_packet_of v (pb_link (isd_base pb)) (seq_nb s) (drop 28 b) new
    \<and> vd_code vd = fst (isd_verdict v t s) \<and> vd_data vd = b"
proof -
  let ?base = "isd_base pb"
  let ?fs = "take (nb_ifaces (pb_host ?base)) (ifaces (pb_host ?base))"
  from base have lk: "link_ok (pb_link ?base)" and h: "host_ok (pb_host ?base)"
    and i: "\<forall>f \<in> set ?fs. unat (ind f) < 16"
    by (auto simp: base_ok_def pb_ok_def inds_ok_def iprp_consts)
  have "\<forall>f \<in> set ?fs. unat (ind f) < 16 \<and> copy_dest v ?base f = Inr (dest_of v ?base f)
      \<and> sendto_ok env (unat (ind f)) (dest_of v ?base f)"
    using i base snd by (cases v) (auto simp: copy_dest_def dest_of_def base_ok_def pb_ok_def iprp_consts)
  note c = send_copies_ok[OF this]
  from create_iprp_packet_good[OF b lk, of v t i s] obtain new vd where
    "create_iprp_packet v env t (pb_link ?base) (nfq_good b i) s
      = Inr (Some (new, \<lparr>seq_nb = next_seq (seq_nb s), last_allowed_thru = snd (isd_verdict v t s)\<rparr>, vd))"
    "iprp_packet_of v (pb_link ?base) (seq_nb s) (drop 28 b) new"
    "vd_code vd = fst (isd_verdict v t s) \<and> vd_data vd = b" by blast
  then show ?thesis by (auto simp: isd_handle_packet_def used_ifaces_ok[OF h] c)
qed

section \<open>Runs\<close>

text \<open>A message the handler can serve: a UDP packet, memory, a usable peer base, working sockets.\<close>

fun isd_msg_ok :: "variant \<Rightarrow> isd_msg \<Rightarrow> bool" where
  "isd_msg_ok v (t, env, pb, p) \<longleftrightarrow>
     (case nfq_payload p of None \<Rightarrow> False
      | Some b \<Rightarrow> 28 \<le> length b \<and> length b < 65536 \<and> length b + 192 \<le> malloc_room env)
     \<and> nfq_id p \<noteq> None \<and> nfq_verdict_ok p \<and> base_ok v (isd_base pb)
     \<and> sendto_ok env = (\<lambda>_ _. True)"

fun isd_step :: "variant \<Rightarrow> isd_msg \<Rightarrow> isd_state \<Rightarrow> (isd_state \<times> verdict \<times> datagram list) result" where
  "isd_step v (t, env, pb, p) s =
     and_then (isd_handle_packet v env t pb p s) (\<lambda>(s', vd, ds). Inr (s', (vd, ds)))"

declare isd_msg_ok.simps [simp del] isd_step.simps [simp del]

definition isd_loop ::
  "variant \<Rightarrow> isd_msg recv_outcome list \<Rightarrow> isd_state \<Rightarrow> (isd_state \<times> (verdict \<times> datagram list) list) result" where
  "isd_loop v = handle_loop ''Unable to retrieve packet from ISD queue'' (isd_step v)"

lemma isd_handle_routine_loop:
  "isd_handle_routine v pb0 rs s = (if isd_loaded pb0 then Some (isd_loop v rs s) else None)"
proof -
  have "isd_step v = (\<lambda>(t, env, pb, p) s.
      and_then (isd_handle_packet v env t pb p s) (\<lambda>(s', vd, ds). Inr (s', (vd, ds))))"
    by (auto simp: fun_eq_iff isd_step.simps)
  then show ?thesis by (simp add: isd_handle_routine_def isd_loop_def)
qed

lemma isd_loop_simps:
  "isd_loop v [] s = Inr (s, [])"
  "isd_loop v (RecvPacket m # rs) s = and_then (isd_step v m s) (\<lambda>(s', out).
     and_then (isd_loop v rs s') (\<lambda>(s'', outs). Inr (s'', out # outs)))"
  by (auto simp: isd_loop_def get_and_handle_def IPRP_ERR_def and_then_def split: sum.splits)

text \<open>The datagrams of a message: the same iPRP packet on each interface the receiver knows.\<close>

fun copies_of :: "variant \<Rightarrow> isd_msg \<Rightarrow> u32 \<Rightarrow> datagram list \<Rightarrow> bool" where
  "copies_of v (t, env, pb, p) n ds \<longleftrightarrow>
     (\<exists>new. iprp_packet_of v (pb_link (isd_base pb)) n (drop 28 (the (nfq_payload p))) new
      \<and> ds = map (\<lambda>f. \<lparr>dg_sock = unat (ind f), dg_data = new, dg_to = dest_of v (isd_base pb) f\<rparr>)
          (filter (\<lambda>f. bit (pb_inds (isd_base pb)) (unat (ind f)))
            (take (nb_ifaces (pb_host (isd_base pb))) (ifaces (pb_host (isd_base pb))))))"

declare copies_of.simps [simp del]

lemma copies_of_seq: "copies_of v m n ds \<Longrightarrow> d \<in> set ds \<Longrightarrow> get32 hdr_seq_nb (dg_data d) = n"
  by (cases m) (auto simp: copies_of.simps iprp_packet_of_def)

lemma isd_step_good:
  assumes "isd_msg_ok v m"
  shows "\<exists>vd ds. isd_step v m s
      = Inr (\<lparr>seq_nb = next_seq (seq_nb s), last_allowed_thru = snd (isd_verdict v (fst m) s)\<rparr>, vd, ds)
    \<and> vd_code vd = fst (isd_verdict v (fst m) s)
    \<and> copies_of v m (seq_nb s) ds"
proof -
  obtain t env pb p where m: "m = (t, env, pb, p)" by (cases m)
  with assms obtain b i where "nfq_payload p = Some b" "nfq_id p = Some i" "nfq_verdict_ok p"
    and b: "28 \<le> length b" "length b < 65536" "length b + 192 \<le> malloc_room env"
    "base_ok v (isd_base pb)" "\<forall>i addr. sendto_ok env i addr"
    by (auto simp: isd_msg_ok.simps split: option.splits)
  then have "p = nfq_good b i" by (simp add: nfq_good_def)
  with isd_handle_good[OF b, of t i s] m show ?thesis
    by (auto simp: isd_step.simps copies_of.simps nfq_good_def)
qed

lemma isd_loop_good:
  "\<forall>m \<in> set ms. isd_msg_ok v m \<Longrightarrow> \<exists>s' outs. isd_loop v (map RecvPacket ms) s = Inr (s', outs)
    \<and> length outs = length ms
    \<and> (\<forall>k < length ms. copies_of v (ms ! k) ((next_seq ^^ k) (seq_nb s)) (snd (outs ! k)))"
proof (induction ms arbitrary: s)
  case Nil
  then show ?case by (simp add: isd_loop_simps)
next
  case (Cons m ms)
  from isd_step_good[of v m s] Cons.prems obtain vd ds t where
    st: "isd_step v m s = Inr (\<lparr>seq_nb = next_seq (seq_nb s), last_allowed_thru = t\<rparr>, vd, ds)"
    "copies_of v m (seq_nb s) ds" by auto
  from Cons.IH[of "\<lparr>seq_nb = next_seq (seq_nb s), last_allowed_thru = t\<rparr>"] Cons.prems
  obtain s' outs where
    r: "isd_loop v (map RecvPacket ms) \<lparr>seq_nb = next_seq (seq_nb s), last_allowed_thru = t\<rparr> = Inr (s', outs)"
    "length outs = length ms"
    "\<forall>k < length ms. copies_of v (ms ! k) ((next_seq ^^ k) (next_seq (seq_nb s))) (snd (outs ! k))" by auto
  have "copies_of v ((m # ms) ! k) ((next_seq ^^ k) (seq_nb s)) (snd (((vd, ds) # outs) ! k))"
    if "k < length (m # ms)" for k
    using that st(2) r(3) by (cases k) (simp_all add: funpow_swap1)
  with st(1) r(1,2) show ?case by (auto simp: isd_loop_simps)
qed

lemma unat_numeral_u32_max: "unat (0xFFFFFFFF :: u32) = 4294967295"
  by simp

lemma next_seq_of_nat:
  "k < 4294967295 \<Longrightarrow> next_seq (of_nat (k + 1)) = of_nat (if k + 1 = 4294967295 then 1 else k + 2)"
proof -
  assume k: "k < 4294967295"
  show ?thesis
  proof (cases "k + 1 = 4294967295")
    case True
    then have "of_nat (k + 1) = (0xFFFFFFFF :: u32)" by simp
    with True show ?thesis by (simp add: next_seq_def)
  next
    case False
    have "unat (of_nat (k + 1) :: u32) = k + 1" using k by (intro unat_of_nat_u32) linarith
    with False have "unat (of_nat (k + 1) :: u32) \<noteq> 4294967295" by linarith
    then have "of_nat (k + 1) \<noteq> (0xFFFFFFFF :: u32)" by (metis unat_numeral_u32_max)
    with False show ?thesis by (simp add: next_seq_def)
  qed
qed

text \<open>The numbers cycle through 1, ..., \<open>2 ^ 32 - 1\<close>.\<close>

lemma next_seq_funpow: "(next_seq ^^ k) 1 = of_nat (k mod 4294967295 + 1)"
proof (induction k)
  case 0
  show ?case by simp
next
  case (Suc k)
  let ?r = "k mod 4294967295"
  have r: "?r < 4294967295" by simp
  have "(next_seq ^^ Suc k) 1 = next_seq (of_nat (?r + 1))" using Suc by simp
  also have "\<dots> = of_nat (if ?r + 1 = 4294967295 then 1 else ?r + 2)" using next_seq_of_nat[OF r] .
  also have "(if ?r + 1 = 4294967295 then 1 else ?r + 2) = Suc k mod 4294967295 + 1"
    by (simp add: mod_Suc)
  finally show ?case .
qed

section \<open>Properties\<close>

text \<open>
  C8. The handler sends one copy of the application's packet on every interface whose IND the
  receiver announced, and on no other: for a packet with the IP and UDP headers and a usable peer
  base, it completes; the copies are the same iPRP packet (version, SNSID, current number,
  destination port and address of the link, then the application's payload), each through the
  socket of its IND and to the address of that IND (the group, in the multicast variant) on the
  data port; the number advances, and the original is dropped or, in the multicast variant, let
  through when none was for two seconds.
\<close>

theorem isd_sends_a_copy_per_common_ind:
  assumes "28 \<le> length b" and "length b < 65536" and "length b + 192 \<le> malloc_room env"
    and "base_ok v (isd_base pb)" and "\<forall>i addr. sendto_ok env i addr"
  shows "\<exists>new vd ds. isd_handle_packet v env t pb (nfq_good b i) s
      = Inr (\<lparr>seq_nb = next_seq (seq_nb s), last_allowed_thru = snd (isd_verdict v t s)\<rparr>, vd, ds)
    \<and> iprp_packet_of v (pb_link (isd_base pb)) (seq_nb s) (drop 28 b) new
    \<and> ds = map (\<lambda>f. \<lparr>dg_sock = unat (ind f), dg_data = new, dg_to = dest_of v (isd_base pb) f\<rparr>)
        (filter (\<lambda>f. bit (pb_inds (isd_base pb)) (unat (ind f)))
          (take (nb_ifaces (pb_host (isd_base pb))) (ifaces (pb_host (isd_base pb)))))
    \<and> vd_code vd = fst (isd_verdict v t s) \<and> vd_data vd = b"
  using isd_handle_good[OF assms, of t i s] by blast

definition example_isd_env :: isd_env where
  "example_isd_env = \<lparr>malloc_room = 70000, garbage = (\<lambda>i. of_nat i), sendto_ok = (\<lambda>_ _. True)\<rparr>"

definition example_isd_pb :: isd_peerbase where
  "example_isd_pb = \<lparr>isd_base = example_peerbase, isd_loaded = True\<rparr>"

lemma take_2: "take 2 (x # y # xs) = [x, y]"
  by (simp add: numeral_2_eq_2)

lemma example_used:
  "take (nb_ifaces (pb_host example_peerbase)) (ifaces (pb_host example_peerbase))
     = [\<lparr>ind = 0, if_addr = 0x0A00000A\<rparr>, \<lparr>ind = 3, if_addr = 0x0A00000B\<rparr>]"
  by (simp add: example_peerbase_def example_host_def take_2)

lemma example_base_ok: "base_ok Unicast example_peerbase"
  using example_ok example_used
  by (simp add: base_ok_def inds_ok_def iprp_consts) (simp add: example_peerbase_def)

theorem isd_sends_a_copy_per_common_ind_witness:
  "\<exists>s' vd ds. isd_handle_packet Unicast example_isd_env 0 example_isd_pb (nfq_good (replicate 30 7) 1) isd_init
      = Inr (s', vd, ds) \<and> seq_nb s' = 2 \<and> map dg_sock ds = [0, 3] \<and> vd_code vd = NF_DROP"
proof -
  have p: "isd_base example_isd_pb = example_peerbase" by (simp add: example_isd_pb_def)
  have f: "map (\<lambda>f. unat (ind f)) (filter (\<lambda>f. bit (pb_inds example_peerbase) (unat (ind f)))
      (take (nb_ifaces (pb_host example_peerbase)) (ifaces (pb_host example_peerbase)))) = [0, 3]"
    unfolding example_used by (simp add: example_peerbase_def bit_iff_odd)
  have n: "next_seq (seq_nb isd_init) = 2" by (simp add: next_seq_def isd_init_def)
  from isd_sends_a_copy_per_common_ind[of "replicate 30 7" example_isd_env Unicast example_isd_pb 0 1 isd_init]
    p example_base_ok obtain new vd ds where
    r: "isd_handle_packet Unicast example_isd_env 0 example_isd_pb (nfq_good (replicate 30 7) 1) isd_init
      = Inr (\<lparr>seq_nb = next_seq (seq_nb isd_init),
          last_allowed_thru = snd (isd_verdict Unicast 0 isd_init)\<rparr>, vd, ds)"
    "ds = map (\<lambda>f. \<lparr>dg_sock = unat (ind f), dg_data = new, dg_to = dest_of Unicast example_peerbase f\<rparr>)
        (filter (\<lambda>f. bit (pb_inds example_peerbase) (unat (ind f)))
          (take (nb_ifaces (pb_host example_peerbase)) (ifaces (pb_host example_peerbase))))"
    "vd_code vd = fst (isd_verdict Unicast 0 isd_init)" by (auto simp: example_isd_env_def)
  from r(2) f have "map dg_sock ds = [0, 3]" by (simp add: comp_def)
  with r n show ?thesis by (simp add: isd_verdict_def)
qed

lemma unat_seq: "unat (of_nat (k mod 4294967295 + 1) :: u32) = k mod 4294967295 + 1"
proof (rule unat_of_nat_u32)
  have "k mod 4294967295 < 4294967295" by simp
  then show "k mod 4294967295 + 1 < 4294967296" by linarith
qed

lemma isd_run_numbers:
  assumes "\<forall>m \<in> set ms. isd_msg_ok v m" and "isd_loaded pb0"
  obtains s' outs where "isd_handle_routine v pb0 (map RecvPacket ms) isd_init = Some (Inr (s', outs))"
    "length outs = length ms"
    "\<forall>k < length ms. copies_of v (ms ! k) (of_nat (k mod 4294967295 + 1)) (snd (outs ! k))"
proof -
  from isd_loop_good[OF assms(1), of isd_init] obtain s' outs where
    "isd_loop v (map RecvPacket ms) isd_init = Inr (s', outs)" "length outs = length ms"
    "\<forall>k < length ms. copies_of v (ms ! k) ((next_seq ^^ k) 1) (snd (outs ! k))"
    by (auto simp: isd_init_def)
  with that show ?thesis unfolding isd_handle_routine_loop next_seq_funpow using assms(2) by simp
qed

text \<open>
  The sender numbers its packets: in any run of the thread from its start, the datagrams for
  the packet at position \<open>k\<close> are copies, one per common IND, of one iPRP packet that carries its
  payload and the number \<open>k mod (2 ^ 32 - 1) + 1\<close>, which is never 0.
\<close>

theorem isd_numbers_packets:
  assumes "\<forall>m \<in> set ms. isd_msg_ok v m" and "isd_loaded pb0"
  shows "\<exists>s' outs. isd_handle_routine v pb0 (map RecvPacket ms) isd_init = Some (Inr (s', outs))
    \<and> length outs = length ms
    \<and> (\<forall>k < length ms. \<exists>n. unat n = k mod 4294967295 + 1 \<and> copies_of v (ms ! k) n (snd (outs ! k)))"
proof -
  from isd_run_numbers[OF assms] obtain s' outs where
    "isd_handle_routine v pb0 (map RecvPacket ms) isd_init = Some (Inr (s', outs))"
    "length outs = length ms"
    "\<forall>k < length ms. copies_of v (ms ! k) (of_nat (k mod 4294967295 + 1)) (snd (outs ! k))" .
  then show ?thesis using unat_seq by blast
qed

definition example_isd_msg :: isd_msg where
  "example_isd_msg = (0, example_isd_env, example_isd_pb, nfq_good (replicate 30 7) 1)"

lemma example_isd_msg_ok: "isd_msg_ok Unicast example_isd_msg"
  using example_base_ok
  by (simp add: example_isd_msg_def isd_msg_ok.simps nfq_good_def example_isd_env_def example_isd_pb_def)

theorem isd_numbers_packets_witness:
  "\<exists>s' outs n. isd_handle_routine Unicast example_isd_pb (map RecvPacket [example_isd_msg, example_isd_msg]) isd_init
      = Some (Inr (s', outs))
    \<and> unat n = 2 \<and> copies_of Unicast example_isd_msg n (snd (outs ! 1))"
proof -
  let ?ms = "[example_isd_msg, example_isd_msg]"
  have ok: "\<forall>m \<in> set ?ms. isd_msg_ok Unicast m" "isd_loaded example_isd_pb"
    using example_isd_msg_ok by (simp_all add: example_isd_pb_def)
  from isd_numbers_packets[OF ok] obtain s' outs where
    r: "isd_handle_routine Unicast example_isd_pb (map RecvPacket ?ms) isd_init = Some (Inr (s', outs))"
    and n: "\<forall>k < length ?ms. \<exists>n. unat n = k mod 4294967295 + 1 \<and> copies_of Unicast (?ms ! k) n (snd (outs ! k))"
    by (elim exE conjE)
  have one: "1 < length ?ms" "?ms ! 1 = example_isd_msg" "(1 :: nat) mod 4294967295 + 1 = 2" by simp_all
  from n[rule_format, OF one(1)] obtain k where "unat k = 2" "copies_of Unicast example_isd_msg k (snd (outs ! 1))"
    unfolding one(2,3) by (elim exE conjE)
  with r show ?thesis by blast
qed

fun keepalive :: "time_t \<Rightarrow> time_t list \<Rightarrow> u32 list" where
  "keepalive t0 [] = []"
| "keepalive t0 (t # ts) = (if t - t0 \<ge> 2 then NF_ACCEPT # keepalive t ts else NF_DROP # keepalive t0 ts)"

lemma length_keepalive: "length (keepalive t0 ts) = length ts"
  by (induction t0 ts rule: keepalive.induct) auto

lemma keepalive_after:
  "j < length ts \<Longrightarrow> keepalive t0 ts ! j = NF_ACCEPT \<Longrightarrow> ts ! j - t0 \<ge> 2"
  by (induction t0 ts arbitrary: j rule: keepalive.induct)
    (fastforce simp: NF_ACCEPT_def NF_DROP_def nth_Cons split: nat.splits if_splits)+

lemma keepalive_spaced:
  "i < j \<Longrightarrow> j < length ts \<Longrightarrow> keepalive t0 ts ! i = NF_ACCEPT \<Longrightarrow> keepalive t0 ts ! j = NF_ACCEPT \<Longrightarrow>
   ts ! j - ts ! i \<ge> 2"
proof (induction t0 ts arbitrary: i j rule: keepalive.induct)
  case (2 t0 t ts)
  then show ?case
    by (auto simp: nth_Cons NF_ACCEPT_def NF_DROP_def keepalive_after[unfolded NF_ACCEPT_def]
        split: nat.splits if_splits)
qed simp

lemma keepalive_prompt:
  "j < length ts \<Longrightarrow> keepalive t0 ts ! j = NF_ACCEPT \<or> ts ! j - t0 < 2
     \<or> (\<exists>i < j. keepalive t0 ts ! i = NF_ACCEPT \<and> ts ! j - ts ! i < 2)"
proof (induction t0 ts arbitrary: j rule: keepalive.induct)
  case (2 t0 t ts)
  show ?case
  proof (cases j)
    case 0
    then show ?thesis by auto
  next
    case (Suc k)
    have k: "k < length ts" using 2(3) Suc by simp
    show ?thesis
    proof (cases "t - t0 \<ge> 2")
      case True
      from 2(1)[OF True k] show ?thesis
      proof (elim disjE exE conjE)
        fix i assume "i < k" "keepalive t ts ! i = NF_ACCEPT" "ts ! k - ts ! i < 2"
        then show ?thesis using True Suc by (intro disjI2 exI[of _ "Suc i"]) simp
      qed (use True Suc in \<open>auto intro: exI[of _ 0]\<close>)
    next
      case False
      from 2(2)[OF False k] show ?thesis
      proof (elim disjE exE conjE)
        fix i assume "i < k" "keepalive t0 ts ! i = NF_ACCEPT" "ts ! k - ts ! i < 2"
        then show ?thesis using False Suc by (intro disjI2 exI[of _ "Suc i"]) simp
      qed (use False Suc in auto)
    qed
  qed
qed simp

lemma isd_loop_keepalive:
  "\<forall>m \<in> set ms. isd_msg_ok Multicast m \<Longrightarrow> \<exists>s' outs. isd_loop Multicast (map RecvPacket ms) s = Inr (s', outs)
    \<and> map (vd_code \<circ> fst) outs = keepalive (last_allowed_thru s) (map fst ms)"
proof (induction ms arbitrary: s)
  case Nil
  then show ?case by (simp add: isd_loop_simps)
next
  case (Cons m ms)
  from isd_step_good[of Multicast m s] Cons.prems obtain vd ds where
    st: "isd_step Multicast m s = Inr (\<lparr>seq_nb = next_seq (seq_nb s),
        last_allowed_thru = snd (isd_verdict Multicast (fst m) s)\<rparr>, vd, ds)"
    "vd_code vd = fst (isd_verdict Multicast (fst m) s)" by auto
  from Cons.IH[of "\<lparr>seq_nb = next_seq (seq_nb s), last_allowed_thru = snd (isd_verdict Multicast (fst m) s)\<rparr>"]
    Cons.prems st show ?case by (auto simp: isd_loop_simps isd_verdict_def)
qed

text \<open>
  C24. In the multicast variant the sender lets a plain packet through at most every two
  seconds, and whenever none was for two seconds: of any two accepted packets of a run the later
  one comes at least two seconds after the earlier, and every packet is accepted, or less than two
  seconds after an accepted one (or in the first two seconds of the clock).
\<close>

theorem isd_keepalive:
  assumes "\<forall>m \<in> set ms. isd_msg_ok Multicast m" and "isd_loaded pb0"
  shows "\<exists>s' outs. isd_handle_routine Multicast pb0 (map RecvPacket ms) isd_init = Some (Inr (s', outs))
    \<and> length outs = length ms
    \<and> (\<forall>i j. i < j \<longrightarrow> j < length ms \<longrightarrow> vd_code (fst (outs ! i)) = NF_ACCEPT \<longrightarrow>
          vd_code (fst (outs ! j)) = NF_ACCEPT \<longrightarrow> fst (ms ! j) - fst (ms ! i) \<ge> 2)
    \<and> (\<forall>j < length ms. vd_code (fst (outs ! j)) = NF_ACCEPT \<or> fst (ms ! j) < 2
          \<or> (\<exists>i < j. vd_code (fst (outs ! i)) = NF_ACCEPT \<and> fst (ms ! j) - fst (ms ! i) < 2))"
proof -
  from isd_loop_keepalive[OF assms(1), of isd_init] obtain s' outs where
    r: "isd_loop Multicast (map RecvPacket ms) isd_init = Inr (s', outs)"
    "map (vd_code \<circ> fst) outs = keepalive 0 (map fst ms)" by (auto simp: isd_init_def)
  have l: "length outs = length ms" using arg_cong[OF r(2), of length] by (simp add: length_keepalive)
  have c: "vd_code (fst (outs ! j)) = keepalive 0 (map fst ms) ! j" if "j < length ms" for j
    using that l r(2)[symmetric] by simp
  have "fst (ms ! j) - fst (ms ! i) \<ge> 2"
    if "i < j" "j < length ms" "vd_code (fst (outs ! i)) = NF_ACCEPT" "vd_code (fst (outs ! j)) = NF_ACCEPT" for i j
    using that keepalive_spaced[of i j "map fst ms" 0] c by simp
  moreover have "vd_code (fst (outs ! j)) = NF_ACCEPT \<or> fst (ms ! j) < 2
      \<or> (\<exists>i < j. vd_code (fst (outs ! i)) = NF_ACCEPT \<and> fst (ms ! j) - fst (ms ! i) < 2)"
    if "j < length ms" for j
    using that keepalive_prompt[of j "map fst ms" 0] c by fastforce
  ultimately show ?thesis using r(1) l assms(2) unfolding isd_handle_routine_loop by auto
qed

definition example_mpb :: isd_peerbase where
  "example_mpb = \<lparr>isd_base = example_peerbase\<lparr>pb_dest_addr := []\<rparr>, isd_loaded = True\<rparr>"

definition example_mmsg :: "time_t \<Rightarrow> isd_msg" where
  "example_mmsg t = (t, example_isd_env, example_mpb, nfq_good (replicate 30 7) 1)"

lemma example_mmsg_ok: "isd_msg_ok Multicast (example_mmsg t)"
  using example_base_ok
  by (simp add: example_mmsg_def isd_msg_ok.simps nfq_good_def example_isd_env_def example_mpb_def
      base_ok_def pb_ok_def)

theorem isd_keepalive_witness:
  "\<exists>s' outs. isd_handle_routine Multicast example_mpb (map RecvPacket [example_mmsg 5, example_mmsg 6]) isd_init
      = Some (Inr (s', outs))
    \<and> vd_code (fst (outs ! 0)) = NF_ACCEPT \<and> vd_code (fst (outs ! 1)) \<noteq> NF_ACCEPT"
proof -
  have "\<forall>m \<in> set [example_mmsg 5, example_mmsg 6]. isd_msg_ok Multicast m" and "isd_loaded example_mpb"
    using example_mmsg_ok by (simp_all add: example_mpb_def)
  from isd_keepalive[OF this] obtain s' outs where
    r: "isd_handle_routine Multicast example_mpb (map RecvPacket [example_mmsg 5, example_mmsg 6]) isd_init
      = Some (Inr (s', outs))"
    and far: "\<forall>i j. i < j \<longrightarrow> j < length [example_mmsg 5, example_mmsg 6] \<longrightarrow>
        vd_code (fst (outs ! i)) = NF_ACCEPT \<longrightarrow> vd_code (fst (outs ! j)) = NF_ACCEPT \<longrightarrow>
        fst ([example_mmsg 5, example_mmsg 6] ! j) - fst ([example_mmsg 5, example_mmsg 6] ! i) \<ge> 2"
    and near: "\<forall>j < length [example_mmsg 5, example_mmsg 6]. vd_code (fst (outs ! j)) = NF_ACCEPT
        \<or> fst ([example_mmsg 5, example_mmsg 6] ! j) < 2
        \<or> (\<exists>i < j. vd_code (fst (outs ! i)) = NF_ACCEPT
          \<and> fst ([example_mmsg 5, example_mmsg 6] ! j) - fst ([example_mmsg 5, example_mmsg 6] ! i) < 2)"
    by blast
  have f: "fst (example_mmsg t) = t" for t by (simp add: example_mmsg_def)
  from near[rule_format, of 0] f have "vd_code (fst (outs ! 0)) = NF_ACCEPT" by simp
  moreover from far[rule_format, of 0 1] f this have "vd_code (fst (outs ! 1)) \<noteq> NF_ACCEPT" by auto
  ultimately show ?thesis using r by blast
qed

text \<open>
  The sender uses what the control daemon wrote: after the ICD stored a peer base, one round
  of the cache routine, whatever its stack held, caches exactly that peer base, marks it loaded,
  and in the multicast variant points the socket of each of the host's INDs at its address.
\<close>

theorem isd_caches_stored_base:
  assumes "base_ok v base" and "length m = pb_size v" and "length temp = pb_size v"
    and "can_write f p" and "pb_size v \<le> room f p" and "\<forall>i a. ok i a"
  shows "\<exists>f' cs. peerbase_store v (Some p) (Some (put_pb v 0 base m)) f = Inr (0, f')
    \<and> isd_pb_round v ok (Some p) temp f' pb = Inr (\<lparr>isd_base = base, isd_loaded = True\<rparr>, cs)
    \<and> cs = (case v of Unicast \<Rightarrow> []
        | Multicast \<Rightarrow> map (\<lambda>f. (unat (ind f), if_addr f)) (take (nb_ifaces (pb_host base)) (ifaces (pb_host base))))"
proof -
  from assms(1) have b: "pb_ok v base" and h: "host_ok (pb_host base)"
    and i: "\<forall>f \<in> set (take (nb_ifaces (pb_host base)) (ifaces (pb_host base))). unat (ind f) < IPRP_MAX_INDS"
    by (auto simp: base_ok_def inds_ok_def)
  have so: "\<forall>f \<in> set fs. unat (ind f) < IPRP_MAX_INDS \<Longrightarrow>
      set_outgoing ok fs = Inr (map (\<lambda>f. (unat (ind f), if_addr f)) fs)" for fs
    using assms(6) by (induction fs) simp_all
  from peerbase_store_load[OF b assms(2-5)] obtain f' c where
    "peerbase_store v (Some p) (Some (put_pb v 0 base m)) f = Inr (0, f')"
    "peerbase_load v (Some p) (Some temp) f' = Inr (0, Some c)" "get_pb v 0 c = base" by blast
  then show ?thesis
    using so[OF i] used_ifaces_ok[OF h] by (cases v) (simp_all add: isd_pb_round_def Let_def)
qed

theorem isd_caches_stored_base_witness:
  "\<exists>f' cs. peerbase_store Unicast (Some ''base/0'')
        (Some (put_pb Unicast 0 example_peerbase (replicate 240 0))) example_fs = Inr (0, f')
    \<and> isd_pb_round Unicast (\<lambda>_ _. True) (Some ''base/0'') (replicate 240 1) f' example_mpb
        = Inr (\<lparr>isd_base = example_peerbase, isd_loaded = True\<rparr>, cs)
    \<and> cs = (case Unicast of Unicast \<Rightarrow> []
        | Multicast \<Rightarrow> map (\<lambda>f. (unat (ind f), if_addr f))
            (take (nb_ifaces (pb_host example_peerbase)) (ifaces (pb_host example_peerbase))))"
  by (rule isd_caches_stored_base) (simp_all add: example_base_ok example_fs_def)

text \<open>
  A socket that cannot be created goes unnoticed: \<open>create_socket\<close> reports the failure
  by the positive IPRP\_ERR, the start only rejects negative values, and the copies of that IND go
  to file descriptor 1.
\<close>

lemma create_sockets_all:
  assumes "\<forall>i. -1 \<le> sock i"
  shows "\<exists>ss. create_sockets v n sock = Inr ss \<and> map fst ss = map (\<lambda>i. if sock i = -1 then 1 else sock i) [0..<n]"
proof (induction n)
  case 0
  show ?case by simp
next
  case (Suc n)
  have "fst (create_socket v (sock n)) = (if sock n = -1 then 1 else sock n)" "\<not> fst (create_socket v (sock n)) < 0"
    using assms[rule_format, of n] by (auto simp: create_socket_def IPRP_ERR_def)
  with Suc show ?case by (auto simp: Let_def)
qed

theorem isd_socket_failure_unnoticed:
  assumes "\<forall>i. -1 \<le> sock i" and "k < IPRP_MAX_INDS" and "sock k = -1"
  shows "\<exists>ss. isd_sockets v sock = Inr ss \<and> length ss = IPRP_MAX_INDS \<and> fst (ss ! k) = 1"
proof -
  from create_sockets_all[OF assms(1)] obtain ss where ss: "create_sockets v IPRP_MAX_INDS sock = Inr ss"
    "map fst ss = map (\<lambda>i. if sock i = -1 then 1 else sock i) [0..<IPRP_MAX_INDS]" by blast
  from arg_cong[OF ss(2), of length] have l: "length ss = IPRP_MAX_INDS" by simp
  with arg_cong[OF ss(2), of "\<lambda>xs. xs ! k"] assms(2,3) have "fst (ss ! k) = 1" by simp
  with ss(1) l show ?thesis by (simp add: isd_sockets_def)
qed

theorem isd_socket_failure_unnoticed_witness:
  "\<exists>ss. isd_sockets Multicast (\<lambda>i. if i = 2 then -1 else 10) = Inr ss \<and> length ss = IPRP_MAX_INDS \<and> fst (ss ! 2) = 1"
  by (rule isd_socket_failure_unnoticed) (simp_all add: iprp_consts)

end
