(* ===== verification/Iprp_Dedup.thy ===== *)
theory Iprp_Dedup
  imports Iprp_Global
begin

text \<open>
  The duplicate-discard algorithm of the receiving daemon (\<open>is_fresh_packet\<close> in
  src/ird/handle.c) on the receiver link of src/inc/ird.h.  A link remembers the highest sequence
  number seen and, in a table indexed by the number modulo 1024, the numbers that were skipped
  and may still arrive late.  The lemmas follow a link through an arbitrary sequence of arrivals:
  the set of accepted numbers and the table are tied by one invariant, from which no number is
  delivered twice and, within the window, every first arrival is delivered.
\<close>

section \<open>Receiver links\<close>

definition IPRP_DD_MAX_LOST_PACKETS :: nat where "IPRP_DD_MAX_LOST_PACKETS = 1024"

record receiver_link =
  rl_src_addr :: in_addr
  rl_src_port :: u16
  rl_snsid :: bytes
  list_sn :: "u32 list"
  high_sn :: u32
  rl_last_seen :: time_t

section \<open>The code\<close>

text \<open>
  \<open>i % IPRP_DD_MAX_LOST_PACKETS\<close> for the signed loop variable \<open>i\<close>: C's remainder
  takes the sign of \<open>i\<close>, so a negative \<open>i\<close> indexes before the array unless it is a multiple.
\<close>

definition sn_index :: "u32 \<Rightarrow> nat option" where
  "sn_index i = (if 0 \<le> sint i then Some (nat (sint i) mod 1024)
     else if sint i mod 1024 = 0 then Some 0 else None)"

text \<open>
  \<open>for (int i = high_sn + 1; i < seq_nb; ++i) list_sn[i % 1024] = i\<close>.  The comparison is
  unsigned; incrementing \<open>i\<close> past INT_MAX is a signed overflow.
\<close>

function lost_loop :: "u32 \<Rightarrow> u32 \<Rightarrow> u32 list \<Rightarrow> u32 list result" where
  "lost_loop i n xs =
     (if i < n
      then (case sn_index i of
          None \<Rightarrow> Inl OutOfBounds
        | Some k \<Rightarrow>
            if length xs \<le> k then Inl OutOfBounds
            else if i = 0x7FFFFFFF then Inl SignedOverflow
            else lost_loop (i + 1) n (xs[k := i]))
      else Inr xs)"
  by pat_completeness auto
termination
proof (relation "measure (\<lambda>(i, n, xs). unat n - unat i)")
  fix i n :: u32 and xs :: "u32 list" and k
  assume "i < n"
  then have "unat (i + 1) = Suc (unat i)" "unat i < unat n"
    by (simp_all add: unat_Suc_u32 word_less_nat_alt)
  then show "((i + 1, n, xs[k := i]), (i, n, xs)) \<in> measure (\<lambda>(i, n, xs). unat n - unat i)"
    by simp
qed simp

declare lost_loop.simps [simp del]

definition is_fresh_packet :: "u32 \<Rightarrow> receiver_link \<Rightarrow> (bool \<times> receiver_link) result" where
  "is_fresh_packet seq_nb l =
     (if seq_nb = high_sn l then Inr (False, l)
      else if high_sn l < seq_nb
      then and_then (lost_loop (high_sn l + 1) seq_nb (list_sn l)) (\<lambda>xs.
           Inr (True, l\<lparr>list_sn := xs, high_sn := seq_nb\<rparr>))
      else let k = unat seq_nb mod 1024
           in if length (list_sn l) \<le> k then Inl OutOfBounds
              else if list_sn l ! k = seq_nb
              then Inr (True, l\<lparr>list_sn := (list_sn l)[k := 0]\<rparr>)
              else Inr (False, l))"

section \<open>The table of skipped numbers\<close>

text \<open>While the numbers stay below \<open>2 ^ 31\<close> the loop is a plain sequence of table updates.\<close>

definition mark :: "nat \<Rightarrow> u32 list \<Rightarrow> u32 list" where
  "mark m xs = xs[m mod 1024 := of_nat m]"

definition mark_all :: "nat \<Rightarrow> nat \<Rightarrow> u32 list \<Rightarrow> u32 list" where
  "mark_all a b xs = fold mark [a..<b] xs"

lemma length_mark_all [simp]: "length (mark_all a b xs) = length xs"
proof -
  have "length (fold mark ms xs) = length xs" for ms
    by (induction ms arbitrary: xs) (auto simp: mark_def)
  then show ?thesis by (simp add: mark_all_def)
qed

lemma mark_all_empty [simp]: "b \<le> a \<Longrightarrow> mark_all a b xs = xs"
  by (simp add: mark_all_def)

lemma mark_all_Suc: "a \<le> b \<Longrightarrow> mark_all a (Suc b) xs = mark b (mark_all a b xs)"
  by (simp add: mark_all_def)

lemma mark_all_Cons: "a < b \<Longrightarrow> mark_all a b xs = mark_all (Suc a) b (mark a xs)"
  by (simp add: mark_all_def upt_conv_Cons)

lemma mark_all_other:
  "\<forall>m. a \<le> m \<and> m < b \<longrightarrow> m mod 1024 \<noteq> k \<Longrightarrow> mark_all a b xs ! k = xs ! k"
proof (induction b)
  case (Suc b)
  then show ?case by (cases "a \<le> b") (auto simp: mark_all_Suc mark_def)
qed simp

lemma mark_all_cases:
  assumes "length xs = 1024" and "k < 1024"
  shows "mark_all a b xs ! k = xs ! k
    \<or> (\<exists>m. a \<le> m \<and> m < b \<and> m mod 1024 = k \<and> mark_all a b xs ! k = of_nat m)"
proof (induction b)
  case (Suc b)
  show ?case
  proof (cases "a \<le> b \<and> b mod 1024 = k")
    case True
    with assms show ?thesis by (auto simp: mark_all_Suc mark_def intro!: exI[of _ b])
  next
    case False
    with Suc show ?thesis by (cases "a \<le> b") (auto simp: mark_all_Suc mark_def)
  qed
qed simp

lemma same_slot:
  assumes "(m :: nat) mod 1024 = n mod 1024" and "m < n"
  shows "m + 1024 \<le> n"
proof -
  have "1024 dvd n - m" using assms mod_eq_dvd_iff_nat[of m n 1024] by simp
  then show ?thesis using assms(2) dvd_imp_le[of 1024 "n - m"] by simp
qed

lemma mark_all_window:
  assumes "length xs = 1024" and "a \<le> m" and "m < b" and "b \<le> m + 1024"
  shows "mark_all a b xs ! (m mod 1024) = of_nat m"
  using assms(3,4)
proof (induction b)
  case (Suc b)
  show ?case
  proof (cases "m = b")
    case True
    with assms show ?thesis by (simp add: mark_all_Suc mark_def)
  next
    case False
    with Suc have b: "m < b" "b \<le> m + 1024" by auto
    have "b mod 1024 \<noteq> m mod 1024" using same_slot[of m b] b Suc.prems by auto
    with Suc.IH[OF b] assms b show ?thesis by (simp add: mark_all_Suc mark_def)
  qed
qed simp

lemma sint_small:
  assumes "unat (i :: u32) < 2147483648"
  shows "sint i = int (unat i)"
proof -
  have u: "uint i = int (unat i)" by (simp only: uint_nat)
  have "uint i < 2147483648" "0 \<le> uint i" unfolding u using assms by linarith+
  moreover from this(2) have "- (2 ^ 31) \<le> uint i" by (rule order_trans[rotated]) simp
  ultimately have "signed_take_bit 31 (uint i) = uint i"
    by (intro signed_take_bit_int_eq_self) simp_all
  moreover have "sint i = signed_take_bit 31 (uint i)" by (simp only: sint_uint) simp
  ultimately show ?thesis by (simp only: u)
qed

lemma sn_index_small:
  assumes "unat i < 2147483648"
  shows "sn_index i = Some (unat i mod 1024)"
  unfolding sn_index_def sint_small[OF assms] nat_int by simp

lemma lost_loop_mark_all:
  "unat n < 2147483648 \<Longrightarrow> length xs = 1024 \<Longrightarrow>
   lost_loop i n xs = Inr (mark_all (unat i) (unat n) xs)"
proof (induction i n xs rule: lost_loop.induct)
  case (1 i n xs)
  show ?case
  proof (cases "i < n")
    case True
    then have lt: "unat i < unat n" by (simp only: word_less_nat_alt)
    with "1.prems"(1) have i: "unat i < 2147483647" by linarith
    have "unat (0x7FFFFFFF :: u32) = 2147483647" by simp
    with i have x: "i \<noteq> 0x7FFFFFFF" by (metis less_irrefl)
    have k: "sn_index i = Some (unat i mod 1024)" using i by (intro sn_index_small) linarith
    have m: "xs[unat i mod 1024 := i] = mark (unat i) xs" by (simp add: mark_def)
    have nl: "\<not> length xs \<le> unat i mod 1024" using "1.prems"(2) by simp
    have l: "length (mark (unat i) xs) = 1024" using "1.prems"(2) by (simp add: mark_def)
    have "lost_loop (i + 1) n (mark (unat i) xs)
        = Inr (mark_all (Suc (unat i)) (unat n) (mark (unat i) xs))"
      using "1.IH"[OF True k nl x "1.prems"(1)] l unfolding m unat_Suc_u32[OF True] by blast
    moreover have "lost_loop i n xs = lost_loop (i + 1) n (mark (unat i) xs)"
      unfolding lost_loop.simps[of i n xs] k m[symmetric] using True nl x by (simp only: if_True if_False option.case)
    ultimately show ?thesis using lt by (simp only: mark_all_Cons)
  next
    case False
    then have "unat n \<le> unat i" by (simp add: word_less_nat_alt not_less)
    with False show ?thesis by (subst lost_loop.simps) simp
  qed
qed

text \<open>The same facts on words, for the loop as \<open>is_fresh_packet\<close> starts it.\<close>

definition skip_to :: "u32 \<Rightarrow> u32 \<Rightarrow> u32 list \<Rightarrow> u32 list" where
  "skip_to h n xs = mark_all (Suc (unat h)) (unat n) xs"

lemma length_skip_to [simp]: "length (skip_to h n xs) = length xs"
  by (simp add: skip_to_def)

lemma lost_loop_skip_to:
  assumes "h < n" and "unat n < 2147483648" and "length xs = 1024"
  shows "lost_loop (h + 1) n xs = Inr (skip_to h n xs)"
  using lost_loop_mark_all[OF assms(2,3), of "h + 1"] unat_Suc_u32[OF assms(1)]
  by (simp only: skip_to_def)

lemma skip_to_cases:
  assumes "length xs = 1024" and "k < 1024"
  shows "skip_to h n xs ! k = xs ! k \<or>
    (h < skip_to h n xs ! k \<and> skip_to h n xs ! k < n \<and> unat (skip_to h n xs ! k) mod 1024 = k)"
proof -
  consider "skip_to h n xs ! k = xs ! k"
    | m where "Suc (unat h) \<le> m" "m < unat n" "m mod 1024 = k" "skip_to h n xs ! k = of_nat m"
    using mark_all_cases[OF assms, of "Suc (unat h)" "unat n"] by (auto simp: skip_to_def)
  then show ?thesis
  proof cases
    case 2
    have "m < 4294967296" using 2(2) unat_u32[of n] by linarith
    then have "unat (of_nat m :: u32) = m" by (rule unat_of_nat_u32)
    with 2 show ?thesis by (simp add: word_less_nat_alt)
  qed simp
qed

lemma skip_to_window:
  assumes "length xs = 1024" and "h < m" and "m < n" and "unat n \<le> unat m + 1024"
  shows "skip_to h n xs ! (unat m mod 1024) = m"
  using mark_all_window[of xs "Suc (unat h)" "unat m" "unat n"] assms
  by (simp add: skip_to_def word_less_nat_alt Suc_le_eq)

lemma skip_to_old:
  assumes "m \<le> h" and "unat n \<le> unat m + 1024"
  shows "skip_to h n xs ! (unat m mod 1024) = xs ! (unat m mod 1024)"
  unfolding skip_to_def
proof (rule mark_all_other, intro allI impI)
  fix i
  assume i: "Suc (unat h) \<le> i \<and> i < unat n"
  with assms(1) have "unat m < i" by (simp add: word_le_nat_alt)
  with i assms(2) show "i mod 1024 \<noteq> unat m mod 1024" using same_slot[of "unat m" i] by auto
qed

section \<open>Sequences of arrivals\<close>

text \<open>The link after a sequence of arrivals, with the decision on each of them.\<close>

fun dd_run :: "receiver_link \<Rightarrow> u32 list \<Rightarrow> (bool list \<times> receiver_link) result" where
  "dd_run l [] = Inr ([], l)"
| "dd_run l (s # ss) =
     and_then (is_fresh_packet s l) (\<lambda>(b, l').
     and_then (dd_run l' ss) (\<lambda>(bs, l''). Inr (b # bs, l'')))"

definition accepted :: "'a list \<Rightarrow> bool list \<Rightarrow> 'a list" where
  "accepted ss bs = map fst (filter snd (zip ss bs))"

lemma accepted_simps [simp]:
  "accepted [] bs = []" "accepted (s # ss) (b # bs) = (if b then s # accepted ss bs else accepted ss bs)"
  by (auto simp: accepted_def)

text \<open>A link as \<open>receiver_link_create\<close> leaves it for a first packet numbered \<open>s0\<close>.\<close>

definition starts_at :: "u32 \<Rightarrow> receiver_link \<Rightarrow> bool" where
  "starts_at s0 l \<longleftrightarrow> high_sn l = s0 \<and> list_sn l = replicate 1024 0"

text \<open>
  The invariant of a link whose first packet was \<open>s0\<close>, after the arrivals \<open>P\<close> of which
  \<open>A\<close> were accepted.
\<close>

definition dd_inv :: "u32 \<Rightarrow> u32 set \<Rightarrow> u32 set \<Rightarrow> receiver_link \<Rightarrow> bool" where
  "dd_inv s0 A P l \<longleftrightarrow>
     length (list_sn l) = 1024 \<and> s0 \<le> high_sn l \<and> high_sn l \<in> A \<and> A \<subseteq> P
     \<and> (\<forall>a \<in> A. a \<le> high_sn l \<and> a \<noteq> 0 \<and> list_sn l ! (unat a mod 1024) \<noteq> a)
     \<and> (\<forall>k < 1024. list_sn l ! k < high_sn l)
     \<and> (\<forall>m. s0 < m \<and> m < high_sn l \<and> unat (high_sn l) \<le> unat m + 1024 \<and> m \<notin> A \<longrightarrow>
          list_sn l ! (unat m mod 1024) = m)
     \<and> (\<forall>p \<in> P. s0 < p \<and> unat (high_sn l) \<le> unat p + 1024 \<longrightarrow> p \<in> A)"

lemma dd_inv_start: "starts_at s0 l \<Longrightarrow> s0 \<noteq> 0 \<Longrightarrow> dd_inv s0 {s0} {s0} l"
  by (auto simp: dd_inv_def starts_at_def word_gt_0)

lemma dd_inv_new:
  assumes inv: "dd_inv s0 A P l" and s: "high_sn l < s" and xs: "xs = skip_to (high_sn l) s (list_sn l)"
  shows "dd_inv s0 (insert s A) (insert s P) (l\<lparr>list_sn := xs, high_sn := s\<rparr>) \<and> s \<notin> A"
proof -
  let ?h = "high_sn l" and ?xs = "list_sn l"
  have len: "length ?xs = 1024" and hA: "?h \<in> A" and s0: "s0 \<le> ?h"
    and A: "\<forall>a \<in> A. a \<le> ?h \<and> a \<noteq> 0 \<and> ?xs ! (unat a mod 1024) \<noteq> a"
    and low: "\<forall>k < 1024. ?xs ! k < ?h"
    and win: "\<forall>m. s0 < m \<and> m < ?h \<and> unat ?h \<le> unat m + 1024 \<and> m \<notin> A \<longrightarrow> ?xs ! (unat m mod 1024) = m"
    and P: "\<forall>p \<in> P. s0 < p \<and> unat ?h \<le> unat p + 1024 \<longrightarrow> p \<in> A" and AP: "A \<subseteq> P"
    using inv by (simp_all add: dd_inv_def)
  have us: "unat ?h \<le> unat s" using s by (simp add: word_less_nat_alt)
  have slot: "xs ! k = ?xs ! k \<or> ?h < xs ! k \<and> xs ! k < s" if "k < 1024" for k
    using skip_to_cases[OF len that, of ?h s] xs by auto
  have low_s: "xs ! k < s" if "k < 1024" for k
  proof -
    have "?xs ! k < s" using low that s by (meson less_trans)
    with slot[OF that] show ?thesis by auto
  qed
  have old: "xs ! (unat a mod 1024) \<noteq> a" if "a \<in> A" for a
  proof -
    have "a \<le> ?h" "?xs ! (unat a mod 1024) \<noteq> a" using A that by auto
    with slot[of "unat a mod 1024"] show ?thesis by auto
  qed
  have "s \<notin> A" using A s leD by blast
  moreover have "\<forall>a \<in> insert s A. a \<le> s \<and> a \<noteq> 0 \<and> xs ! (unat a mod 1024) \<noteq> a"
  proof
    fix a assume a: "a \<in> insert s A"
    show "a \<le> s \<and> a \<noteq> 0 \<and> xs ! (unat a mod 1024) \<noteq> a"
    proof (cases "a = s")
      case True
      have "s \<noteq> 0" using s by auto
      with True low_s[of "unat s mod 1024"] show ?thesis by auto
    next
      case False
      with a have "a \<in> A" by simp
      then have "a \<le> ?h" "a \<noteq> 0" using A by auto
      with s old[OF \<open>a \<in> A\<close>] show ?thesis by simp
    qed
  qed
  moreover have "\<forall>k < 1024. xs ! k < s" using low_s by simp
  moreover have "\<forall>m. s0 < m \<and> m < s \<and> unat s \<le> unat m + 1024 \<and> m \<notin> insert s A \<longrightarrow>
      xs ! (unat m mod 1024) = m"
  proof (intro allI impI)
    fix m assume m: "s0 < m \<and> m < s \<and> unat s \<le> unat m + 1024 \<and> m \<notin> insert s A"
    with hA have "m \<noteq> ?h" by auto
    then consider "?h < m" | "m < ?h" by fastforce
    then show "xs ! (unat m mod 1024) = m"
    proof cases
      case 1
      with m show ?thesis using skip_to_window[OF len] xs by auto
    next
      case 2
      with m us have "?xs ! (unat m mod 1024) = m" using win by auto
      with 2 m show ?thesis using skip_to_old[of m ?h s ?xs] xs by auto
    qed
  qed
  moreover have "\<forall>p \<in> insert s P. s0 < p \<and> unat s \<le> unat p + 1024 \<longrightarrow> p \<in> insert s A"
    using P us by auto
  ultimately show ?thesis
    using len xs s0 s AP by (auto simp: dd_inv_def)
qed

lemma dd_inv_late:
  assumes inv: "dd_inv s0 A P l" and s: "s < high_sn l" "s \<noteq> 0"
    and hit: "list_sn l ! (unat s mod 1024) = s"
  shows "dd_inv s0 (insert s A) (insert s P) (l\<lparr>list_sn := (list_sn l)[unat s mod 1024 := 0]\<rparr>) \<and> s \<notin> A"
proof -
  let ?h = "high_sn l" and ?xs = "list_sn l" and ?k = "unat s mod 1024"
  let ?ys = "?xs[?k := 0]"
  have len: "length ?xs = 1024" and A: "\<forall>a \<in> A. a \<le> ?h \<and> a \<noteq> 0 \<and> ?xs ! (unat a mod 1024) \<noteq> a"
    and low: "\<forall>k < 1024. ?xs ! k < ?h"
    and win: "\<forall>m. s0 < m \<and> m < ?h \<and> unat ?h \<le> unat m + 1024 \<and> m \<notin> A \<longrightarrow> ?xs ! (unat m mod 1024) = m"
    and P: "\<forall>p \<in> P. s0 < p \<and> unat ?h \<le> unat p + 1024 \<longrightarrow> p \<in> A"
    and rest: "s0 \<le> ?h" "?h \<in> A" "A \<subseteq> P"
    using inv by (simp_all add: dd_inv_def)
  have ys: "?ys ! k = (if k = ?k then 0 else ?xs ! k)" for k using len by simp
  have "\<forall>a \<in> insert s A. a \<le> ?h \<and> a \<noteq> 0 \<and> ?ys ! (unat a mod 1024) \<noteq> a"
    using A s by (auto simp: ys)
  moreover have "\<forall>k < 1024. ?ys ! k < ?h"
    using low s by (auto simp: ys word_gt_0)
  moreover have "\<forall>m. s0 < m \<and> m < ?h \<and> unat ?h \<le> unat m + 1024 \<and> m \<notin> insert s A \<longrightarrow>
      ?ys ! (unat m mod 1024) = m"
    using win hit by (auto simp: ys)
  moreover have "s \<notin> A" using A hit by auto
  ultimately show ?thesis using len P rest by (auto simp: dd_inv_def)
qed

lemma dd_inv_drop:
  assumes inv: "dd_inv s0 A P l"
    and miss: "s = high_sn l \<or> s < high_sn l \<and> list_sn l ! (unat s mod 1024) \<noteq> s"
  shows "dd_inv s0 A (insert s P) l"
proof -
  have "s0 < s \<and> unat (high_sn l) \<le> unat s + 1024 \<longrightarrow> s \<in> A"
    using inv miss by (auto simp: dd_inv_def)
  with inv show ?thesis by (auto simp: dd_inv_def)
qed

text \<open>One arrival: the decision is made without a fault and the invariant is kept.\<close>

lemma is_fresh_packet_inv:
  assumes inv: "dd_inv s0 A P l" and s: "s \<noteq> 0" "unat s < 2147483648"
  shows "\<exists>b l'. is_fresh_packet s l = Inr (b, l')
    \<and> dd_inv s0 (if b then insert s A else A) (insert s P) l' \<and> (b \<longrightarrow> s \<notin> A)"
proof -
  have len: "length (list_sn l) = 1024" using inv by (simp add: dd_inv_def)
  consider (eq) "s = high_sn l" | (gt) "high_sn l < s" | (lt) "s < high_sn l" by fastforce
  then show ?thesis
  proof cases
    case eq
    with dd_inv_drop[OF inv, of s] show ?thesis
      by (intro exI[of _ False] exI[of _ l]) (simp add: is_fresh_packet_def)
  next
    case gt
    have "is_fresh_packet s l
        = Inr (True, l\<lparr>list_sn := skip_to (high_sn l) s (list_sn l), high_sn := s\<rparr>)"
      using gt lost_loop_skip_to[OF gt s(2) len] by (auto simp: is_fresh_packet_def)
    with dd_inv_new[OF inv gt refl] show ?thesis by auto
  next
    case lt
    show ?thesis
    proof (cases "list_sn l ! (unat s mod 1024) = s")
      case True
      with lt len dd_inv_late[OF inv lt s(1)] show ?thesis
        by (auto simp: is_fresh_packet_def Let_def not_le)
    next
      case False
      with lt len dd_inv_drop[OF inv, of s] show ?thesis
        by (auto simp: is_fresh_packet_def Let_def not_le)
    qed
  qed
qed

text \<open>A number every sender of this protocol uses before it reaches \<open>2 ^ 31\<close>.\<close>

definition sn_ok :: "u32 \<Rightarrow> bool" where
  "sn_ok s \<longleftrightarrow> s \<noteq> 0 \<and> unat s < 2147483648"

lemma dd_run_inv:
  "dd_inv s0 A P l \<Longrightarrow> \<forall>s \<in> set ss. sn_ok s \<Longrightarrow>
   \<exists>bs l'. dd_run l ss = Inr (bs, l') \<and> length bs = length ss
     \<and> dd_inv s0 (A \<union> set (accepted ss bs)) (P \<union> set ss) l'
     \<and> distinct (accepted ss bs) \<and> set (accepted ss bs) \<inter> A = {}"
proof (induction ss arbitrary: A P l)
  case Nil
  then show ?case by simp
next
  case (Cons s ss)
  from Cons.prems(2) have "s \<noteq> 0" "unat s < 2147483648" by (simp_all add: sn_ok_def)
  from is_fresh_packet_inv[OF Cons.prems(1) this] obtain b l1
    where 1: "is_fresh_packet s l = Inr (b, l1)"
      "dd_inv s0 (if b then insert s A else A) (insert s P) l1" "b \<longrightarrow> s \<notin> A" by blast
  from Cons.IH[OF 1(2)] Cons.prems(2) obtain bs l2
    where "dd_run l1 ss = Inr (bs, l2)" "length bs = length ss"
      "dd_inv s0 ((if b then insert s A else A) \<union> set (accepted ss bs)) (insert s P \<union> set ss) l2"
      "distinct (accepted ss bs)" "set (accepted ss bs) \<inter> (if b then insert s A else A) = {}" by auto
  with 1 show ?case by (cases b) auto
qed

lemma dd_run_from_start:
  assumes "starts_at s0 l" and "\<forall>s \<in> set (s0 # ss). sn_ok s"
  shows "\<exists>bs l'. dd_run l ss = Inr (bs, l')
     \<and> dd_inv s0 (insert s0 (set (accepted ss bs))) (insert s0 (set ss)) l'
     \<and> distinct (s0 # accepted ss bs)"
proof -
  have "dd_inv s0 {s0} {s0} l" using assms by (intro dd_inv_start) (auto simp: sn_ok_def)
  from dd_run_inv[OF this, of ss] assms(2) show ?thesis by fastforce
qed

lemma is_fresh_packet_False: "is_fresh_packet s l = Inr (False, l') \<Longrightarrow> l' = l"
  by (auto simp: is_fresh_packet_def Let_def and_then_eq_Inr split: if_splits)

section \<open>Properties\<close>

text \<open>
  C27. No duplicate is ever delivered: from the first packet of a link on, whatever packets
  arrive in whatever order (lost, late, repeated), with numbers from 1 to \<open>2 ^ 31 - 1\<close>, every
  arrival is decided without a fault and the numbers accepted are pairwise distinct.
\<close>

theorem duplicates_never_delivered:
  assumes "starts_at s0 l" and "\<forall>s \<in> set (s0 # ss). sn_ok s"
  shows "\<exists>bs l'. dd_run l ss = Inr (bs, l') \<and> distinct (s0 # accepted ss bs)"
  using dd_run_from_start[OF assms] by blast

definition example_link :: "u32 \<Rightarrow> receiver_link" where
  "example_link s = \<lparr>rl_src_addr = 0, rl_src_port = 0, rl_snsid = replicate 20 0,
     list_sn = replicate 1024 0, high_sn = s, rl_last_seen = 0\<rparr>"

lemma starts_at_example: "starts_at s (example_link s)"
  by (simp add: starts_at_def example_link_def)

theorem duplicates_never_delivered_witness:
  "\<exists>bs l'. dd_run (example_link 7) [9, 9, 8, 7, 8] = Inr (bs, l')
     \<and> distinct (7 # accepted [9, 9, 8, 7, 8 :: u32] bs)"
  by (rule duplicates_never_delivered[OF starts_at_example]) (simp add: sn_ok_def)

text \<open>
  C28. Within the window nothing is lost by the algorithm: a number after the first of the link
  and at most 1024 below the highest seen is accepted exactly when it did not arrive before.
\<close>

theorem window_first_arrivals_delivered:
  assumes start: "starts_at s0 l" and ok: "\<forall>p \<in> set (s0 # ps). sn_ok p" and "sn_ok s"
    and run: "dd_run l ps = Inr (bs, l')"
    and win: "s0 < s" "unat (high_sn l') \<le> unat s + 1024"
  shows "\<exists>l''. is_fresh_packet s l' = Inr (s \<notin> set (s0 # ps), l'')"
proof -
  let ?A = "insert s0 (set (accepted ps bs))" and ?P = "insert s0 (set ps)"
  from dd_run_from_start[OF start ok] run have inv: "dd_inv s0 ?A ?P l'" by auto
  from is_fresh_packet_inv[OF inv] \<open>sn_ok s\<close> obtain b l'' where
    f: "is_fresh_packet s l' = Inr (b, l'')" and inv': "dd_inv s0 (if b then insert s ?A else ?A) (insert s ?P) l''"
    and new: "b \<longrightarrow> s \<notin> ?A" unfolding sn_ok_def by blast
  have PA: "s \<in> ?P \<longrightarrow> s \<in> ?A" using inv win unfolding dd_inv_def by blast
  have AP: "?A \<subseteq> ?P" using inv unfolding dd_inv_def by blast
  have "s \<in> ?A" if "\<not> b"
  proof -
    from that f have "l'' = l'" using is_fresh_packet_False by simp
    with inv' that win show ?thesis unfolding dd_inv_def by auto
  qed
  with new PA AP have "b \<longleftrightarrow> s \<notin> set (s0 # ps)" by auto
  with f show ?thesis by blast
qed

theorem window_first_arrivals_delivered_witness:
  "\<exists>l''. is_fresh_packet 8 (example_link 7) = Inr (8 \<notin> set [7 :: u32], l'')"
  by (rule window_first_arrivals_delivered[OF starts_at_example, where ps = "[]" and bs = "[]"])
    (simp_all add: sn_ok_def example_link_def)

lemma sn_index_big:
  assumes "2147483648 \<le> unat i"
  shows "sn_index i = (if unat i mod 1024 = 0 then Some 0 else None)"
proof -
  let ?n = "int (unat i)"
  have u: "uint i = ?n" by (simp only: uint_nat)
  have b: "2147483648 \<le> ?n" "?n < 4294967296" using assms unat_u32[of i] by linarith+
  have "?n div 2147483648 = 1" using b by (intro int_div_pos_eq[where r = "?n - 2147483648"]) linarith+
  then have top: "bit ?n 31" by (simp add: bit_iff_odd)
  have "sint i = signed_take_bit 31 ?n" by (simp only: sint_uint u) simp
  also have "\<dots> = take_bit 32 ?n - 4294967296"
    using top by (simp add: signed_take_bit_eq_take_bit_minus)
  also have "take_bit 32 ?n = ?n" using b by (intro take_bit_int_eq_self) simp_all
  finally have s: "sint i = ?n - 4294967296" .
  have "(?n + (- 4194304) * 1024) mod 1024 = ?n mod 1024" by (rule mod_mult_self1)
  then have "sint i mod 1024 = int (unat i mod 1024)" by (simp add: s zmod_int)
  moreover have "\<not> 0 \<le> sint i" using s b by linarith
  ultimately show ?thesis by (simp add: sn_index_def)
qed

text \<open>
  C39. Sequence numbers of \<open>2 ^ 31\<close> and above break the signed loop index: once the highest
  number of a link is that large, an arrival that skips at least two numbers writes before the
  start of \<open>list_sn\<close>.
\<close>

theorem skip_past_int_max_out_of_bounds:
  assumes len: "length (list_sn l) = 1024" and h: "2147483648 \<le> unat (high_sn l)"
    and s: "unat (high_sn l) + 2 < unat s"
  shows "is_fresh_packet s l = Inl OutOfBounds"
proof -
  let ?h = "high_sn l" and ?i = "high_sn l + 1"
  have lt: "?h < s" using s by (simp only: word_less_nat_alt)
  have i: "unat ?i = Suc (unat ?h)" by (rule unat_Suc_u32[OF lt])
  have i_s: "?i < s" unfolding word_less_nat_alt i using s by linarith
  have j: "unat (?i + 1) = Suc (Suc (unat ?h))" using unat_Suc_u32[OF i_s] i by simp
  have j_s: "?i + 1 < s" unfolding word_less_nat_alt j using s by linarith
  have step: "lost_loop k s xs = (if unat k mod 1024 = 0 then lost_loop (k + 1) s (xs[0 := k]) else Inl OutOfBounds)"
    if "k < s" "2147483648 \<le> unat k" "length xs = 1024" for k xs
  proof -
    have "k \<noteq> 0x7FFFFFFF"
    proof
      assume "k = 0x7FFFFFFF"
      then have "unat k = 2147483647" by simp
      with that(2) show False by linarith
    qed
    then show ?thesis
      unfolding lost_loop.simps[of k s xs] sn_index_big[OF that(2)] using that by simp
  qed
  have "lost_loop ?i s (list_sn l) = Inl OutOfBounds"
  proof (cases "unat ?i mod 1024 = 0")
    case True
    have "unat (?i + 1) mod 1024 \<noteq> 0" using True i j by (simp add: mod_Suc)
    with True step[OF i_s _ len] step[OF j_s, of "(list_sn l)[0 := ?i]"] i j h len show ?thesis by auto
  next
    case False
    with step[OF i_s _ len] i h show ?thesis by simp
  qed
  with lt show ?thesis by (auto simp: is_fresh_packet_def)
qed

theorem skip_past_int_max_out_of_bounds_witness:
  "is_fresh_packet 0x80000010 (example_link 0x80000000) = Inl OutOfBounds"
  by (rule skip_past_int_max_out_of_bounds) (simp_all add: example_link_def)

end
