(* ===== verification/Iprp_Checksum.thy ===== *)
theory Iprp_Checksum
  imports Iprp_Memory
begin

text \<open>
  The IP header checksum of src/ird/handle.c: a 32-bit accumulator into which the 16-bit words
  of the header are added, the carries being folded back after every addition.  The reference
  is the one's complement sum of RFC 1071, \<open>oc_sum\<close>, on natural numbers.  The UDP checksum of
  the same file uses the addresses as pointers and is modelled on a memory of the process.
\<close>

section \<open>The code\<close>

lemma unat_drop_16: "unat (drop_bit 16 (c :: u32)) = unat c div 65536"
  using unat_drop_bit_eq[of 16 c] by (simp only: drop_bit_eq_div) simp

lemma fold_step_unat:
  fixes c :: u32
  shows "unat ((c AND 0xFFFF) + drop_bit 16 c) = unat c mod 65536 + unat c div 65536"
proof -
  have m: "unat (c AND 0xFFFF) = unat c mod 65536"
  proof -
    have "c AND 0xFFFF = take_bit 16 c" by (simp add: take_bit_eq_mask mask_eq_exp_minus_1)
    moreover have "unat (take_bit 16 c) = unat c mod 65536"
      unfolding unsigned_take_bit_eq by (simp only: take_bit_eq_mod) simp
    ultimately show ?thesis by (simp only:)
  qed
  have d: "unat (drop_bit 16 c) = unat c div 65536"
    by (rule unat_drop_16)
  have "unat c < 2 ^ 32" using unat_u32[of c] by simp
  then have "unat c mod 65536 + unat c div 65536 < 2 ^ 32" by simp
  then show ?thesis by (simp add: unat_word_ariths m d)
qed

lemma high_half_iff: "drop_bit 16 c \<noteq> 0 \<longleftrightarrow> 65536 \<le> unat (c :: u32)"
proof -
  have "drop_bit 16 c = 0 \<longleftrightarrow> unat (drop_bit 16 c) = 0" by (simp add: unat_eq_0)
  also have "\<dots> \<longleftrightarrow> unat c < 65536" by (simp only: unat_drop_16) (simp add: div_eq_0_iff)
  finally show ?thesis by linarith
qed

text \<open>\<open>while (checksum >> 16) checksum = (checksum & 0xFFFF) + (checksum >> 16)\<close>\<close>

function fold_carry :: "u32 \<Rightarrow> u32" where
  "fold_carry c = (if drop_bit 16 c \<noteq> 0 then fold_carry ((c AND 0xFFFF) + drop_bit 16 c) else c)"
  by pat_completeness auto
termination
proof (relation "measure unat")
  fix c :: u32
  assume "drop_bit 16 c \<noteq> 0"
  then have "65536 \<le> unat c" by (simp add: high_half_iff)
  then have "0 < unat c div 65536" by (simp add: div_greater_zero_iff)
  then have "unat c mod 65536 + unat c div 65536 < unat c"
    using div_mult_mod_eq[of "unat c" 65536] by linarith
  then show "((c AND 0xFFFF) + drop_bit 16 c, c) \<in> measure unat"
    by (simp add: fold_step_unat)
qed simp

declare fold_carry.simps [simp del]

fun csum_loop :: "u16 list \<Rightarrow> u32 \<Rightarrow> u32" where
  "csum_loop [] c = c"
| "csum_loop (h # hs) c = csum_loop hs (fold_carry (c + ucast h))"

definition csum_words :: "u16 list \<Rightarrow> u16" where
  "csum_words hs = ucast (NOT (fold_carry (csum_loop hs 0)))"

text \<open>\<open>ip_checksum\<close> of the \<open>len\<close> bytes at \<open>off\<close>, read as \<open>len / 2\<close> halfwords.\<close>

definition ip_checksum :: "nat \<Rightarrow> nat \<Rightarrow> bytes \<Rightarrow> u16" where
  "ip_checksum off len bs = csum_words (get_array get16 2 (len div 2) off bs)"

section \<open>The reference\<close>

definition oc_sum :: "nat \<Rightarrow> nat" where
  "oc_sum n = (if n = 0 then 0 else (n - 1) mod 65535 + 1)"

lemma oc_sum_bound: "oc_sum n \<le> 65535"
proof -
  have "(n - 1) mod 65535 < 65535" by simp
  then have "(n - 1) mod 65535 + 1 \<le> 65535" by linarith
  then show ?thesis by (simp only: oc_sum_def) simp
qed

lemma oc_sum_le: "oc_sum n \<le> n"
  using mod_less_eq_dividend[of "n - 1" 65535] by (auto simp: oc_sum_def)

lemma oc_sum_id: "n \<le> 65535 \<Longrightarrow> oc_sum n = n"
  by (auto simp: oc_sum_def)

lemma oc_sum_0 [simp]: "oc_sum n = 0 \<longleftrightarrow> n = 0"
  by (simp add: oc_sum_def)

lemma oc_sum_zero [simp]: "oc_sum 0 = 0"
  by (simp add: oc_sum_def)

text \<open>Two numbers have the same sum when they differ by a multiple of 65535 and are both non-zero.\<close>

lemma oc_sum_cong: "0 < a \<Longrightarrow> 0 < b \<Longrightarrow> a mod 65535 = b mod 65535 \<Longrightarrow> oc_sum a = oc_sum b"
proof -
  assume a: "0 < a" "0 < b" and e: "a mod 65535 = b mod 65535"
  have "int (a - 1) mod 65535 = (int a - 1) mod 65535" "int (b - 1) mod 65535 = (int b - 1) mod 65535"
    using a by (simp_all add: of_nat_diff)
  moreover have "(int a - 1) mod 65535 = (int b - 1) mod 65535"
    using arg_cong[OF e, of int] by (intro mod_diff_cong) (simp_all add: zmod_int)
  ultimately have "int ((a - 1) mod 65535) = int ((b - 1) mod 65535)"
    by (simp add: zmod_int)
  then show "oc_sum a = oc_sum b" using a by (simp add: oc_sum_def)
qed

lemma oc_sum_mod: "oc_sum n mod 65535 = n mod 65535"
proof (cases n)
  case (Suc m)
  have "(m mod 65535 + 1) mod 65535 = (m + 1) mod 65535" by (rule mod_add_left_eq)
  with Suc show ?thesis by (simp add: oc_sum_def)
qed simp

lemma oc_sum_add: "oc_sum (oc_sum a + b) = oc_sum (a + b)"
proof (cases "a = 0")
  case False
  then have "0 < oc_sum a" using oc_sum_0[of a] by linarith
  with False show ?thesis
    using mod_add_cong[OF oc_sum_mod[of a] refl[of "b mod 65535"]] by (intro oc_sum_cong) auto
qed simp

lemma unat_fold_carry: "unat (fold_carry c) = oc_sum (unat c)"
proof (induction c rule: fold_carry.induct)
  case (1 c)
  show ?case
  proof (cases "drop_bit 16 c \<noteq> 0")
    case True
    let ?n = "unat c"
    from True have big: "65536 \<le> ?n" by (simp add: high_half_iff)
    have "unat (fold_carry c) = oc_sum (?n mod 65536 + ?n div 65536)"
      using True "1.IH" by (subst fold_carry.simps) (simp add: fold_step_unat)
    also have "\<dots> = oc_sum ?n"
    proof (rule oc_sum_cong)
      have "?n = 65535 * (?n div 65536) + (?n mod 65536 + ?n div 65536)"
        using div_mult_mod_eq[of ?n 65536] by linarith
      then show "(?n mod 65536 + ?n div 65536) mod 65535 = ?n mod 65535"
        using mod_mult_self4[of 65535 "?n div 65536" "?n mod 65536 + ?n div 65536"] by simp
      show "0 < ?n mod 65536 + ?n div 65536" "0 < ?n" using big div_mult_mod_eq[of ?n 65536] by linarith+
    qed
    finally show ?thesis .
  next
    case False
    then have "unat c \<le> 65535" using high_half_iff[of c] by linarith
    with False show ?thesis by (subst fold_carry.simps) (simp add: oc_sum_id)
  qed
qed

lemma unat_csum_loop:
  "unat c \<le> 65535 \<Longrightarrow> unat (csum_loop hs c) = oc_sum (unat c + sum_list (map unat hs))"
proof (induction hs arbitrary: c)
  case Nil
  then show ?case by (simp add: oc_sum_id)
next
  case (Cons h hs)
  have h: "unat (ucast h :: u32) = unat h" "unat h < 65536"
    by (simp_all add: unat_ucast_16_32 unat_u16)
  have a: "unat (c + ucast h) = unat c + unat h"
    using Cons.prems h by (simp add: unat_word_ariths)
  have "unat (fold_carry (c + ucast h)) \<le> 65535"
    by (simp add: unat_fold_carry oc_sum_bound)
  from Cons.IH[OF this] show ?case
    by (simp add: unat_fold_carry a oc_sum_add add.assoc)
qed

lemma unat_ucast_not:
  assumes "unat (c :: u32) \<le> 65535"
  shows "unat (ucast (NOT c) :: u16) = 65535 - unat c"
proof -
  have "unat (ucast c :: u16) = unat c"
    using assms by (simp add: unat_ucast_32_16)
  moreover have "(ucast (NOT c) :: u16) = NOT (ucast c)"
    by (rule bit_eqI) (auto simp: bit_simps)
  moreover have "unat (NOT w) = 65535 - unat w" for w :: u16
  proof -
    have "NOT w = - 1 - w" by (simp add: not_eq_complement)
    moreover have "unat (- 1 - w) = unat (- 1 :: u16) - unat w"
      by (rule unat_sub) (rule word_order.extremum)
    ultimately show ?thesis by (simp add: unsigned_minus_1_eq_mask mask_eq_exp_minus_1)
  qed
  ultimately show ?thesis by simp
qed

lemma unat_csum_words: "unat (csum_words hs) = 65535 - oc_sum (sum_list (map unat hs))"
proof -
  have "unat (fold_carry (csum_loop hs 0)) = oc_sum (sum_list (map unat hs))"
    by (simp add: unat_fold_carry unat_csum_loop oc_sum_id oc_sum_bound)
  then show ?thesis using oc_sum_bound by (simp add: csum_words_def unat_ucast_not)
qed

lemma sum_list_replace:
  fixes hs :: "u16 list"
  assumes "k < length hs" and "hs ! k = 0"
  shows "sum_list (map unat (hs[k := c])) = sum_list (map unat hs) + unat c"
  using assms by (induction hs arbitrary: k) (auto split: nat.splits)

text \<open>Storing the checksum in a field that was zero makes the sum of the header all ones.\<close>

lemma csum_words_valid:
  assumes "k < length hs" and "hs ! k = 0"
  shows "csum_words (hs[k := csum_words hs]) = 0"
proof -
  let ?s = "sum_list (map unat hs)" and ?c = "csum_words hs"
  let ?t = "?s + (65535 - oc_sum ?s)"
  have c: "unat ?c = 65535 - oc_sum ?s" by (rule unat_csum_words)
  have t: "sum_list (map unat (hs[k := ?c])) = ?t"
    by (simp add: sum_list_replace[OF assms] c)
  have "?t mod 65535 = 0"
  proof -
    have "?t = (?s - oc_sum ?s) + 65535" using oc_sum_le[of ?s] oc_sum_bound[of ?s] by linarith
    moreover have "(?s - oc_sum ?s) mod 65535 = 0"
      using mod_eq_dvd_iff_nat[OF oc_sum_le[of ?s], of 65535] oc_sum_mod[of ?s] by simp
    ultimately show ?thesis by simp
  qed
  moreover have "0 < ?t"
  proof (cases "?s = 0")
    case True
    then have "oc_sum ?s = 0" by (simp only: oc_sum_0)
    then show ?thesis by linarith
  qed linarith
  ultimately have "oc_sum ?t = oc_sum 65535" by (intro oc_sum_cong) auto
  then have "unat (csum_words (hs[k := ?c])) = 0"
    by (simp add: unat_csum_words t oc_sum_id)
  then show ?thesis by (simp add: unat_eq_0)
qed

section \<open>In memory\<close>

lemma nth_get_array: "i < n \<Longrightarrow> get_array get w n off bs ! i = get (off + i * w) bs"
proof (induction n arbitrary: off i)
  case (Suc n)
  then show ?case by (cases i) (simp_all add: algebra_simps)
qed simp

lemma halfwords_put:
  assumes "i < n" and "off + 2 * n \<le> length bs"
  shows "get_array get16 2 n off (put16 (off + 2 * i) c bs) = (get_array get16 2 n off bs)[i := c]"
proof (rule nth_equalityI)
  fix j
  assume "j < length (get_array get16 2 n off (put16 (off + 2 * i) c bs))"
  then have j: "j < n" by simp
  show "get_array get16 2 n off (put16 (off + 2 * i) c bs) ! j = (get_array get16 2 n off bs)[i := c] ! j"
  proof (cases "j = i")
    case True
    with assms show ?thesis by (simp add: nth_get_array m16.get_put mult.commute)
  next
    case False
    with assms j have "get16 (off + 2 * j) (put16 (off + 2 * i) c bs) = get16 (off + 2 * j) bs"
      by (intro m16.get_put_other) auto
    with False assms j show ?thesis by (simp add: nth_get_array mult.commute)
  qed
qed simp

lemma ip_checksum_field:
  assumes "k < len div 2" and "off + len \<le> length bs" and "get16 (off + 2 * k) bs = 0"
  shows "ip_checksum off len (put16 (off + 2 * k) (ip_checksum off len bs) bs) = 0"
proof -
  let ?hs = "get_array get16 2 (len div 2) off bs"
  have "?hs ! k = 0" using assms by (simp add: nth_get_array mult.commute)
  then have "csum_words (?hs[k := csum_words ?hs]) = 0" using assms(1) by (intro csum_words_valid) simp_all
  moreover have "off + 2 * (len div 2) \<le> length bs" using assms(2) by linarith
  ultimately show ?thesis using assms(1) by (simp add: ip_checksum_def halfwords_put)
qed

section \<open>The UDP checksum\<close>

text \<open>
  \<open>udp_checksum\<close> (its call is commented out) takes the two addresses as numbers and reads the words at
  the places in memory these numbers point to; after an odd length it does the same with the last word
  of the packet.  \<open>mem\<close> is the memory of the process, \<open>None\<close> where nothing is mapped.
\<close>

definition read8 :: "(u64 \<Rightarrow> u8 option) \<Rightarrow> u64 \<Rightarrow> u8 result" where
  "read8 mem a = (case mem a of None \<Rightarrow> Inl OutOfBounds | Some b \<Rightarrow> Inr b)"

definition read16 :: "(u64 \<Rightarrow> u8 option) \<Rightarrow> u64 \<Rightarrow> u16 result" where
  "read16 mem a = and_then (read8 mem a) (\<lambda>l. and_then (read8 mem (a + 1)) (\<lambda>h. Inr (of_le16 [l, h])))"

definition IPPROTO_UDP :: u16 where "IPPROTO_UDP = 17"

definition udp_checksum :: "(u64 \<Rightarrow> u8 option) \<Rightarrow> nat \<Rightarrow> bytes \<Rightarrow> nat \<Rightarrow> u32 \<Rightarrow> u32 \<Rightarrow> u16 result" where
  "udp_checksum mem off bs len src dst =
     and_then (read16 mem (ucast src)) (\<lambda>s0. and_then (read16 mem (ucast src + 2)) (\<lambda>s1.
     and_then (read16 mem (ucast dst)) (\<lambda>d0. and_then (read16 mem (ucast dst + 2)) (\<lambda>d1.
     let c0 = fold_carry (ucast s0 + ucast s1 + ucast d0 + ucast d1 + ucast (htons IPPROTO_UDP) + ucast (htons (of_nat len)))
     in if length bs < off + 2 * (len div 2) then Inl OutOfBounds
        else
         let c1 = csum_loop (get_array get16 2 (len div 2) off bs) c0
         in and_then (if len mod 2 = 1
              then if length bs < off + 2 * (len div 2) + 2 then Inl OutOfBounds
                   else and_then (read8 mem (ucast (get16 (off + 2 * (len div 2)) bs))) (\<lambda>b. Inr (fold_carry (c1 + ucast b)))
              else Inr c1) (\<lambda>c2. Inr (ucast (NOT c2)))))))"

lemma unat_small_sum:
  fixes a b :: u32
  assumes "unat a < 1000000" and "unat b < 1000000"
  shows "unat (a + b) = unat a + unat b"
  using assms by (simp add: unat_word_ariths)

lemma unat_pseudo:
  "unat (ucast (a :: u16) + ucast (b :: u16) + ucast (c :: u16) + ucast (d :: u16) + ucast (e :: u16) + ucast (f :: u16) :: u32)
     = unat a + unat b + unat c + unat d + unat e + unat f"
  using unat_u16[of a] unat_u16[of b] unat_u16[of c] unat_u16[of d] unat_u16[of e] unat_u16[of f]
  by (simp add: unat_small_sum unat_ucast_16_32)

section \<open>Properties\<close>


text \<open>
  C26. A header whose checksum field was cleared, summed and filled in passes the receiver's test: the
  checksum computed over it is 0, wherever the field is.
\<close>

theorem ip_checksum_verifies:
  assumes "k < len div 2" and "off + len \<le> length bs"
  shows "let cleared = put16 (off + 2 * k) 0 bs
    in ip_checksum off len (put16 (off + 2 * k) (ip_checksum off len cleared) cleared) = 0"
proof -
  have "off + 2 * k + 2 \<le> length bs" using assms by linarith
  then have "get16 (off + 2 * k) (put16 (off + 2 * k) 0 bs) = 0" "length (put16 (off + 2 * k) 0 bs) = length bs"
    by (simp_all add: m16.get_put m16.put_length)
  with assms show ?thesis by (simp add: ip_checksum_field Let_def)
qed

theorem ip_checksum_verifies_witness:
  "let cleared = put16 10 0 (replicate 20 (7 :: u8))
   in ip_checksum 0 20 (put16 10 (ip_checksum 0 20 cleared) cleared) = 0"
  using ip_checksum_verifies[of 5 20 0 "replicate 20 7"] by simp

text \<open>
  What udp\_checksum computes: with an even length, and memory mapped where the numbers of the two
  addresses point, the checksum of a pseudo header that has the words found there in place of the
  addresses; with nothing mapped there it faults, as it does for an odd length unless the low
  addresses of the process are mapped.
\<close>

theorem udp_checksum_reads_addresses:
  assumes "off + len + 1 \<le> length bs"
  shows "(mem (ucast src) = None \<or> mem (ucast dst) = None \<longrightarrow> udp_checksum mem off bs len src dst = Inl OutOfBounds)
    \<and> ((\<forall>a < 65536. mem a = None) \<longrightarrow> len mod 2 = 1 \<longrightarrow> udp_checksum mem off bs len src dst = Inl OutOfBounds)
    \<and> (\<forall>s0 s1 d0 d1. read16 mem (ucast src) = Inr s0 \<longrightarrow> read16 mem (ucast src + 2) = Inr s1 \<longrightarrow>
        read16 mem (ucast dst) = Inr d0 \<longrightarrow> read16 mem (ucast dst + 2) = Inr d1 \<longrightarrow> len mod 2 = 0 \<longrightarrow>
        (\<exists>c. udp_checksum mem off bs len src dst = Inr c
          \<and> unat c = 65535 - oc_sum (unat s0 + unat s1 + unat d0 + unat d1 + unat (htons IPPROTO_UDP)
              + unat (htons (of_nat len)) + sum_list (map unat (get_array get16 2 (len div 2) off bs)))))"
proof (intro conjI impI allI)
  have r: "read16 mem a = Inl OutOfBounds \<or> (\<exists>w. read16 mem a = Inr w)" for a
    by (auto simp: read16_def read8_def split: option.splits)
  have f: "read16 mem a = Inl OutOfBounds" if "mem a = None" for a using that by (simp add: read16_def read8_def)
  show "udp_checksum mem off bs len src dst = Inl OutOfBounds" if "mem (ucast src) = None \<or> mem (ucast dst) = None"
    using that r[of "ucast src"] r[of "ucast src + 2"] f[of "ucast src"] f[of "ucast dst"]
    by (auto simp: udp_checksum_def)
  show "udp_checksum mem off bs len src dst = Inl OutOfBounds" if "\<forall>a < 65536. mem a = None" "len mod 2 = 1"
  proof -
    have "(ucast (w :: u16) :: u64) < 65536" for w
      using unat_u16[of w] by (simp add: word_less_nat_alt unsigned_ucast_eq take_bit_eq_mod)
    then have "read8 mem (ucast (w :: u16)) = Inl OutOfBounds" for w using that(1) by (simp add: read8_def)
    with that(2) r[of "ucast src"] r[of "ucast src + 2"] r[of "ucast dst"] r[of "ucast dst + 2"] show ?thesis
      by (auto simp: udp_checksum_def Let_def)
  qed
  fix s0 s1 d0 d1
  assume w: "read16 mem (ucast src) = Inr s0" "read16 mem (ucast src + 2) = Inr s1"
    "read16 mem (ucast dst) = Inr d0" "read16 mem (ucast dst + 2) = Inr d1" and even: "len mod 2 = 0"
  let ?ws = "get_array get16 2 (len div 2) off bs"
  let ?c0 = "fold_carry (ucast s0 + ucast s1 + ucast d0 + ucast d1 + ucast (htons IPPROTO_UDP) + ucast (htons (of_nat len))) :: u32"
  define n where "n = unat s0 + unat s1 + unat d0 + unat d1 + unat (htons IPPROTO_UDP) + unat (htons (of_nat len))"
  have c0: "unat ?c0 = oc_sum n" by (simp add: unat_fold_carry unat_pseudo n_def)
  then have c1: "unat (csum_loop ?ws ?c0) = oc_sum (n + sum_list (map unat ?ws))"
    using unat_csum_loop[of ?c0 ?ws] oc_sum_bound[of n] oc_sum_add by simp
  then have "unat (ucast (NOT (csum_loop ?ws ?c0)) :: u16) = 65535 - oc_sum (n + sum_list (map unat ?ws))"
    using oc_sum_bound by (simp add: unat_ucast_not)
  moreover have "udp_checksum mem off bs len src dst = Inr (ucast (NOT (csum_loop ?ws ?c0)))"
    using w even assms by (simp add: udp_checksum_def Let_def)
  ultimately show "\<exists>c. udp_checksum mem off bs len src dst = Inr c
      \<and> unat c = 65535 - oc_sum (unat s0 + unat s1 + unat d0 + unat d1 + unat (htons IPPROTO_UDP)
          + unat (htons (of_nat len)) + sum_list (map unat ?ws))"
    by (simp add: n_def)
qed

theorem udp_checksum_reads_addresses_witness:
  "udp_checksum (\<lambda>a. None) 0 (replicate 20 7) 16 0x0A000001 0x0A00000A = Inl OutOfBounds"
  using udp_checksum_reads_addresses[where off = 0 and len = 16 and bs = "replicate 20 7" and mem = "\<lambda>a. None"] by simp

end
