(* ===== verification/Iprp_Cache.thy ===== *)
theory Iprp_Cache
  imports Iprp_List
begin

text \<open>
  The pattern four components of the program share: a list of entries, each with a key and the
  time it was last seen, searched from the head; an event for a key updates the first entry with
  that key in place, or appends a new one; a periodic sweep deletes the entries that were not
  seen for longer than a limit.  The interface \<open>keyed_cache\<close> states what an event handler
  promises; what follows for every run of handlers and sweeps is proved once from it.  The
  receiver links (IRD), the active senders (IMD), the peer bases and the sender interfaces (ICD)
  interpret it.
\<close>

section \<open>Sweeping\<close>

text \<open>The test of every cleanup loop, \<open>curr_time - e->last_seen > TEXP\<close>.\<close>

definition aged :: "('e \<Rightarrow> time_t) \<Rightarrow> time_t \<Rightarrow> time_t \<Rightarrow> 'e \<Rightarrow> bool" where
  "aged seen texp now e \<longleftrightarrow> now - seen e > texp"

text \<open>The cleanup loop on the sequence of entries.\<close>

fun sweep :: "('e \<Rightarrow> bool) \<Rightarrow> 'e list \<Rightarrow> 'e list" where
  "sweep old [] = []"
| "sweep old (e # es) = (if old e then sweep old es else e # sweep old es)"

lemma sweep_filter: "sweep old es = filter (\<lambda>e. \<not> old e) es"
  by (induction es) auto

text \<open>The loop on the linked list computes it (src/lib/list.c), and the count the code returns is
  the number of entries that remain.\<close>

lemma sweep_loop_sweep:
  assumes "dll s xs" and "length xs < n"
  shows "\<exists>s' ys. sweep_loop it_elem it_next list_delete old n 0 s (list_head s) = Some (Inr (length ys, s'))
    \<and> dll s' ys \<and> map snd ys = sweep old (map snd xs)"
  using ll.sweep_list[OF assms, of old]
  by (auto simp: sweep_filter filter_map comp_def intro!: exI[of _ "filter (\<lambda>x. \<not> old (snd x)) xs"])

section \<open>Events and runs\<close>

datatype 'm cache_event = Event time_t 'm | Sweep time_t

fun cache_run ::
  "(time_t \<Rightarrow> 'm \<Rightarrow> 'e list \<Rightarrow> 'e list result) \<Rightarrow> ('e \<Rightarrow> time_t) \<Rightarrow> time_t
   \<Rightarrow> 'm cache_event list \<Rightarrow> 'e list \<Rightarrow> 'e list result" where
  "cache_run step seen texp [] es = Inr es"
| "cache_run step seen texp (Event t m # evs) es =
     and_then (step t m es) (\<lambda>es'. cache_run step seen texp evs es')"
| "cache_run step seen texp (Sweep t # evs) es =
     cache_run step seen texp evs (sweep (aged seen texp t) es)"

fun event_time :: "'m cache_event \<Rightarrow> time_t" where
  "event_time (Event t m) = t"
| "event_time (Sweep t) = t"

section \<open>The interface\<close>

locale keyed_cache =
  fixes key :: "'e \<Rightarrow> 'k"
    and seen :: "'e \<Rightarrow> time_t"
    and texp :: time_t
    and mkey :: "'m \<Rightarrow> 'k"
    and step :: "time_t \<Rightarrow> 'm \<Rightarrow> 'e list \<Rightarrow> 'e list result"
  assumes hit: "find_idx (\<lambda>e. key e = mkey m) es = Some i \<Longrightarrow> step t m es = Inr es' \<Longrightarrow>
      \<exists>e. es' = es[i := e] \<and> key e = mkey m \<and> seen e = t"
    and miss: "find_idx (\<lambda>e. key e = mkey m) es = None \<Longrightarrow> step t m es = Inr es' \<Longrightarrow>
      es' = es \<or> (\<exists>e. es' = es @ [e] \<and> key e = mkey m \<and> seen e = t)"
begin

lemma step_keys:
  assumes "step t m es = Inr es'"
  shows "map key es' = map key es \<or> map key es' = map key es @ [mkey m] \<and> mkey m \<notin> key ` set es"
proof (cases "find_idx (\<lambda>e. key e = mkey m) es")
  case None
  with miss[OF None assms] show ?thesis by (auto simp: find_idx_None)
next
  case (Some i)
  from hit[OF Some assms] obtain e where "es' = es[i := e]" "key e = mkey m" by blast
  moreover have i: "i < length es" "key (es ! i) = mkey m" using find_idx_Some[OF Some] by auto
  moreover have "(map key es)[i := mkey m] = map key es"
    using list_update_id[of "map key es" i] i by simp
  ultimately show ?thesis by (simp add: map_update)
qed

lemma step_distinct:
  "step t m es = Inr es' \<Longrightarrow> distinct (map key es) \<Longrightarrow> distinct (map key es')"
  using step_keys[of t m es es'] by auto

text \<open>Entries of other keys are not touched.\<close>

lemma step_other:
  assumes "step t m es = Inr es'"
  shows "filter (\<lambda>e. key e \<noteq> mkey m) es' = filter (\<lambda>e. key e \<noteq> mkey m) es"
proof (cases "find_idx (\<lambda>e. key e = mkey m) es")
  case None
  with miss[OF None assms] show ?thesis by auto
next
  case (Some i)
  from hit[OF Some assms] obtain e where es': "es' = es[i := e]" "key e = mkey m" by blast
  have i: "i < length es" "key (es ! i) = mkey m" using find_idx_Some[OF Some] by auto
  have "filter (\<lambda>e. key e \<noteq> mkey m) es
      = filter (\<lambda>e. key e \<noteq> mkey m) (take i es @ es ! i # drop (Suc i) es)"
    using id_take_nth_drop[OF i(1)] by simp
  with es' i show ?thesis by (simp add: upd_conv_take_nth_drop)
qed

text \<open>An event whose key is present leaves an entry of that key, seen now.\<close>

lemma step_seen:
  assumes "step t m es = Inr es'" and "mkey m \<in> key ` set es"
  shows "\<exists>e \<in> set es'. key e = mkey m \<and> seen e = t"
proof (cases "find_idx (\<lambda>e. key e = mkey m) es")
  case None
  with assms(2) show ?thesis by (force simp: find_idx_None)
next
  case (Some i)
  from hit[OF Some assms(1)] find_idx_Some[OF Some] show ?thesis
    by (metis set_update_memI)
qed

lemma sweep_distinct: "distinct (map key es) \<Longrightarrow> distinct (map key (sweep old es))"
  by (simp add: sweep_filter distinct_map_filter)

lemma run_distinct:
  "cache_run step seen texp evs es = Inr es' \<Longrightarrow> distinct (map key es) \<Longrightarrow> distinct (map key es')"
proof (induction evs arbitrary: es)
  case (Cons ev evs)
  then show ?case
    by (cases ev) (auto simp: and_then_eq_Inr sweep_distinct dest: step_distinct)
qed simp

text \<open>An entry survives every event and sweep until the limit after it was last seen.\<close>

lemma step_keeps:
  assumes "step t m es = Inr es'" and "e \<in> set es" and "seen e \<le> t"
  shows "\<exists>e' \<in> set es'. key e' = key e \<and> seen e \<le> seen e'"
proof (cases "key e = mkey m")
  case True
  with assms have "mkey m \<in> key ` set es" by force
  from step_seen[OF assms(1) this] True assms(3) show ?thesis by auto
next
  case False
  then have "e \<in> set (filter (\<lambda>e. key e \<noteq> mkey m) es')"
    using step_other[OF assms(1)] assms(2) by auto
  then show ?thesis by auto
qed

lemma run_keeps:
  "cache_run step seen texp evs es = Inr es' \<Longrightarrow> e \<in> set es \<Longrightarrow>
   \<forall>ev \<in> set evs. seen e \<le> event_time ev \<and> event_time ev - seen e \<le> texp \<Longrightarrow>
   sorted (map event_time evs) \<Longrightarrow> \<forall>e' \<in> set es. \<forall>ev \<in> set evs. seen e' \<le> event_time ev \<Longrightarrow>
   \<exists>e' \<in> set es'. key e' = key e \<and> seen e \<le> seen e'"
proof (induction evs arbitrary: es e)
  case Nil
  then show ?case by auto
next
  case (Cons ev evs)
  show ?case
  proof (cases ev)
    case (Event t m)
    with Cons.prems(1) obtain es1 where s: "step t m es = Inr es1"
      "cache_run step seen texp evs es1 = Inr es'" by (auto simp: and_then_eq_Inr)
    have new: "\<forall>e' \<in> set es1. e' \<in> set es \<or> seen e' = t"
    proof (cases "find_idx (\<lambda>e. key e = mkey m) es")
      case None
      with miss[OF None s(1)] show ?thesis by auto
    next
      case (Some i)
      with hit[OF Some s(1)] show ?thesis using set_update_subset_insert by fastforce
    qed
    from step_keeps[OF s(1) Cons.prems(2)] Cons.prems(3) Event obtain e1
      where e1: "e1 \<in> set es1" "key e1 = key e" "seen e \<le> seen e1" by auto
    have le: "\<forall>e' \<in> set es1. \<forall>v \<in> set evs. seen e' \<le> event_time v"
      using new Cons.prems(4,5) Event by auto
    have "\<forall>v \<in> set evs. seen e1 \<le> event_time v \<and> event_time v - seen e1 \<le> texp"
    proof
      fix v assume v: "v \<in> set evs"
      then have "event_time v - seen e \<le> texp" using Cons.prems(3) by auto
      with v le e1 show "seen e1 \<le> event_time v \<and> event_time v - seen e1 \<le> texp" by auto
    qed
    from Cons.IH[OF s(2) e1(1) this _ le] Cons.prems(4) e1 show ?thesis by auto
  next
    case (Sweep t)
    with Cons.prems have "e \<in> set (sweep (aged seen texp t) es)"
      by (auto simp: sweep_filter aged_def)
    with Cons.IH[of "sweep (aged seen texp t) es" e] Cons.prems Sweep show ?thesis
      by (auto simp: sweep_filter)
  qed
qed

end

end
