(* ===== verification/Iprp_Ird.thy ===== *)
theory Iprp_Ird
  imports Iprp_Packet Iprp_Dedup Iprp_Checksum Iprp_Cache
begin

text \<open>
  The packet handler of the receiving daemon (src/ird/handle.c): the receiver links, the
  reconstruction of the application's packet from the iPRP packet, the handler itself with the
  verdict it gives, and the cleanup of the links.  The links are the sequence of payloads of the
  linked list; \<open>bytes\<close> is the length of the packet, and any access past it is a fault.
\<close>

definition IRD_T_EXP :: time_t where "IRD_T_EXP = 120"

section \<open>Receiver links\<close>

text \<open>\<open>receiver_link_get\<close>: the first link whose 20 SNSID bytes are those of the header.\<close>

definition receiver_link_get :: "bytes \<Rightarrow> receiver_link list \<Rightarrow> nat option" where
  "receiver_link_get sid links = find_idx (\<lambda>l. rl_snsid l = sid) links"

text \<open>\<open>receiver_link_create\<close>; \<open>mem\<close> is whether \<open>malloc\<close> succeeds.\<close>

definition receiver_link_create :: "bool \<Rightarrow> bytes \<Rightarrow> u32 \<Rightarrow> time_t \<Rightarrow> receiver_link option" where
  "receiver_link_create mem sid seq_nb curr_time =
     (if mem then Some \<lparr>rl_src_addr = get32 0 sid, rl_src_port = get16 16 sid, rl_snsid = sid,
        list_sn = replicate IPRP_DD_MAX_LOST_PACKETS 0, high_sn = seq_nb, rl_last_seen = curr_time\<rparr>
      else None)"

section \<open>The application's packet\<close>

text \<open>
  \<open>payload_size = bytes - sizeof(struct iphdr) - sizeof(struct udphdr) - sizeof(iprp_header_t)\<close>
  in \<open>size_t\<close>: it wraps around on a packet that is too short.
\<close>

definition ird_payload_size :: "variant \<Rightarrow> bytes \<Rightarrow> u64" where
  "ird_payload_size v buf = of_nat (length buf) - of_nat iphdr_size - of_nat udphdr_size
     - of_nat (iprp_header_size v)"

definition create_new_packet :: "variant \<Rightarrow> bytes \<Rightarrow> u64 \<Rightarrow> in_addr \<Rightarrow> u16 \<Rightarrow> bytes result" where
  "create_new_packet v buf payload_size saddr sport =
     (let iprp = iphdr_size + udphdr_size;
          body = iprp + iprp_header_size v
      in if length buf < body + unat payload_size then Inl OutOfBounds
      else
       let b1 = put32 ip_saddr saddr buf;
           b2 = (case v of Unicast \<Rightarrow> put32 ip_daddr (get32 (iprp + hdr_dest_addr) b1) b1
                 | Multicast \<Rightarrow> b1);
           b3 = put16 ip_tot_len
                  (htons (ucast (payload_size + of_nat iphdr_size + of_nat udphdr_size))) b2;
           b4 = put16 ip_check 0 b3;
           b5 = put16 ip_check (ip_checksum 0 iphdr_size b4) b4;
           b6 = put16 udp_dest (htons (get16 (iprp + hdr_dest_port) b5)) b5;
           b7 = put16 udp_source (htons sport) b6;
           b8 = put16 udp_len (htons (ucast (payload_size + of_nat udphdr_size))) b7;
           b9 = put16 udp_check 0 b8
       in Inr (put_bytes iprp (get_bytes body (unat payload_size) b9) b9))"

section \<open>The handler\<close>

text \<open>The environment of one call: the queue of the IMD and whether the two allocations succeed.\<close>

record ird_env =
  imd_queue_id :: u32
  link_mem :: bool
  node_mem :: bool

text \<open>Find or create the link of the packet, and decide on the packet.  The result is the list,
  the link and the decision.\<close>

definition ird_link_step ::
  "ird_env \<Rightarrow> time_t \<Rightarrow> bytes \<Rightarrow> u32 \<Rightarrow> receiver_link list
   \<Rightarrow> (receiver_link list \<times> receiver_link \<times> bool) result" where
  "ird_link_step env curr_time sid seq_nb links =
     (case receiver_link_get sid links of
        None \<Rightarrow>
          (case receiver_link_create (link_mem env) sid seq_nb curr_time of
             None \<Rightarrow> Inl (Err ''Unable to create receiver link'')
           | Some l \<Rightarrow>
               and_then (guard (node_mem env) (Err ''Unable to allocate list element'')) (\<lambda>_.
               Inr (links @ [l], l, True)))
      | Some i \<Rightarrow>
          and_then (is_fresh_packet seq_nb ((links ! i)\<lparr>rl_last_seen := curr_time\<rparr>)) (\<lambda>(fresh, l).
          Inr (links[i := l], l, fresh)))"

definition ird_handle_packet ::
  "variant \<Rightarrow> ird_env \<Rightarrow> time_t \<Rightarrow> nfq_packet \<Rightarrow> receiver_link list
   \<Rightarrow> (receiver_link list \<times> verdict) result" where
  "ird_handle_packet v env curr_time packet links =
     and_then (get_payload packet) (\<lambda>buf.
     let iprp = iphdr_size + udphdr_size;
         payload_size = ird_payload_size v buf
     in and_then (guard (iprp + hdr_dest_port \<le> length buf) OutOfBounds) (\<lambda>_.
        and_then (ird_link_step env curr_time (get_raw IPRP_SNSID_SIZE (iprp + hdr_snsid) buf)
                    (get32 (iprp + hdr_seq_nb) buf) links) (\<lambda>(links', l, fresh).
        and_then (get_packet_id packet) (\<lambda>i.
        if fresh
        then and_then (create_new_packet v buf payload_size (rl_src_addr l) (rl_src_port l)) (\<lambda>new_packet.
             and_then (set_verdict packet i (NF_QUEUE OR push_bit 16 (imd_queue_id env))
                         (take (unat (payload_size + of_nat iphdr_size + of_nat udphdr_size)) new_packet)
                         ''Unable to set verdict to NF_QUEUE'') (\<lambda>vd.
             Inr (links', vd)))
        else and_then (set_verdict packet i NF_DROP buf ''Unable to set verdict to NF_DROP'') (\<lambda>vd.
             Inr (links', vd))))))"

text \<open>One pass of \<open>cleanup_routine\<close>.\<close>

definition ird_cleanup :: "time_t \<Rightarrow> receiver_link list \<Rightarrow> receiver_link list" where
  "ird_cleanup curr_time links = sweep (aged rl_last_seen IRD_T_EXP curr_time) links"

section \<open>Facts about the reconstruction\<close>

text \<open>Reading a halfword after writing it, or another one.\<close>

lemma get16_put16_same: "off + 2 \<le> length bs \<Longrightarrow> get16 off (put16 off x bs) = x"
  by (rule m16.get_put) auto

lemma get16_put16_other:
  "off + 2 \<le> length bs \<Longrightarrow> o' + 2 \<le> length bs \<Longrightarrow> o' + 2 \<le> off \<or> off + 2 \<le> o' \<Longrightarrow>
   get16 o' (put16 off x bs) = get16 o' bs"
  by (rule m16.get_put_other) auto

lemma ip_checksum_cong:
  assumes "get_bytes 0 20 bs = get_bytes 0 20 bs'" and "20 \<le> length bs" and "20 \<le> length bs'"
  shows "ip_checksum 0 20 bs = ip_checksum 0 20 bs'"
  using m16.array_local[of 0 10 bs 0 bs'] assms by (simp add: ip_checksum_def)

lemma unat_payload_size:
  assumes "28 + iprp_header_size v \<le> length buf" and "length buf < 65536"
  shows "unat (ird_payload_size v buf) = length buf - (28 + iprp_header_size v)"
proof -
  have e: "ird_payload_size v buf = of_nat (length buf - (28 + iprp_header_size v))"
    using assms by (simp add: ird_payload_size_def layout_defs of_nat_diff)
  show ?thesis unfolding e using assms by (simp add: unat_of_nat del: of_nat_diff)
qed

text \<open>
  The packet for the application, from a packet that holds an iPRP header: the headers in place
  with the fields rewritten and a valid checksum, followed by the payload.
\<close>

lemma create_new_packet_fields:
  assumes body: "28 + iprp_header_size v + unat n = length buf"
  shows "\<exists>r. create_new_packet v buf n saddr sport = Inr r
    \<and> length r = length buf
    \<and> get_bytes 28 (unat n) r = get_bytes (28 + iprp_header_size v) (unat n) buf
    \<and> get32 ip_saddr r = saddr
    \<and> get32 ip_daddr r = (case v of Unicast \<Rightarrow> get32 (28 + hdr_dest_addr) buf | Multicast \<Rightarrow> get32 ip_daddr buf)
    \<and> get16 ip_tot_len r = htons (ucast (n + 28))
    \<and> get16 udp_source r = htons sport
    \<and> get16 udp_dest r = htons (get16 (28 + hdr_dest_port) buf)
    \<and> get16 udp_len r = htons (ucast (n + 8))
    \<and> get16 udp_check r = 0
    \<and> ip_checksum 0 20 r = 0"
proof -
  define b1 where "b1 = put32 12 saddr buf"
  define b2 where "b2 = (case v of Unicast \<Rightarrow> put32 16 (get32 55 b1) b1 | Multicast \<Rightarrow> b1)"
  define b3 where "b3 = put16 2 (htons (ucast (n + 28))) b2"
  define b4 where "b4 = put16 10 0 b3"
  define b5 where "b5 = put16 10 (ip_checksum 0 20 b4) b4"
  define b6 where "b6 = put16 22 (htons (get16 53 b5)) b5"
  define b7 where "b7 = put16 20 (htons sport) b6"
  define b8 where "b8 = put16 24 (htons (ucast (n + 8))) b7"
  define b9 where "b9 = put16 26 0 b8"
  define r where "r = put_bytes 28 (get_bytes (28 + iprp_header_size v) (unat n) b9) b9"
  have L: "216 \<le> length buf" using body iprp_header_size_cases[of v] by auto
  have l1: "length b1 = length buf" using L by (simp add: b1_def m32.put_length)
  have l2: "length b2 = length buf" using L l1 by (simp add: b2_def m32.put_length split: variant.split)
  have l3: "length b3 = length buf" using L l2 by (simp add: b3_def m16.put_length)
  have l4: "length b4 = length buf" using L l3 by (simp add: b4_def m16.put_length)
  have l5: "length b5 = length buf" using L l4 by (simp add: b5_def m16.put_length)
  have l6: "length b6 = length buf" using L l5 by (simp add: b6_def m16.put_length)
  have l7: "length b7 = length buf" using L l6 by (simp add: b7_def m16.put_length)
  have l8: "length b8 = length buf" using L l7 by (simp add: b8_def m16.put_length)
  have l9: "length b9 = length buf" using L l8 by (simp add: b9_def m16.put_length)
  have lp: "length (get_bytes (28 + iprp_header_size v) (unat n) b9) = unat n"
    using body l9 by (simp add: length_get_bytes)
  have lr: "length r = length buf" using body l9 lp by (simp add: r_def length_put_bytes)
  have run: "create_new_packet v buf n saddr sport = Inr r"
    using body by (cases v) (simp_all add: create_new_packet_def layout_defs Let_def r_def b9_def
        b8_def b7_def b6_def b5_def b4_def b3_def b2_def b1_def add.assoc)
  text \<open>Reads at one place after the writes at the others.\<close>
  have keep: "get_bytes o' k b9 = get_bytes o' k buf" if "28 \<le> o'" for o' k
    using that L l1 l2 l3 l4 l5 l6 l7 l8
    by (simp add: b9_def b8_def b7_def b6_def b5_def b4_def b3_def b2_def b1_def m16.put_frame
        m32.put_frame split: variant.split)
  have keep5: "get_bytes o' k b5 = get_bytes o' k buf" if "28 \<le> o'" for o' k
    using that L l1 l2 l3 l4
    by (simp add: b5_def b4_def b3_def b2_def b1_def m16.put_frame m32.put_frame split: variant.split)
  have keep1: "get_bytes 55 4 b1 = get_bytes 55 4 buf"
    using L by (simp add: b1_def m32.put_frame)
  have hd: "get_bytes o' k r = get_bytes o' k b9" if "o' + k \<le> 28" for o' k
    using that body l9 lp by (simp add: r_def get_put_before)
  have hd5: "get_bytes o' k r = get_bytes o' k b5" if "o' + k \<le> 20" for o' k
    using that hd[of o' k] L l5 l6 l7 l8
    by (simp add: b9_def b8_def b7_def b6_def m16.put_frame)
  have z: "get16 10 b4 = 0" using L l3 by (simp add: b4_def m16.get_put)
  have "ip_checksum 0 20 r = ip_checksum 0 20 b5"
    using hd5[of 0 20] lr l5 L by (intro ip_checksum_cong) auto
  then have "ip_checksum 0 20 r = 0" using ip_checksum_field[of 5 20 0 b4] z l4 L by (simp add: b5_def)
  moreover have "get32 12 r = saddr"
    using hd5[of 12 4] L l1 l2 l3 l4
    by (simp add: get32_def b5_def b4_def b3_def b2_def b1_def m16.put_frame m32.put_frame
        put32_def mem_simps split: variant.split)
  moreover have "get32 16 r = (case v of Unicast \<Rightarrow> get32 55 buf | Multicast \<Rightarrow> get32 16 buf)"
    using hd5[of 16 4] L l1 l2 l3 l4 keep1
    by (simp add: get32_def b5_def b4_def b3_def b2_def m16.put_frame split: variant.split)
       (simp add: b1_def put32_def mem_simps)
  moreover have "get16 2 r = htons (ucast (n + 28))"
    using hd5[of 2 2] L l2 l3 l4
    by (simp add: get16_def b5_def b4_def b3_def m16.put_frame) (simp add: put16_def mem_simps)
  moreover have "get16 20 r = htons sport"
    using hd[of 20 2] L l6 l7 l8
    by (simp add: get16_def b9_def b8_def b7_def m16.put_frame) (simp add: put16_def mem_simps)
  moreover have "get16 22 r = htons (get16 53 buf)"
    using hd[of 22 2] L l5 l6 l7 l8 keep5[of 53 2]
    by (simp add: get16_def b9_def b8_def b7_def b6_def m16.put_frame) (simp add: put16_def mem_simps)
  moreover have "get16 24 r = htons (ucast (n + 8))"
    using hd[of 24 2] L l7 l8
    by (simp add: get16_def b9_def b8_def m16.put_frame) (simp add: put16_def mem_simps)
  moreover have "get16 26 r = 0"
    using hd[of 26 2] L l8 by (simp add: get16_def b9_def) (simp add: put16_def mem_simps)
  moreover have "get_bytes 28 (unat n) r = get_bytes (28 + iprp_header_size v) (unat n) buf"
    using body l9 lp keep[of "28 + iprp_header_size v" "unat n"] by (simp add: r_def get_put_same)
  ultimately show ?thesis using run lr by (cases v) (simp_all add: layout_defs)
qed

section \<open>The links as a cache\<close>

text \<open>A message of the handler: its environment and the packet; its key is the SNSID.\<close>

type_synonym ird_msg = "ird_env \<times> nfq_packet"

fun ird_mkey :: "ird_msg \<Rightarrow> bytes" where
  "ird_mkey (env, p) = (case nfq_payload p of None \<Rightarrow> [] | Some b \<Rightarrow> get_raw 20 29 b)"

definition ird_step :: "variant \<Rightarrow> time_t \<Rightarrow> ird_msg \<Rightarrow> receiver_link list \<Rightarrow> receiver_link list result" where
  "ird_step v t m links = and_then (ird_handle_packet v (fst m) t (snd m) links) (\<lambda>(links', vd). Inr links')"

lemma is_fresh_packet_frame:
  "is_fresh_packet s l = Inr (b, l') \<Longrightarrow>
   rl_snsid l' = rl_snsid l \<and> rl_last_seen l' = rl_last_seen l
   \<and> rl_src_addr l' = rl_src_addr l \<and> rl_src_port l' = rl_src_port l"
  by (auto simp: is_fresh_packet_def Let_def and_then_eq_Inr split: if_splits)

lemma receiver_link_create_Some:
  "receiver_link_create mem sid s t = Some l \<Longrightarrow>
   rl_snsid l = sid \<and> rl_last_seen l = t \<and> starts_at s l
   \<and> rl_src_addr l = get32 0 sid \<and> rl_src_port l = get16 16 sid"
  by (auto simp: receiver_link_create_def starts_at_def IPRP_DD_MAX_LOST_PACKETS_def split: if_splits)

lemma ird_link_step_cases:
  assumes "ird_link_step env t sid s links = Inr (links', l, fresh)"
  obtains (new) "receiver_link_get sid links = None" "links' = links @ [l]" "fresh"
      "receiver_link_create (link_mem env) sid s t = Some l"
    | (known) i where "receiver_link_get sid links = Some i" "links' = links[i := l]"
      "is_fresh_packet s ((links ! i)\<lparr>rl_last_seen := t\<rparr>) = Inr (fresh, l)"
  using assms by (auto simp: ird_link_step_def and_then_eq_Inr split: option.splits)

text \<open>What a call that returns did.\<close>

lemma ird_handle_packet_link:
  assumes "ird_handle_packet v env t p links = Inr (links', vd)"
  obtains buf l fresh where "nfq_payload p = Some buf" "53 \<le> length buf"
    "ird_link_step env t (get_raw 20 29 buf) (get32 49 buf) links = Inr (links', l, fresh)"
    "fresh \<longrightarrow> vd_code vd = NF_QUEUE OR push_bit 16 (imd_queue_id env)"
    "\<not> fresh \<longrightarrow> vd_code vd = NF_DROP \<and> vd_data vd = buf"
  using assms
  by (auto simp: ird_handle_packet_def get_payload_def and_then_eq_Inr layout_defs Let_def
      set_verdict_def iprp_consts split: option.splits if_splits)

lemma ird_step_hit:
  assumes "find_idx (\<lambda>l. rl_snsid l = ird_mkey m) links = Some i" and "ird_step v t m links = Inr links'"
  shows "\<exists>l. links' = links[i := l] \<and> rl_snsid l = ird_mkey m \<and> rl_last_seen l = t"
proof -
  obtain env p where m: "m = (env, p)" by (cases m)
  from assms(2) m obtain vd where "ird_handle_packet v env t p links = Inr (links', vd)"
    by (auto simp: ird_step_def and_then_eq_Inr)
  then obtain buf l fresh where b: "nfq_payload p = Some buf"
    "ird_link_step env t (get_raw 20 29 buf) (get32 49 buf) links = Inr (links', l, fresh)"
    by (rule ird_handle_packet_link)
  from b(2) show ?thesis
  proof (cases rule: ird_link_step_cases)
    case new
    with assms(1) b(1) m show ?thesis by (simp add: receiver_link_get_def)
  next
    case (known j)
    with assms(1) b(1) m have "j = i" by (simp add: receiver_link_get_def)
    with known is_fresh_packet_frame[OF known(3)] find_idx_Some[OF assms(1)] show ?thesis by auto
  qed
qed

lemma ird_step_miss:
  assumes "find_idx (\<lambda>l. rl_snsid l = ird_mkey m) links = None" and "ird_step v t m links = Inr links'"
  shows "\<exists>l. links' = links @ [l] \<and> rl_snsid l = ird_mkey m \<and> rl_last_seen l = t"
proof -
  obtain env p where m: "m = (env, p)" by (cases m)
  from assms(2) m obtain vd where "ird_handle_packet v env t p links = Inr (links', vd)"
    by (auto simp: ird_step_def and_then_eq_Inr)
  then obtain buf l fresh where b: "nfq_payload p = Some buf"
    "ird_link_step env t (get_raw 20 29 buf) (get32 49 buf) links = Inr (links', l, fresh)"
    by (rule ird_handle_packet_link)
  from b(2) show ?thesis
  proof (cases rule: ird_link_step_cases)
    case new
    with receiver_link_create_Some[OF new(4)] b(1) m show ?thesis by auto
  next
    case (known j)
    with assms(1) b(1) m show ?thesis by (simp add: receiver_link_get_def)
  qed
qed

interpretation ird: keyed_cache rl_snsid rl_last_seen IRD_T_EXP ird_mkey "ird_step v" for v
  by unfold_locales (auto dest: ird_step_hit ird_step_miss)

section \<open>Runs of the handler\<close>

text \<open>The thread's loop over packets, each with the time it is handled at.\<close>

definition ird_callback ::
  "variant \<Rightarrow> time_t \<times> ird_env \<times> nfq_packet \<Rightarrow> receiver_link list \<Rightarrow> (receiver_link list \<times> verdict) result" where
  "ird_callback v m links = ird_handle_packet v (fst (snd m)) (fst m) (snd (snd m)) links"

definition ird_handle_routine ::
  "variant \<Rightarrow> (time_t \<times> ird_env \<times> nfq_packet) recv_outcome list \<Rightarrow> receiver_link list
   \<Rightarrow> (receiver_link list \<times> verdict list) result" where
  "ird_handle_routine v = handle_loop ''Unable to retrieve packet from IRD queue'' (ird_callback v)"

text \<open>The whole thread: the queue, the empty list, the cleanup thread, the loop.\<close>

definition ird_thread ::
  "variant \<Rightarrow> nfq_calls \<Rightarrow> bool \<Rightarrow> (time_t \<times> ird_env \<times> nfq_packet) recv_outcome list
   \<Rightarrow> (receiver_link list \<times> verdict list) result" where
  "ird_thread v calls cleanup_ok rs =
     and_then (queue_setup calls) (\<lambda>fd.
     and_then (guard cleanup_ok (Err ''Unable to setup cleanup thread'')) (\<lambda>_.
     ird_handle_routine v rs []))"

fun msg_snsid :: "time_t \<times> ird_env \<times> nfq_packet \<Rightarrow> bytes" where
  "msg_snsid (t, env, p) = ird_mkey (env, p)"

fun msg_seq_nb :: "time_t \<times> ird_env \<times> nfq_packet \<Rightarrow> u32" where
  "msg_seq_nb (t, env, p) = (case nfq_payload p of None \<Rightarrow> 0 | Some b \<Rightarrow> get32 49 b)"

declare msg_snsid.simps [simp del] msg_seq_nb.simps [simp del]

text \<open>The sequence numbers of the packets of one sender that were forwarded to the application.\<close>

definition forwarded ::
  "bytes \<Rightarrow> (time_t \<times> ird_env \<times> nfq_packet) list \<Rightarrow> verdict list \<Rightarrow> u32 list" where
  "forwarded sid ms vds =
     map (msg_seq_nb \<circ> fst) (filter (\<lambda>(m, vd). msg_snsid m = sid \<and> vd_code vd \<noteq> NF_DROP) (zip ms vds))"

lemma forwarded_simps [simp]:
  "forwarded sid [] vds = []"
  "forwarded sid (m # ms) (vd # vds) =
     (if msg_snsid m = sid \<and> vd_code vd \<noteq> NF_DROP then msg_seq_nb m # forwarded sid ms vds
      else forwarded sid ms vds)"
  by (auto simp: forwarded_def)

lemma queue_verdict_not_drop: "NF_QUEUE OR push_bit 16 q \<noteq> NF_DROP"
proof
  assume "NF_QUEUE OR push_bit 16 q = NF_DROP"
  then have "bit (NF_QUEUE OR push_bit 16 q) 0 = bit NF_DROP 0" by simp
  then show False by (simp add: NF_QUEUE_def NF_DROP_def bit_simps)
qed

text \<open>The numbers of the packets of one sender, in the order they arrived.\<close>

definition arrivals :: "bytes \<Rightarrow> (time_t \<times> ird_env \<times> nfq_packet) list \<Rightarrow> u32 list" where
  "arrivals sid ms = map msg_seq_nb (filter (\<lambda>m. msg_snsid m = sid) ms)"

lemma arrivals_simps [simp]:
  "arrivals sid [] = []"
  "arrivals sid (m # ms) = (if msg_snsid m = sid then [msg_seq_nb m] else []) @ arrivals sid ms"
  by (simp_all add: arrivals_def)

text \<open>The link of a sender after the arrivals \<open>ps\<close>, of which \<open>A\<close> were forwarded.\<close>

definition link_inv :: "bytes \<Rightarrow> u32 set \<Rightarrow> u32 list \<Rightarrow> receiver_link list \<Rightarrow> bool" where
  "link_inv sid A ps links \<longleftrightarrow> (case receiver_link_get sid links of
     None \<Rightarrow> A = {} \<and> ps = []
   | Some i \<Rightarrow> ps \<noteq> [] \<and> hd ps \<in> A \<and> dd_inv (hd ps) A (set ps) (links ! i))"

lemma dd_inv_last_seen [simp]: "dd_inv s0 A P (l\<lparr>rl_last_seen := t\<rparr>) = dd_inv s0 A P l"
  by (simp add: dd_inv_def)

lemma link_inv_step:
  assumes inv: "link_inv sid A ps links"
    and run: "ird_handle_packet v env t p links = Inr (links', vd)"
    and ok: "msg_snsid (t, env, p) = sid \<longrightarrow> sn_ok (msg_seq_nb (t, env, p))"
  shows "link_inv sid
      (if msg_snsid (t, env, p) = sid \<and> vd_code vd \<noteq> NF_DROP
       then insert (msg_seq_nb (t, env, p)) A else A)
      (ps @ arrivals sid [(t, env, p)]) links'
    \<and> (msg_snsid (t, env, p) = sid \<and> vd_code vd \<noteq> NF_DROP \<longrightarrow> msg_seq_nb (t, env, p) \<notin> A)"
  using run
proof (rule ird_handle_packet_link)
  fix buf l fresh
  let ?sid = "get_raw 20 29 buf" and ?s = "get32 49 buf"
  assume b: "nfq_payload p = Some buf" and st: "ird_link_step env t ?sid ?s links = Inr (links', l, fresh)"
    and vq: "fresh \<longrightarrow> vd_code vd = NF_QUEUE OR push_bit 16 (imd_queue_id env)"
    and vdrop: "\<not> fresh \<longrightarrow> vd_code vd = NF_DROP \<and> vd_data vd = buf"
  have fwd: "vd_code vd \<noteq> NF_DROP \<longleftrightarrow> fresh" using vq vdrop queue_verdict_not_drop by metis
  have m: "msg_snsid (t, env, p) = ?sid" "msg_seq_nb (t, env, p) = ?s"
    using b by (auto simp: msg_snsid.simps msg_seq_nb.simps)
  show ?thesis
    using st
  proof (cases rule: ird_link_step_cases)
    case new
    from receiver_link_create_Some[OF new(4)] have l: "rl_snsid l = ?sid" "starts_at ?s l" by auto
    show ?thesis
    proof (cases "?sid = sid")
      case True
      with ok m have "?s \<noteq> 0" by (auto simp: sn_ok_def)
      with dd_inv_start[OF l(2)] have "dd_inv ?s {?s} {?s} l" by simp
      with True new inv m l fwd show ?thesis
        by (auto simp: link_inv_def receiver_link_get_def find_idx_append)
    next
      case False
      have get: "receiver_link_get sid links' = receiver_link_get sid links"
        using False new(2) l by (auto simp: receiver_link_get_def find_idx_append split: option.splits)
      have "links' ! j = links ! j" if "receiver_link_get sid links = Some j" for j
        using that find_idx_Some[of _ links j] new(2) by (auto simp: receiver_link_get_def nth_append)
      with False get inv m show ?thesis by (auto simp: link_inv_def split: option.splits)
    qed
  next
    case (known i)
    have i: "i < length links" "rl_snsid (links ! i) = ?sid"
      using known(1) find_idx_Some[of _ links i] by (auto simp: receiver_link_get_def)
    have lk: "rl_snsid l = ?sid" using is_fresh_packet_frame[OF known(3)] i by simp
    have get: "receiver_link_get sid links' = receiver_link_get sid links"
      using known(2) i lk by (simp add: receiver_link_get_def find_idx_update)
    show ?thesis
    proof (cases "?sid = sid")
      case True
      with inv known(1) have d: "ps \<noteq> []" "hd ps \<in> A" "dd_inv (hd ps) A (set ps) ((links ! i)\<lparr>rl_last_seen := t\<rparr>)"
        by (auto simp: link_inv_def)
      from is_fresh_packet_inv[OF d(3), of ?s] ok m True known(3)
      have "dd_inv (hd ps) (if fresh then insert ?s A else A) (insert ?s (set ps)) l" "fresh \<longrightarrow> ?s \<notin> A"
        by (auto simp: sn_ok_def)
      moreover have "links' ! i = l" using known(2) i by simp
      ultimately show ?thesis using True get known(1) m fwd d(1,2)
        by (cases fresh) (auto simp: link_inv_def)
    next
      case False
      have "links' ! j = links ! j" if "receiver_link_get sid links = Some j" for j
      proof -
        have "rl_snsid (links ! j) = sid"
          using that find_idx_Some[of _ links j] by (auto simp: receiver_link_get_def)
        with False i known(2) show ?thesis by (cases "j = i") auto
      qed
      with False get inv m show ?thesis by (auto simp: link_inv_def split: option.splits)
    qed
  qed
qed

lemma ird_run_forwarded:
  "ird_handle_routine v (map RecvPacket ms) links = Inr (links', vds) \<Longrightarrow> link_inv sid A ps links \<Longrightarrow>
   \<forall>m \<in> set ms. msg_snsid m = sid \<longrightarrow> sn_ok (msg_seq_nb m) \<Longrightarrow>
   length vds = length ms \<and> distinct (forwarded sid ms vds) \<and> set (forwarded sid ms vds) \<inter> A = {}
   \<and> link_inv sid (A \<union> set (forwarded sid ms vds)) (ps @ arrivals sid ms) links'"
proof (induction ms arbitrary: links vds A ps)
  case Nil
  then show ?case by (simp add: ird_handle_routine_def)
next
  case (Cons m ms)
  obtain t env p where m: "m = (t, env, p)" by (cases m)
  from Cons.prems(1) m obtain links1 vd vds1 where
    run: "ird_handle_packet v env t p links = Inr (links1, vd)" and vds: "vds = vd # vds1"
    and rest: "ird_handle_routine v (map RecvPacket ms) links1 = Inr (links', vds1)"
    by (auto simp: ird_handle_routine_def ird_callback_def get_and_handle_def and_then_eq_Inr
        IPRP_ERR_def split: if_splits)
  let ?A = "if msg_snsid m = sid \<and> vd_code vd \<noteq> NF_DROP then insert (msg_seq_nb m) A else A"
  have "msg_snsid (t, env, p) = sid \<longrightarrow> sn_ok (msg_seq_nb (t, env, p))" using Cons.prems(3) m by simp
  from link_inv_step[OF Cons.prems(2) run this, folded m]
  have i: "link_inv sid ?A (ps @ arrivals sid [m]) links1" "msg_snsid m = sid \<and> vd_code vd \<noteq> NF_DROP \<longrightarrow> msg_seq_nb m \<notin> A"
    by blast+
  from Cons.IH[OF rest i(1)] Cons.prems(3)
  have "length vds1 = length ms \<and> distinct (forwarded sid ms vds1) \<and> set (forwarded sid ms vds1) \<inter> ?A = {}
      \<and> link_inv sid (?A \<union> set (forwarded sid ms vds1)) ((ps @ arrivals sid [m]) @ arrivals sid ms) links'"
    by simp
  moreover have "?A \<union> set (forwarded sid ms vds1) = A \<union> set (forwarded sid (m # ms) (vd # vds1))" by auto
  ultimately show ?case using i(2) vds by (auto split: if_splits)
qed

text \<open>
  A message on which the library and the allocator succeed, and which is long enough to hold the
  headers.
\<close>

definition ird_msg_ok :: "variant \<Rightarrow> time_t \<times> ird_env \<times> nfq_packet \<Rightarrow> bool" where
  "ird_msg_ok v m \<longleftrightarrow>
     (case nfq_payload (snd (snd m)) of None \<Rightarrow> False
      | Some b \<Rightarrow> 28 + iprp_header_size v \<le> length b \<and> length b < 65536)
     \<and> nfq_id (snd (snd m)) \<noteq> None \<and> nfq_verdict_ok (snd (snd m))
     \<and> link_mem (fst (snd m)) \<and> node_mem (fst (snd m))"

lemma ird_msg_okD:
  assumes "ird_msg_ok v (t, env, p)"
  obtains b i where "p = nfq_good b i" "28 + iprp_header_size v \<le> length b" "length b < 65536"
    "link_mem env" "node_mem env"
proof -
  from assms obtain b i where "nfq_payload p = Some b" "nfq_id p = Some i" "nfq_verdict_ok p"
    and r: "28 + iprp_header_size v \<le> length b" "length b < 65536" "link_mem env" "node_mem env"
    by (auto simp: ird_msg_ok_def split: option.splits)
  then have "p = nfq_good b i" by (simp add: nfq_good_def)
  with r that show thesis by blast
qed

lemma ird_handle_good:
  assumes "28 + iprp_header_size v \<le> length b" and "length b < 65536"
    and st: "ird_link_step env t (get_raw 20 29 b) (get32 49 b) links = Inr (links', l, fresh)"
  shows "\<exists>vd. ird_handle_packet v env t (nfq_good b i) links = Inr (links', vd)
    \<and> (fresh \<longrightarrow> vd_code vd = NF_QUEUE OR push_bit 16 (imd_queue_id env))
    \<and> (\<not> fresh \<longrightarrow> vd_code vd = NF_DROP)"
proof -
  have n: "28 + iprp_header_size v + unat (ird_payload_size v b) = length b"
    using unat_payload_size[OF assms(1,2)] assms(1) by simp
  from create_new_packet_fields[OF n, of "rl_src_addr l" "rl_src_port l"] obtain r
    where "create_new_packet v b (ird_payload_size v b) (rl_src_addr l) (rl_src_port l) = Inr r" by blast
  moreover have "53 \<le> length b" using assms(1) iprp_header_size_cases[of v] by auto
  ultimately show ?thesis using st
    by (simp add: ird_handle_packet_def layout_defs iprp_consts Let_def)
qed

definition links_inv :: "receiver_link list \<Rightarrow> bool" where
  "links_inv links \<longleftrightarrow> (\<forall>l \<in> set links. \<exists>s0 A P. dd_inv s0 A P l)"

lemma ird_handle_total:
  assumes inv: "links_inv links" and ok: "ird_msg_ok v (t, env, p)" and s: "sn_ok (msg_seq_nb (t, env, p))"
  shows "\<exists>links' vd. ird_handle_packet v env t p links = Inr (links', vd) \<and> links_inv links'"
proof -
  from ok obtain b i where b: "p = nfq_good b i" "28 + iprp_header_size v \<le> length b" "length b < 65536"
    and mem: "link_mem env" "node_mem env" by (rule ird_msg_okD)
  let ?sid = "get_raw 20 29 b" and ?s = "get32 49 b"
  have s': "?s \<noteq> 0" "unat ?s < 2147483648"
    using s b(1) by (simp_all add: msg_seq_nb.simps nfq_good_def sn_ok_def)
  have "\<exists>links' l fresh. ird_link_step env t ?sid ?s links = Inr (links', l, fresh) \<and> links_inv links'"
  proof (cases "receiver_link_get ?sid links")
    case None
    obtain l where l: "receiver_link_create True ?sid ?s t = Some l"
      by (simp add: receiver_link_create_def)
    from receiver_link_create_Some[OF l] have "dd_inv ?s {?s} {?s} l"
      using s' by (intro dd_inv_start) auto
    with None l mem inv show ?thesis by (auto simp: ird_link_step_def links_inv_def)
  next
    case (Some k)
    then have "links ! k \<in> set links" using find_idx_Some[of _ links k] by (simp add: receiver_link_get_def)
    with inv obtain s0 A P where "dd_inv s0 A P ((links ! k)\<lparr>rl_last_seen := t\<rparr>)"
      by (auto simp: links_inv_def)
    from is_fresh_packet_inv[OF this s'] obtain fresh l where
      "is_fresh_packet ?s ((links ! k)\<lparr>rl_last_seen := t\<rparr>) = Inr (fresh, l)"
      "dd_inv s0 (if fresh then insert ?s A else A) (insert ?s P) l" by blast
    moreover from this(2) inv have "links_inv (links[k := l])"
      using set_update_subset_insert[of links k l] unfolding links_inv_def by blast
    ultimately show ?thesis using Some by (simp add: ird_link_step_def)
  qed
  with ird_handle_good[OF b(2,3)] b(1) show ?thesis by blast
qed

lemma ird_routine_Cons:
  "ird_handle_routine v (map RecvPacket (m # ms)) links =
     and_then (ird_handle_packet v (fst (snd m)) (fst m) (snd (snd m)) links) (\<lambda>(links', vd).
     and_then (ird_handle_routine v (map RecvPacket ms) links') (\<lambda>(links'', vds). Inr (links'', vd # vds)))"
  by (auto simp: ird_handle_routine_def ird_callback_def get_and_handle_def IPRP_ERR_def and_then_def
      split: sum.splits)

lemma ird_run_total:
  "links_inv links \<Longrightarrow> \<forall>m \<in> set ms. ird_msg_ok v m \<and> sn_ok (msg_seq_nb m) \<Longrightarrow>
   \<exists>links' vds. ird_handle_routine v (map RecvPacket ms) links = Inr (links', vds)"
proof (induction ms arbitrary: links)
  case Nil
  then show ?case by (simp add: ird_handle_routine_def)
next
  case (Cons m ms)
  obtain t env p where m: "m = (t, env, p)" by (cases m)
  with Cons.prems ird_handle_total[OF Cons.prems(1), of v t env p] obtain links1 vd where
    "ird_handle_packet v env t p links = Inr (links1, vd)" "links_inv links1" by auto
  with Cons.IH[of links1] Cons.prems m show ?case unfolding ird_routine_Cons by auto
qed

section \<open>Properties\<close>

lemma ird_run_from_start:
  assumes "\<forall>m \<in> set ms. ird_msg_ok v m \<and> sn_ok (msg_seq_nb m)"
  obtains links vds where "ird_handle_routine v (map RecvPacket ms) [] = Inr (links, vds)"
    "length vds = length ms" "distinct (forwarded sid ms vds)"
    "link_inv sid (set (forwarded sid ms vds)) (arrivals sid ms) links"
proof -
  from ird_run_total[of "[]" ms v] assms obtain links vds where
    r: "ird_handle_routine v (map RecvPacket ms) [] = Inr (links, vds)" by (auto simp: links_inv_def)
  have "link_inv sid {} [] []" by (simp add: link_inv_def receiver_link_get_def)
  from ird_run_forwarded[OF r this] assms r that show ?thesis by simp
qed

lemma dd_inv_recent:
  assumes "dd_inv s0 A P l" and "s \<in> P" and "s0 < s" and "\<forall>s' \<in> P. unat s' \<le> unat s + 1024"
  shows "s \<in> A"
proof -
  from assms(1) have "high_sn l \<in> P" "\<forall>p \<in> P. s0 < p \<and> unat (high_sn l) \<le> unat p + 1024 \<longrightarrow> p \<in> A"
    by (auto simp: dd_inv_def)
  with assms(2-4) show ?thesis by blast
qed

lemma link_inv_recent:
  assumes "link_inv sid A ps links" and "s \<in> set ps" and "hd ps \<le> s"
    and "\<forall>s' \<in> set ps. unat s' \<le> unat s + 1024"
  shows "s \<in> A"
  using assms dd_inv_recent[of "hd ps" A "set ps" _ s]
  by (cases "s = hd ps") (auto simp: link_inv_def split: option.splits)

lemma ird_delivers_once:
  assumes "\<forall>m \<in> set ms. ird_msg_ok v m \<and> sn_ok (msg_seq_nb m)"
  shows "\<exists>links vds. ird_handle_routine v (map RecvPacket ms) [] = Inr (links, vds)
     \<and> length vds = length ms \<and> distinct (forwarded sid ms vds)
     \<and> set (forwarded sid ms vds) \<subseteq> set (arrivals sid ms)
     \<and> (\<forall>s \<in> set (arrivals sid ms). hd (arrivals sid ms) \<le> s
          \<and> (\<forall>s' \<in> set (arrivals sid ms). unat s' \<le> unat s + 1024) \<longrightarrow> s \<in> set (forwarded sid ms vds))"
proof -
  from ird_run_from_start[OF assms, of sid] obtain links vds where
    r: "ird_handle_routine v (map RecvPacket ms) [] = Inr (links, vds)" "length vds = length ms"
      "distinct (forwarded sid ms vds)" "link_inv sid (set (forwarded sid ms vds)) (arrivals sid ms) links" .
  from r(4) have "set (forwarded sid ms vds) \<subseteq> set (arrivals sid ms)"
    by (auto simp: link_inv_def dd_inv_def split: option.splits)
  with r link_inv_recent[OF r(4)] show ?thesis by blast
qed


definition example_packet :: "u32 \<Rightarrow> nat \<Rightarrow> bytes" where
  "example_packet s n = replicate 49 0 @ le32 s @ replicate n 0"

definition example_env :: ird_env where
  "example_env = \<lparr>imd_queue_id = 7, link_mem = True, node_mem = True\<rparr>"

lemma example_seq_nb: "msg_seq_nb (t, env, nfq_good (example_packet s n) i) = s"
  by (simp add: msg_seq_nb.simps nfq_good_def example_packet_def get32_def get_bytes_def)

lemma example_snsid: "msg_snsid (t, env, nfq_good (example_packet s n) i) = replicate 20 0"
  by (simp add: msg_snsid.simps nfq_good_def example_packet_def get_raw_def get_bytes_def)

lemma example_msg_ok:
  "200 \<le> n \<Longrightarrow> n < 60000 \<Longrightarrow> ird_msg_ok v (t, example_env, nfq_good (example_packet s n) i)"
  using iprp_header_size_cases[of v]
  by (auto simp: ird_msg_ok_def nfq_good_def example_env_def example_packet_def)

definition example_arrivals :: "(time_t \<times> ird_env \<times> nfq_packet) list" where
  "example_arrivals = map (\<lambda>(t, s). (t, example_env, nfq_good (example_packet s 200) 0)) [(0, 1), (1, 1), (1, 2)]"

lemma example_arrivals_ok:
  "\<forall>m \<in> set example_arrivals. ird_msg_ok v m \<and> sn_ok (msg_seq_nb m)"
  "arrivals (replicate 20 0) example_arrivals = [1, 1, 2]"
  by (simp_all add: example_arrivals_def example_msg_ok example_seq_nb example_snsid sn_ok_def)




text \<open>
  A packet of an unknown sender that is too short to hold the iPRP header is not rejected:
  the payload size wraps around and the move of the payload leaves the packet.
\<close>

theorem ird_short_packet_out_of_bounds:
  assumes "53 \<le> length b" and "length b < 28 + iprp_header_size v"
    and "receiver_link_get (get_raw 20 29 b) links = None" and "link_mem env" and "node_mem env"
  shows "ird_handle_packet v env t (nfq_good b i) links = Inl OutOfBounds"
proof -
  obtain l where l: "receiver_link_create True (get_raw 20 29 b) (get32 49 b) t = Some l"
    by (simp add: receiver_link_create_def)
  have "create_new_packet v b n sa sp = Inl OutOfBounds" for n sa sp
    using assms(2) by (simp add: create_new_packet_def layout_defs)
  with assms l show ?thesis
    by (simp add: ird_handle_packet_def ird_link_step_def layout_defs iprp_consts Let_def)
qed

theorem ird_short_packet_out_of_bounds_witness:
  "ird_handle_packet Unicast example_env 0 (nfq_good (example_packet 1 10) 0) [] = Inl OutOfBounds"
  by (rule ird_short_packet_out_of_bounds)
    (simp_all add: example_packet_def example_env_def receiver_link_get_def)

text \<open>
  At any moment the daemon holds at most one link per SNSID: whatever packets arrive and
  whenever the cleanup runs, the SNSIDs of the links stay pairwise distinct.
\<close>

theorem ird_one_link_per_sender:
  assumes "cache_run (ird_step v) rl_last_seen IRD_T_EXP evs [] = Inr links"
  shows "distinct (map rl_snsid links)"
  using ird.run_distinct[OF assms] by simp

lemma ird_step_fresh_sender:
  assumes "ird_msg_ok v (t, env, p)" and "sn_ok (msg_seq_nb (t, env, p))"
  shows "\<exists>links. ird_step v t (env, p) [] = Inr links"
  using ird_handle_total[of "[]", OF _ assms] by (auto simp: links_inv_def ird_step_def)

theorem ird_one_link_per_sender_witness:
  "\<exists>links. cache_run (ird_step Unicast) rl_last_seen IRD_T_EXP
      [Event 3 (example_env, nfq_good (example_packet 1 200) 0), Sweep 10] [] = Inr links
     \<and> distinct (map rl_snsid links)"
proof -
  from ird_step_fresh_sender[of Unicast 3 example_env "nfq_good (example_packet 1 200) 0"]
  obtain links where "ird_step Unicast 3 (example_env, nfq_good (example_packet 1 200) 0) [] = Inr links"
    by (auto simp: example_msg_ok example_seq_nb sn_ok_def)
  then have r: "cache_run (ird_step Unicast) rl_last_seen IRD_T_EXP
      [Event 3 (example_env, nfq_good (example_packet 1 200) 0), Sweep 10] []
      = Inr (sweep (aged rl_last_seen IRD_T_EXP 10) links)" by simp
  from ird_one_link_per_sender[OF r] r show ?thesis by blast
qed

end
