(* ===== verification/Iprp_Icd_Control.thy ===== *)
theory Iprp_Icd_Control
  imports Iprp_Files Iprp_Cache
begin

text \<open>
  The control messages of the control daemon and their handler (inc/icd.h, src/icd/control.c): the
  CAP and ACK messages as they travel, the peer bases and sender interfaces they create and
  refresh, the SNSID and the queue number of a new peer base, and the loop that receives and
  dispatches the messages.
\<close>

definition IPRP_CTLMSG_SECRET :: u32 where "IPRP_CTLMSG_SECRET = 0x3dbf391e"
definition IPRP_PB_TEXP :: time_t where "IPRP_PB_TEXP = 60"
definition ICD_SI_TEXP :: time_t where "ICD_SI_TEXP = 60"
definition IPRP_CAP :: u32 where "IPRP_CAP = 0"
definition IPRP_ACK :: u32 where "IPRP_ACK = 1"

section \<open>Messages\<close>

text \<open>\<open>cap_receiver\<close> exists in the unicast variant only; elsewhere it is the empty host.\<close>

record cap_msg =
  cap_version :: u32
  cap_receiver :: host
  cap_src_addr :: in_addr
  cap_dest_addr :: in_addr
  cap_inds :: u16
  cap_src_port :: u16
  cap_dest_port :: u16

record ack_msg =
  ack_host :: host
  ack_group_addr :: in_addr
  ack_src_addr :: in_addr

datatype ctl_msg = Cap cap_msg | Ack ack_msg | Unknown u32

definition no_host :: host where
  "no_host = \<lparr>nb_ifaces = 0, ifaces = []\<rparr>"

definition cap_ok :: "variant \<Rightarrow> cap_msg \<Rightarrow> bool" where
  "cap_ok v m \<longleftrightarrow> (case v of Unicast \<Rightarrow> host_ok (cap_receiver m) | Multicast \<Rightarrow> cap_receiver m = no_host)"

fun cap_size :: "variant \<Rightarrow> nat" where
  "cap_size Unicast = 160"
| "cap_size Multicast = 20"

definition put_cap :: "variant \<Rightarrow> nat \<Rightarrow> cap_msg \<Rightarrow> bytes \<Rightarrow> bytes" where
  "put_cap v off m bs = (case v of
     Unicast \<Rightarrow>
       put16 (off + 156) (cap_dest_port m)
       (put16 (off + 154) (cap_src_port m)
       (put16 (off + 152) (cap_inds m)
       (put32 (off + 148) (cap_dest_addr m)
       (put32 (off + 144) (cap_src_addr m)
       (put_host (off + 8) (cap_receiver m)
       (put32 off (cap_version m) bs))))))
   | Multicast \<Rightarrow>
       put16 (off + 16) (cap_dest_port m)
       (put16 (off + 14) (cap_src_port m)
       (put16 (off + 12) (cap_inds m)
       (put32 (off + 8) (cap_dest_addr m)
       (put32 (off + 4) (cap_src_addr m)
       (put32 off (cap_version m) bs))))))"

definition get_cap :: "variant \<Rightarrow> nat \<Rightarrow> bytes \<Rightarrow> cap_msg" where
  "get_cap v off bs = (case v of
     Unicast \<Rightarrow> \<lparr>cap_version = get32 off bs, cap_receiver = get_host (off + 8) bs,
       cap_src_addr = get32 (off + 144) bs, cap_dest_addr = get32 (off + 148) bs,
       cap_inds = get16 (off + 152) bs, cap_src_port = get16 (off + 154) bs,
       cap_dest_port = get16 (off + 156) bs\<rparr>
   | Multicast \<Rightarrow> \<lparr>cap_version = get32 off bs, cap_receiver = no_host,
       cap_src_addr = get32 (off + 4) bs, cap_dest_addr = get32 (off + 8) bs,
       cap_inds = get16 (off + 12) bs, cap_src_port = get16 (off + 14) bs,
       cap_dest_port = get16 (off + 16) bs\<rparr>)"

definition put_ack :: "nat \<Rightarrow> ack_msg \<Rightarrow> bytes \<Rightarrow> bytes" where
  "put_ack off m bs =
     put32 (off + 140) (ack_src_addr m)
     (put32 (off + 136) (ack_group_addr m)
     (put_host off (ack_host m) bs))"

definition get_ack :: "nat \<Rightarrow> bytes \<Rightarrow> ack_msg" where
  "get_ack off bs = \<lparr>ack_host = get_host off bs, ack_group_addr = get32 (off + 136) bs,
     ack_src_addr = get32 (off + 140) bs\<rparr>"

text \<open>The wrapper \<open>iprp_ctlmsg_t\<close>; the message is at offset 8 in both variants.\<close>

fun ctlmsg_size :: "variant \<Rightarrow> nat" where
  "ctlmsg_size Unicast = 168"
| "ctlmsg_size Multicast = 152"

definition put_cap_msg :: "variant \<Rightarrow> cap_msg \<Rightarrow> bytes \<Rightarrow> bytes" where
  "put_cap_msg v m bs =
     (let b = put32 0 IPRP_CTLMSG_SECRET bs
      in put_cap v 8 m (case v of Unicast \<Rightarrow> b | Multicast \<Rightarrow> put32 4 IPRP_CAP b))"

definition put_ack_msg :: "ack_msg \<Rightarrow> bytes \<Rightarrow> bytes" where
  "put_ack_msg m bs = put_ack 8 m (put32 4 IPRP_ACK (put32 0 IPRP_CTLMSG_SECRET bs))"

text \<open>
  The reception: the datagram is cut to the size of the structure; a wrong size or secret is no
  message, otherwise the type selects the handler.
\<close>

definition ctl_decode :: "variant \<Rightarrow> bytes \<Rightarrow> ctl_msg option" where
  "ctl_decode v data =
     (let msg = take (ctlmsg_size v) data
      in if length msg \<noteq> ctlmsg_size v \<or> get32 0 msg \<noteq> IPRP_CTLMSG_SECRET then None
         else Some (case v of
             Unicast \<Rightarrow> Cap (get_cap v 8 msg)
           | Multicast \<Rightarrow>
               let ty = get32 4 msg
               in if ty = IPRP_CAP then Cap (get_cap v 8 msg)
                  else if ty = IPRP_ACK then Ack (get_ack 8 msg)
                  else Unknown ty))"

section \<open>State\<close>

record icd_base =
  ib_link :: link
  ib_inds :: u16
  ib_dest_addr :: "in_addr list"
  queue_id :: u16
  isd_pid :: int
  last_cap :: time_t

record icd =
  peerbases :: "icd_base list"
  sender_ifs :: "sender_ifaces list"
  reboot_counter :: u16

text \<open>
  The environment of a call: the local host \<open>this\<close>, what the allocations return (memory that
  holds anything, or NULL), the numbers \<open>rand\<close> gives after a seed, and whether
  \<open>sendto\<close> succeeds.
\<close>

record icd_env =
  this_host :: host
  base_mem :: "icd_base option"
  si_mem :: "sender_ifaces option"
  elem_mem :: bool
  rand_of :: "time_t \<Rightarrow> nat \<Rightarrow> nat"
  ack_sent :: bool

section \<open>A new peer base\<close>

text \<open>\<open>snsid\<close>: four times the source address, the source port, the counter.\<close>

definition snsid_of :: "in_addr \<Rightarrow> u16 \<Rightarrow> u16 \<Rightarrow> bytes" where
  "snsid_of sa sp cnt = concat (replicate 4 (le32 sa)) @ le16 sp @ le16 cnt"

text \<open>
  \<open>get_queue_number\<close>: the scan sets \<open>ok\<close> to false and stops at a base with the number,
  but \<open>ok\<close> is set to true after it in any case.  The fuel bounds the iterations.
\<close>

fun queue_scan :: "u16 \<Rightarrow> icd_base list \<Rightarrow> bool \<Rightarrow> bool" where
  "queue_scan num [] ok = ok"
| "queue_scan num (b # bs) ok = (if queue_id b = num then False else queue_scan num bs ok)"

definition queue_ok :: "u16 \<Rightarrow> icd_base list \<Rightarrow> bool \<Rightarrow> bool" where
  "queue_ok num bs ok = (let scanned = queue_scan num bs ok in True)"

fun queue_loop :: "nat \<Rightarrow> (nat \<Rightarrow> nat) \<Rightarrow> nat \<Rightarrow> icd_base list \<Rightarrow> bool \<Rightarrow> u16 \<Rightarrow> u16 option" where
  "queue_loop 0 rnd k bs ok num = None"
| "queue_loop (Suc n) rnd k bs ok num =
     (if ok then Some num
      else let num1 = of_nat (rnd k mod 1024)
           in queue_loop n rnd (Suc k) bs (queue_ok num1 bs ok) num1)"

definition get_queue_number :: "(time_t \<Rightarrow> nat \<Rightarrow> nat) \<Rightarrow> time_t \<Rightarrow> icd_base list \<Rightarrow> u16 option" where
  "get_queue_number rand_fn curr_time bs = queue_loop 2 (rand_fn curr_time) 0 bs False 0"

text \<open>The destination of each IND of the receiver; the index is the IND from the message.\<close>

fun set_dests :: "iface list \<Rightarrow> in_addr list \<Rightarrow> in_addr list result" where
  "set_dests [] ds = Inr ds"
| "set_dests (f # fs) ds =
     (if unat (ind f) < length ds then set_dests fs (ds[unat (ind f) := if_addr f]) else Inl OutOfBounds)"

text \<open>The result is the base and the counter; a scan that does not end is no result.\<close>

definition create_base ::
  "variant \<Rightarrow> icd_env \<Rightarrow> time_t \<Rightarrow> cap_msg \<Rightarrow> u16 \<Rightarrow> u16 \<Rightarrow> icd_base list \<Rightarrow> (icd_base \<times> u16) result" where
  "create_base v env curr_time msg matching_inds cnt bs = (case base_mem env of
     None \<Rightarrow> Inl (Err ''Unable to allocate ICD base'')
   | Some m \<Rightarrow>
       let lk = \<lparr>src_addr = cap_src_addr msg, dest_addr = cap_dest_addr msg, src_port = cap_src_port msg,
                 dest_port = cap_dest_port msg, snsid = snsid_of (cap_src_addr msg) (cap_src_port msg) cnt\<rparr>
       in and_then (case v of
              Unicast \<Rightarrow> and_then (used_ifaces (cap_receiver msg)) (\<lambda>fs. set_dests fs (ib_dest_addr m))
            | Multicast \<Rightarrow> Inr (ib_dest_addr m)) (\<lambda>ds.
          Inr (\<lparr>ib_link = lk, ib_inds = matching_inds, ib_dest_addr = ds,
                queue_id = the (get_queue_number (rand_of env) curr_time bs), isd_pid = -1,
                last_cap = curr_time\<rparr>, cnt + 1)))"

section \<open>CAP messages\<close>

definition peerbase_query :: "cap_msg \<Rightarrow> icd_base list \<Rightarrow> nat option" where
  "peerbase_query msg bs = find_idx (\<lambda>b. dest_addr (ib_link b) = cap_dest_addr msg
     \<and> src_port (ib_link b) = cap_src_port msg \<and> dest_port (ib_link b) = cap_dest_port msg) bs"

text \<open>The ACK: the local host, the group and source of the link, sent to the group.\<close>

definition send_ack :: "icd_env \<Rightarrow> link \<Rightarrow> (sockaddr_in \<times> ack_msg) result" where
  "send_ack env lk =
     (if ack_sent env
      then Inr (sockaddr_fill (dest_addr lk) IPRP_CTL_PORT,
            \<lparr>ack_host = this_host env, ack_group_addr = dest_addr lk, ack_src_addr = src_addr lk\<rparr>)
      else Inl (Err ''Unable to send ACK message''))"

text \<open>The list with the base of the message (if there is one), the counter, and the base.\<close>

definition cap_update ::
  "variant \<Rightarrow> icd_env \<Rightarrow> time_t \<Rightarrow> cap_msg \<Rightarrow> icd_base list \<times> u16
   \<Rightarrow> (icd_base list \<times> u16 \<times> icd_base option) result" where
  "cap_update v env curr_time msg s = (case s of (bs, cnt) \<Rightarrow>
     and_then (ind_match (this_host env) (cap_inds msg)) (\<lambda>m.
     case peerbase_query msg bs of
       Some i \<Rightarrow>
         let b = (bs ! i)\<lparr>ib_inds := ib_inds (bs ! i) OR m, last_cap := curr_time\<rparr>
         in Inr (bs[i := b], cnt, Some b)
     | None \<Rightarrow>
         if m \<noteq> 0
         then and_then (create_base v env curr_time msg m cnt bs) (\<lambda>(b, cnt').
              and_then (guard (elem_mem env) (Err ''Unable to allocate list element'')) (\<lambda>_.
              Inr (bs @ [b], cnt', Some b)))
         else Inr (bs, cnt, None)))"

definition handle_cap ::
  "variant \<Rightarrow> icd_env \<Rightarrow> time_t \<Rightarrow> cap_msg \<Rightarrow> icd \<Rightarrow> (icd \<times> (sockaddr_in \<times> ack_msg) list) result" where
  "handle_cap v env curr_time msg s =
     and_then (cap_update v env curr_time msg (peerbases s, reboot_counter s)) (\<lambda>(bs, cnt, base).
     let s' = s\<lparr>peerbases := bs, reboot_counter := cnt\<rparr>
     in case (v, base) of
          (Multicast, Some b) \<Rightarrow> and_then (send_ack env (ib_link b)) (\<lambda>a. Inr (s', [a]))
        | _ \<Rightarrow> Inr (s', []))"

section \<open>ACK messages\<close>

definition in_sender_ifaces ::
  "time_t \<Rightarrow> in_addr \<Rightarrow> in_addr \<Rightarrow> sender_ifaces list \<Rightarrow> bool \<times> sender_ifaces list" where
  "in_sender_ifaces curr_time grp src sis =
     (case find_idx (\<lambda>s. si_group_addr s = grp \<and> si_sender_addr s = src) sis of
        Some i \<Rightarrow> (True, sis[i := (sis ! i)\<lparr>si_last_seen := curr_time\<rparr>])
      | None \<Rightarrow> (False, sis))"

text \<open>The loops over the sender's interfaces, from index \<open>i\<close>: the local address is that of the
  first local interface with the same IND, and stays as it was when there is none.\<close>

fun si_copy :: "iface list \<Rightarrow> nat \<Rightarrow> iface list \<Rightarrow> sender_ifaces \<Rightarrow> sender_ifaces result" where
  "si_copy mine i [] s = Inr s"
| "si_copy mine i (f # fs) s =
     (if \<not> i < length (si_ifaces s) \<or> \<not> i < length (si_host_addr s) then Inl OutOfBounds
      else let s1 = s\<lparr>si_ifaces := (si_ifaces s)[i := f]\<rparr>;
               s2 = (case find_idx (\<lambda>g. ind f = ind g) mine of
                       Some j \<Rightarrow> s1\<lparr>si_host_addr := (si_host_addr s1)[i := if_addr (mine ! j)]\<rparr>
                     | None \<Rightarrow> s1)
           in si_copy mine (Suc i) fs s2)"

definition create_sender_ifaces :: "icd_env \<Rightarrow> time_t \<Rightarrow> ack_msg \<Rightarrow> sender_ifaces result" where
  "create_sender_ifaces env curr_time msg = (case si_mem env of
     None \<Rightarrow> Inl (Err ''Unable to allocate new sender interfaces'')
   | Some m \<Rightarrow>
       and_then (used_ifaces (this_host env)) (\<lambda>mine.
       and_then (used_ifaces (ack_host msg)) (\<lambda>fs.
       and_then (si_copy mine 0 fs (m\<lparr>si_sender_addr := ack_src_addr msg,
           si_group_addr := ack_group_addr msg, si_nb_ifaces := of_nat (nb_ifaces (ack_host msg))\<rparr>)) (\<lambda>s.
       Inr (s\<lparr>si_last_seen := curr_time\<rparr>)))))"

definition ack_update ::
  "icd_env \<Rightarrow> time_t \<Rightarrow> ack_msg \<Rightarrow> sender_ifaces list \<Rightarrow> sender_ifaces list result" where
  "ack_update env curr_time msg sis =
     (let (found, sis1) = in_sender_ifaces curr_time (ack_group_addr msg) (ack_src_addr msg) sis
      in if found then Inr sis1
         else and_then (create_sender_ifaces env curr_time msg) (\<lambda>s.
              and_then (guard (elem_mem env) (Err ''Unable to allocate list element'')) (\<lambda>_.
              Inr (sis1 @ [s]))))"

definition handle_ack :: "icd_env \<Rightarrow> time_t \<Rightarrow> ack_msg \<Rightarrow> icd \<Rightarrow> icd result" where
  "handle_ack env curr_time msg s =
     and_then (ack_update env curr_time msg (sender_ifs s)) (\<lambda>sis. Inr (s\<lparr>sender_ifs := sis\<rparr>))"

section \<open>The control routine\<close>

text \<open>
  The loop over the outcomes of \<open>recvfrom\<close> (\<open>None\<close> is an error, which ends the
  process), each with the time and environment it is handled in.  The flag of the result is whether
  the loop is still running: a datagram that is no message breaks out of it.
\<close>

type_synonym ctl_recv = "time_t \<times> icd_env \<times> bytes option"

fun control_loop ::
  "variant \<Rightarrow> ctl_recv list \<Rightarrow> icd \<Rightarrow> (icd \<times> (sockaddr_in \<times> ack_msg) list \<times> bool) result" where
  "control_loop v [] s = Inr (s, [], True)"
| "control_loop v ((t, env, None) # rs) s = Inl (Err ''Error while receiving on control socket'')"
| "control_loop v ((t, env, Some data) # rs) s =
     (case ctl_decode v data of
        None \<Rightarrow> Inr (s, [], False)
      | Some (Cap m) \<Rightarrow>
          and_then (handle_cap v env t m s) (\<lambda>(s1, acks).
          and_then (control_loop v rs s1) (\<lambda>(s2, acks', running). Inr (s2, acks @ acks', running)))
      | Some (Ack m) \<Rightarrow> and_then (handle_ack env t m s) (\<lambda>s1. control_loop v rs s1)
      | Some (Unknown ty) \<Rightarrow> control_loop v rs s)"

text \<open>
  \<open>socket_setup\<close>: the result of \<open>socket\<close> and whether \<open>bind\<close> succeeds; the
  socket is bound to any address at the control port.  The result is the socket and the options set on it.
\<close>

definition socket_setup :: "variant \<Rightarrow> host \<Rightarrow> int \<Rightarrow> (int \<Rightarrow> sockaddr_in \<Rightarrow> bool) \<Rightarrow> (int \<times> sock_opt list) result" where
  "socket_setup v h sock bind_ok =
     (if sock = -1 then Inl (Err ''Unable to create control socket'')
      else if \<not> bind_ok sock (sockaddr_fill 0 IPRP_CTL_PORT)
      then Inl (Err ''Unable to bind control socket'')
      else Inr (sock, case v of Unicast \<Rightarrow> []
        | Multicast \<Rightarrow> [Multicast_If (if_addr (ifaces h ! 0)), Multicast_Ttl 255, Multicast_Loop False]))"

text \<open>The thread: the socket, then the loop.\<close>

definition control_routine ::
  "variant \<Rightarrow> host \<Rightarrow> int \<Rightarrow> (int \<Rightarrow> sockaddr_in \<Rightarrow> bool) \<Rightarrow> ctl_recv list \<Rightarrow> icd
   \<Rightarrow> (icd \<times> (sockaddr_in \<times> ack_msg) list \<times> bool) result" where
  "control_routine v h sock bind_ok rs s =
     and_then (socket_setup v h sock bind_ok) (\<lambda>(ctl_socket, opts). control_loop v rs s)"

section \<open>Layout of the messages\<close>

lemma get_host_put32:
  "o' + 4 \<le> length bs \<Longrightarrow> off + 136 \<le> length bs \<Longrightarrow> o' + 4 \<le> off \<or> off + 136 \<le> o' \<Longrightarrow>
   get_host off (put32 o' x bs) = get_host off bs"
  by (rule mhost.get_cong) (auto simp: m32.put_length m32.put_frame)

lemma get_host_put16:
  "o' + 2 \<le> length bs \<Longrightarrow> off + 136 \<le> length bs \<Longrightarrow> o' + 2 \<le> off \<or> off + 136 \<le> o' \<Longrightarrow>
   get_host off (put16 o' x bs) = get_host off bs"
  by (rule mhost.get_cong) (auto simp: m16.put_length m16.put_frame)

lemmas host_simps = get_host_put32 get_host_put16 mhost.get_put mhost.put_length mhost.put_frame
  m32.put_length m16.put_length

interpretation mcap: mem_type "cap_size v" "put_cap v" "get_cap v" "cap_ok v" for v
proof unfold_locales
  fix m off and bs :: bytes
  assume ok: "cap_ok v m" and b: "off + cap_size v \<le> length bs"
  show "length (put_cap v off m bs) = length bs"
    using ok b by (cases v) (simp_all add: put_cap_def cap_ok_def host_simps)
  show "get_cap v off (put_cap v off m bs) = m"
  proof (cases v)
    case Unicast
    then have h: "host_ok (cap_receiver m)" "off + 160 \<le> length bs" using ok b by (auto simp: cap_ok_def)
    have "get_host (off + 8) (put_cap v off m bs) = cap_receiver m"
      using Unicast h by (simp add: put_cap_def host_simps)
    with Unicast h show ?thesis
      by (simp add: get_cap_def) (simp add: put_cap_def get16_def get32_def put16_def put32_def mem_simps
          mhost.put_frame mhost.put_length)
  next
    case Multicast
    with ok b show ?thesis
      by (simp add: get_cap_def put_cap_def cap_ok_def scalar_defs mem_simps)
  qed
next
  fix m off o' n and bs :: bytes
  assume "cap_ok v m" and "off + cap_size v \<le> length bs" and "o' + n \<le> off \<or> off + cap_size v \<le> o'"
  then show "get_bytes o' n (put_cap v off m bs) = get_bytes o' n bs"
    by (cases v) (auto simp: put_cap_def cap_ok_def host_simps m32.put_frame m16.put_frame)
next
  fix off :: nat and bs :: bytes
  assume b: "off + cap_size v \<le> length bs"
  show "get_cap v off bs = get_cap v 0 (get_bytes off (cap_size v) bs)"
  proof (cases v)
    case Unicast
    then have "get_host (off + 8) bs = get_host 8 (get_bytes off 160 bs)"
      using b get_local_at[OF mem_types(5), of off 160 bs 8] by simp
    with Unicast b show ?thesis by (simp add: get_cap_def scalar_defs mem_simps)
  qed (use b in \<open>simp add: get_cap_def scalar_defs mem_simps\<close>)
qed

definition ack_ok :: "ack_msg \<Rightarrow> bool" where
  "ack_ok m \<longleftrightarrow> host_ok (ack_host m)"

interpretation mack: mem_type 144 put_ack get_ack ack_ok
proof unfold_locales
  fix m off and bs :: bytes
  assume h0: "ack_ok m" and h1: "off + 144 \<le> length bs"
  then have h: "host_ok (ack_host m)" "off + 144 \<le> length bs" by (simp_all add: ack_ok_def)
  show "length (put_ack off m bs) = length bs" using h by (simp add: put_ack_def host_simps)
  have "get_host off (put_ack off m bs) = ack_host m" using h by (simp add: put_ack_def host_simps)
  with h show "get_ack off (put_ack off m bs) = m"
    by (simp add: get_ack_def) (simp add: put_ack_def get32_def put32_def mem_simps
        mhost.put_frame mhost.put_length)
next
  fix m off o' n and bs :: bytes
  assume "ack_ok m" and "off + 144 \<le> length bs" and "o' + n \<le> off \<or> off + 144 \<le> o'"
  then show "get_bytes o' n (put_ack off m bs) = get_bytes o' n bs"
    by (auto simp: put_ack_def ack_ok_def host_simps m32.put_frame)
next
  fix off :: nat and bs :: bytes
  assume b: "off + 144 \<le> length bs"
  then have "get_host off bs = get_host 0 (get_bytes off 144 bs)"
    using get_local_at[OF mem_types(5), of off 144 bs 0] by simp
  with b show "get_ack off bs = get_ack 0 (get_bytes off 144 bs)"
    by (simp add: get_ack_def scalar_defs mem_simps)
qed

lemma cap_decode:
  assumes "cap_ok v m" and "length b = ctlmsg_size v"
  shows "ctl_decode v (put_cap_msg v m b) = Some (Cap m)"
proof -
  let ?b1 = "put32 0 IPRP_CTLMSG_SECRET b"
  let ?b2 = "case v of Unicast \<Rightarrow> ?b1 | Multicast \<Rightarrow> put32 4 IPRP_CAP ?b1"
  have l1: "length ?b1 = ctlmsg_size v" using assms(2) by (cases v) (simp_all add: m32.put_length)
  have l2: "length ?b2 = ctlmsg_size v" using l1 by (cases v) (simp_all add: m32.put_length)
  have e: "put_cap_msg v m b = put_cap v 8 m ?b2" by (cases v) (simp_all add: put_cap_msg_def Let_def)
  have l: "length (put_cap_msg v m b) = ctlmsg_size v"
    using l2 assms(1) unfolding e by (cases v) (simp_all add: mcap.put_length)
  have fr: "get_bytes o' 4 (put_cap_msg v m b) = get_bytes o' 4 ?b2" if "o' \<le> 4" for o'
    using that l2 assms(1) unfolding e by (cases v) (auto intro!: mcap.put_frame)
  have "get32 0 (put_cap_msg v m b) = get32 0 ?b2" using fr[of 0] by (simp add: get32_def)
  also have "\<dots> = get32 0 ?b1"
    using l1 by (cases v) (simp_all add: m32.get_put_other)
  also have "\<dots> = IPRP_CTLMSG_SECRET" using assms(2) by (cases v) (simp_all add: m32.get_put)
  finally have 1: "get32 0 (put_cap_msg v m b) = IPRP_CTLMSG_SECRET" .
  have 2: "v = Multicast \<Longrightarrow> get32 4 (put_cap_msg v m b) = IPRP_CAP"
    using fr[of 4] l1 by (simp add: get32_def put32_def mem_simps)
  have 3: "get_cap v 8 (put_cap_msg v m b) = m"
    using l2 assms(1) unfolding e by (cases v) (simp_all add: mcap.get_put)
  show ?thesis using 1 2 3 l by (cases v) (simp_all add: ctl_decode_def Let_def)
qed

lemma ack_decode:
  assumes "ack_ok m" and "length b = ctlmsg_size Multicast"
  shows "ctl_decode Multicast (put_ack_msg m b) = Some (Ack m)"
proof -
  let ?b1 = "put32 0 IPRP_CTLMSG_SECRET b"
  let ?b2 = "put32 4 IPRP_ACK ?b1"
  have l: "length ?b1 = 152" "length ?b2 = 152" using assms(2) by (simp_all add: m32.put_length)
  have lm: "length (put_ack_msg m b) = 152"
    using l assms(1) by (simp add: put_ack_msg_def mack.put_length)
  have fr: "get_bytes o' 4 (put_ack_msg m b) = get_bytes o' 4 ?b2" if "o' \<le> 4" for o'
    using that l assms(1) by (auto simp: put_ack_msg_def intro!: mack.put_frame)
  have "get32 0 (put_ack_msg m b) = IPRP_CTLMSG_SECRET" "get32 4 (put_ack_msg m b) = IPRP_ACK"
    using fr[of 0] fr[of 4] assms(2) by (simp_all add: get32_def put32_def mem_simps)
  moreover have "get_ack 8 (put_ack_msg m b) = m"
    using l assms(1) by (simp add: put_ack_msg_def mack.get_put)
  ultimately show ?thesis using lm by (simp add: ctl_decode_def Let_def IPRP_ACK_def IPRP_CAP_def)
qed

section \<open>Facts about a new peer base\<close>

lemma get_queue_number_value: "get_queue_number f t bs = Some (of_nat (f t 0 mod 1024))"
  by (simp add: get_queue_number_def queue_ok_def numeral_2_eq_2)

lemma length_snsid_of: "length (snsid_of sa sp cnt) = 20"
  by (simp add: snsid_of_def numeral_eq_Suc)

lemma snsid_of_fields:
  "get32 0 (snsid_of sa sp cnt) = sa" "get16 16 (snsid_of sa sp cnt) = sp"
  "get16 18 (snsid_of sa sp cnt) = cnt"
proof -
  have e: "snsid_of sa sp cnt = le32 sa @ le32 sa @ le32 sa @ le32 sa @ le16 sp @ le16 cnt"
    by (simp add: snsid_of_def numeral_eq_Suc)
  show "get32 0 (snsid_of sa sp cnt) = sa" "get16 16 (snsid_of sa sp cnt) = sp"
    "get16 18 (snsid_of sa sp cnt) = cnt"
    by (simp_all add: e get32_def get16_def get_bytes_def)
qed

fun pb_key :: "icd_base \<Rightarrow> in_addr \<times> u16 \<times> u16" where
  "pb_key b = (dest_addr (ib_link b), src_port (ib_link b), dest_port (ib_link b))"

fun cap_key :: "cap_msg \<Rightarrow> in_addr \<times> u16 \<times> u16" where
  "cap_key m = (cap_dest_addr m, cap_src_port m, cap_dest_port m)"

declare pb_key.simps [simp del] cap_key.simps [simp del]

lemma peerbase_query_key: "peerbase_query m bs = find_idx (\<lambda>b. pb_key b = cap_key m) bs"
  by (simp add: peerbase_query_def pb_key.simps cap_key.simps)

lemma create_base_fields:
  assumes "create_base v env t m x cnt bs = Inr (b, cnt')"
  shows "pb_key b = cap_key m \<and> last_cap b = t \<and> ib_inds b = x \<and> isd_pid b = -1 \<and> cnt' = cnt + 1
    \<and> snsid (ib_link b) = snsid_of (cap_src_addr m) (cap_src_port m) cnt
    \<and> src_addr (ib_link b) = cap_src_addr m"
  using assms
  by (auto simp: create_base_def and_then_eq_Inr pb_key.simps cap_key.simps Let_def split: option.splits)

lemma cap_update_cases:
  assumes "cap_update v env t msg (bs, cnt) = Inr (bs', cnt', r)"
  obtains (known) i m b where "ind_match (this_host env) (cap_inds msg) = Inr m"
      "find_idx (\<lambda>b. pb_key b = cap_key msg) bs = Some i"
      "b = (bs ! i)\<lparr>ib_inds := ib_inds (bs ! i) OR m, last_cap := t\<rparr>"
      "bs' = bs[i := b]" "cnt' = cnt" "r = Some b"
    | (new) m b where "ind_match (this_host env) (cap_inds msg) = Inr m" "m \<noteq> 0"
      "find_idx (\<lambda>b. pb_key b = cap_key msg) bs = None"
      "create_base v env t msg m cnt bs = Inr (b, cnt')" "bs' = bs @ [b]" "r = Some b"
    | (none) "ind_match (this_host env) (cap_inds msg) = Inr 0"
      "find_idx (\<lambda>b. pb_key b = cap_key msg) bs = None" "bs' = bs" "cnt' = cnt" "r = None"
proof (cases "find_idx (\<lambda>b. pb_key b = cap_key msg) bs")
  case None
  with assms new none show ?thesis
    by (auto simp: cap_update_def and_then_eq_Inr peerbase_query_key split: if_splits)
next
  case (Some i)
  with assms known show ?thesis
    by (auto simp: cap_update_def and_then_eq_Inr peerbase_query_key Let_def)
qed

lemma pb_key_upd [simp]: "pb_key (b\<lparr>ib_inds := x\<rparr>) = pb_key b" "pb_key (b\<lparr>last_cap := t\<rparr>) = pb_key b"
  by (simp_all add: pb_key.simps)

section \<open>The caches\<close>

text \<open>The peer bases; a message comes with the environment and the counter it meets.\<close>

fun cap_step :: "variant \<Rightarrow> time_t \<Rightarrow> icd_env \<times> u16 \<times> cap_msg \<Rightarrow> icd_base list \<Rightarrow> icd_base list result" where
  "cap_step v t (env, cnt, m) bs = and_then (cap_update v env t m (bs, cnt)) (\<lambda>(bs', r). Inr bs')"

interpretation pbs: keyed_cache pb_key last_cap IPRP_PB_TEXP "\<lambda>(env, cnt, m). cap_key m" "cap_step v" for v
proof unfold_locales
  fix msg :: "icd_env \<times> u16 \<times> cap_msg" and bs bs' t i
  obtain env cnt m where msg: "msg = (env, cnt, m)" by (cases msg)
  assume f: "find_idx (\<lambda>e. pb_key e = (case msg of (env, cnt, m) \<Rightarrow> cap_key m)) bs = Some i"
    and r: "cap_step v t msg bs = Inr bs'"
  from r msg obtain x where "cap_update v env t m (bs, cnt) = Inr (bs', x)"
    by (auto simp: and_then_eq_Inr)
  then have "cap_update v env t m (bs, cnt) = Inr (bs', fst x, snd x)" by simp
  then show "\<exists>e. bs' = bs[i := e] \<and> pb_key e = (case msg of (env, cnt, m) \<Rightarrow> cap_key m) \<and> last_cap e = t"
    by (cases rule: cap_update_cases) (use f msg find_idx_Some[OF f] in auto)
next
  fix msg :: "icd_env \<times> u16 \<times> cap_msg" and bs bs' t
  obtain env cnt m where msg: "msg = (env, cnt, m)" by (cases msg)
  assume f: "find_idx (\<lambda>e. pb_key e = (case msg of (env, cnt, m) \<Rightarrow> cap_key m)) bs = None"
    and r: "cap_step v t msg bs = Inr bs'"
  from r msg obtain x where "cap_update v env t m (bs, cnt) = Inr (bs', x)"
    by (auto simp: and_then_eq_Inr)
  then have "cap_update v env t m (bs, cnt) = Inr (bs', fst x, snd x)" by simp
  then show "bs' = bs \<or> (\<exists>e. bs' = bs @ [e] \<and> pb_key e = (case msg of (env, cnt, m) \<Rightarrow> cap_key m)
      \<and> last_cap e = t)"
    by (cases rule: cap_update_cases) (use f msg in \<open>auto dest: create_base_fields\<close>)
qed

text \<open>The sender interfaces.\<close>

fun si_key :: "sender_ifaces \<Rightarrow> in_addr \<times> in_addr" where
  "si_key s = (si_group_addr s, si_sender_addr s)"

fun ack_key :: "ack_msg \<Rightarrow> in_addr \<times> in_addr" where
  "ack_key m = (ack_group_addr m, ack_src_addr m)"

declare si_key.simps [simp del] ack_key.simps [simp del]

fun ack_step :: "time_t \<Rightarrow> icd_env \<times> ack_msg \<Rightarrow> sender_ifaces list \<Rightarrow> sender_ifaces list result" where
  "ack_step t (env, m) sis = ack_update env t m sis"

lemma in_sender_ifaces_key:
  "in_sender_ifaces t g a sis = (case find_idx (\<lambda>s. si_key s = (g, a)) sis of
     Some i \<Rightarrow> (True, sis[i := (sis ! i)\<lparr>si_last_seen := t\<rparr>]) | None \<Rightarrow> (False, sis))"
  by (simp add: in_sender_ifaces_def si_key.simps)

lemma si_key_last_seen [simp]: "si_key (s\<lparr>si_last_seen := t\<rparr>) = si_key s"
  by (simp add: si_key.simps)

lemma si_copy_frame: "si_copy mine i fs s = Inr s' \<Longrightarrow> si_key s' = si_key s \<and> si_nb_ifaces s' = si_nb_ifaces s"
  by (induction mine i fs s rule: si_copy.induct)
    (fastforce simp: si_key.simps Let_def split: if_splits option.splits)+

lemma create_sender_ifaces_key:
  "create_sender_ifaces env t m = Inr s \<Longrightarrow> si_key s = ack_key m \<and> si_last_seen s = t"
  by (auto simp: create_sender_ifaces_def and_then_eq_Inr ack_key.simps si_key.simps
      dest!: si_copy_frame split: option.splits)

interpretation sis: keyed_cache si_key si_last_seen ICD_SI_TEXP "\<lambda>(env, m). ack_key m" ack_step
proof unfold_locales
  fix msg :: "icd_env \<times> ack_msg" and es es' t i
  assume f: "find_idx (\<lambda>e. si_key e = (case msg of (env, m) \<Rightarrow> ack_key m)) es = Some i"
    and r: "ack_step t msg es = Inr es'"
  have "es' = es[i := (es ! i)\<lparr>si_last_seen := t\<rparr>]"
    using f r by (cases msg) (simp add: ack_update_def in_sender_ifaces_key ack_key.simps)
  then show "\<exists>e. es' = es[i := e] \<and> si_key e = (case msg of (env, m) \<Rightarrow> ack_key m) \<and> si_last_seen e = t"
    using find_idx_Some[OF f] by (intro exI[of _ "(es ! i)\<lparr>si_last_seen := t\<rparr>"]) simp
next
  fix msg :: "icd_env \<times> ack_msg" and es es' t
  assume "find_idx (\<lambda>e. si_key e = (case msg of (env, m) \<Rightarrow> ack_key m)) es = None"
    and "ack_step t msg es = Inr es'"
  then show "es' = es \<or> (\<exists>e. es' = es @ [e] \<and> si_key e = (case msg of (env, m) \<Rightarrow> ack_key m) \<and> si_last_seen e = t)"
    by (cases msg) (auto simp: ack_update_def in_sender_ifaces_key ack_key.simps and_then_eq_Inr
        dest!: create_sender_ifaces_key)
qed

section \<open>The table of receivers\<close>

text \<open>
  What the peer bases stand for: for each destination and pair of ports, the INDs this host has in
  common with some CAP received since the entry exists, and the time of the last CAP.  A CAP of an
  unknown receiver with no common IND leaves no entry.
\<close>

type_synonym receivers = "in_addr \<times> u16 \<times> u16 \<rightharpoonup> nat set \<times> time_t"

definition host_inds :: "host \<Rightarrow> nat set" where
  "host_inds h = (\<lambda>f. unat (ind f)) ` set (take (nb_ifaces h) (ifaces h))"

definition bits_of :: "u16 \<Rightarrow> nat set" where
  "bits_of w = {i. bit w i}"

definition receiver_cap ::
  "host \<Rightarrow> time_t \<Rightarrow> cap_msg \<Rightarrow> receivers \<Rightarrow> receivers" where
  "receiver_cap h t m r =
     (let common = bits_of (cap_inds m) \<inter> host_inds h
      in case r (cap_key m) of
           Some (inds, t0) \<Rightarrow> r(cap_key m \<mapsto> (inds \<union> common, t))
         | None \<Rightarrow> if common = {} then r else r(cap_key m \<mapsto> (common, t)))"

definition receiver_expire :: "time_t \<Rightarrow> receivers \<Rightarrow> receivers" where
  "receiver_expire now r = (\<lambda>k. case r k of None \<Rightarrow> None
     | Some (inds, t) \<Rightarrow> if now - t > IPRP_PB_TEXP then None else Some (inds, t))"

fun receiver_run :: "host \<Rightarrow> (icd_env \<times> cap_msg) cache_event list \<Rightarrow> receivers \<Rightarrow> receivers" where
  "receiver_run h [] r = r"
| "receiver_run h (Event t em # evs) r = receiver_run h evs (receiver_cap h t (snd em) r)"
| "receiver_run h (Sweep t # evs) r = receiver_run h evs (receiver_expire t r)"

definition receivers_of :: "icd_base list \<Rightarrow> receivers" where
  "receivers_of bs = map_of (map (\<lambda>b. (pb_key b, bits_of (ib_inds b), last_cap b)) bs)"

text \<open>The daemon: CAP messages, and the deletions of the peer base routine (at its limit).\<close>

fun icd_cap_run ::
  "variant \<Rightarrow> (icd_env \<times> cap_msg) cache_event list \<Rightarrow> icd_base list \<times> u16 \<Rightarrow> (icd_base list \<times> u16) result" where
  "icd_cap_run v [] s = Inr s"
| "icd_cap_run v (Event t em # evs) s =
     and_then (cap_update v (fst em) t (snd em) s) (\<lambda>(bs, cnt, r). icd_cap_run v evs (bs, cnt))"
| "icd_cap_run v (Sweep t # evs) s =
     icd_cap_run v evs (sweep (aged last_cap IPRP_PB_TEXP t) (fst s), snd s)"

text \<open>A CAP the handler can serve.\<close>

definition cap_event_ok :: "variant \<Rightarrow> host \<Rightarrow> (icd_env \<times> cap_msg) cache_event \<Rightarrow> bool" where
  "cap_event_ok v h ev = (case ev of
     Sweep t \<Rightarrow> True
   | Event t (env, m) \<Rightarrow> this_host env = h \<and> elem_mem env
       \<and> (\<exists>b. base_mem env = Some b \<and> length (ib_dest_addr b) = IPRP_MAX_INDS)
       \<and> (v = Unicast \<longrightarrow> inds_ok (cap_receiver m)))"

lemma bits_of_simps [simp]: "bits_of (a OR b) = bits_of a \<union> bits_of b" "bits_of 0 = {}"
  by (auto simp: bits_of_def bit_simps)

lemma bits_of_empty: "bits_of w = {} \<longleftrightarrow> w = 0"
  by (auto simp: bits_of_def intro: bit_eqI)

lemma bits_of_match:
  assumes "inds_ok h"
  obtains m where "ind_match h r = Inr m" "bits_of m = bits_of r \<inter> host_inds h"
proof -
  from ind_match_ok[OF assms, of r] obtain m where m: "ind_match h r = Inr m"
    "\<forall>i < 16. bit m i \<longleftrightarrow> bit r i \<and> (\<exists>f \<in> set (take (nb_ifaces h) (ifaces h)). unat (ind f) = i)" by blast
  have lt: "bit w i \<Longrightarrow> i < 16" for w :: u16 and i using bit_imp_le_length[of w i] by simp
  have "bits_of m = bits_of r \<inter> host_inds h"
    using m(2) by (auto simp: bits_of_def host_inds_def dest: lt)
  with m(1) that show thesis by blast
qed

lemma set_dests_ok:
  "\<forall>f \<in> set fs. unat (ind f) < length ds \<Longrightarrow> \<exists>ds'. set_dests fs ds = Inr ds' \<and> length ds' = length ds"
proof (induction fs arbitrary: ds)
  case (Cons f fs)
  from Cons.IH[of "ds[unat (ind f) := if_addr f]"] Cons.prems show ?case by simp
qed simp

text \<open>With different INDs every address ends up at its IND.\<close>

lemma set_dests_values:
  "\<forall>f \<in> set fs. unat (ind f) < length ds \<Longrightarrow> distinct (map ind fs) \<Longrightarrow>
   \<exists>ds'. set_dests fs ds = Inr ds' \<and> length ds' = length ds
     \<and> (\<forall>f \<in> set fs. ds' ! unat (ind f) = if_addr f)
     \<and> (\<forall>k. k \<notin> (\<lambda>f. unat (ind f)) ` set fs \<longrightarrow> ds' ! k = ds ! k)"
proof (induction fs arbitrary: ds)
  case (Cons f fs)
  let ?ds = "ds[unat (ind f) := if_addr f]"
  from Cons.IH[of ?ds] Cons.prems obtain ds' where
    d: "set_dests fs ?ds = Inr ds'" "length ds' = length ds" "\<forall>g \<in> set fs. ds' ! unat (ind g) = if_addr g"
    "\<forall>k. k \<notin> (\<lambda>f. unat (ind f)) ` set fs \<longrightarrow> ds' ! k = ?ds ! k" by auto
  have "unat (ind f) \<notin> (\<lambda>f. unat (ind f)) ` set fs"
    using Cons.prems(2) by (force simp: word_unat_eq_iff)
  with d Cons.prems(1) show ?case by (auto simp: nth_list_update_neq)
qed simp

lemma create_base_ok:
  assumes "base_mem env = Some b0" and "length (ib_dest_addr b0) = IPRP_MAX_INDS"
    and "v = Unicast \<longrightarrow> inds_ok (cap_receiver m)"
  shows "\<exists>b cnt'. create_base v env t m x cnt bs = Inr (b, cnt') \<and> length (ib_dest_addr b) = IPRP_MAX_INDS"
proof (cases v)
  case Unicast
  with assms have i: "host_ok (cap_receiver m)"
    "\<forall>f \<in> set (take (nb_ifaces (cap_receiver m)) (ifaces (cap_receiver m))). unat (ind f) < length (ib_dest_addr b0)"
    by (auto simp: inds_ok_def)
  from set_dests_ok[OF i(2)] Unicast assms(1,2) show ?thesis
    by (auto simp: create_base_def used_ifaces_ok[OF i(1)] Let_def)
qed (use assms in \<open>simp add: create_base_def Let_def\<close>)

lemma receivers_of_append:
  "find_idx (\<lambda>b. pb_key b = pb_key e) bs = None \<Longrightarrow>
   receivers_of (bs @ [e]) = (receivers_of bs)(pb_key e \<mapsto> (bits_of (ib_inds e), last_cap e))"
  by (induction bs) (auto simp: receivers_of_def fun_eq_iff split: if_splits option.splits)

lemma receivers_of_find:
  "receivers_of bs k = map_option (\<lambda>i. (bits_of (ib_inds (bs ! i)), last_cap (bs ! i)))
     (find_idx (\<lambda>b. pb_key b = k) bs)"
  by (induction bs) (auto simp: receivers_of_def option.map_comp comp_def)

lemma receivers_of_update:
  assumes i: "find_idx (\<lambda>b. pb_key b = pb_key e) bs = Some i"
  shows "receivers_of (bs[i := e]) = (receivers_of bs)(pb_key e \<mapsto> (bits_of (ib_inds e), last_cap e))"
proof
  fix k
  from find_idx_Some[OF i] have l: "i < length bs" "pb_key (bs ! i) = pb_key e" by auto
  then have f: "find_idx (\<lambda>b. pb_key b = k) (bs[i := e]) = find_idx (\<lambda>b. pb_key b = k) bs"
    by (simp add: find_idx_update)
  have "j \<noteq> i" if "find_idx (\<lambda>b. pb_key b = k) bs = Some j" "k \<noteq> pb_key e" for j
    using find_idx_Some[OF that(1)] l that(2) by auto
  with f i l show "receivers_of (bs[i := e]) k
      = ((receivers_of bs)(pb_key e \<mapsto> (bits_of (ib_inds e), last_cap e))) k"
    by (cases "k = pb_key e"; cases "find_idx (\<lambda>b. pb_key b = k) bs") (auto simp: receivers_of_find)
qed

lemma receivers_of_sweep:
  "distinct (map pb_key bs) \<Longrightarrow>
   receivers_of (sweep (aged last_cap IPRP_PB_TEXP t) bs) = receiver_expire t (receivers_of bs)"
proof (induction bs)
  case Nil
  then show ?case by (simp add: receivers_of_def receiver_expire_def)
next
  case (Cons b bs)
  have k: "receivers_of bs (pb_key b) = None"
    using Cons.prems by (auto simp: receivers_of_def map_of_eq_None_iff)
  have c: "receivers_of (b # xs) = (receivers_of xs)(pb_key b \<mapsto> (bits_of (ib_inds b), last_cap b))" for xs
    by (simp add: receivers_of_def)
  from Cons k show ?case by (auto simp: c receiver_expire_def aged_def fun_eq_iff)
qed

lemma cap_update_receivers:
  assumes h: "inds_ok h" and ok: "cap_event_ok v h (Event t (env, m))" and d: "distinct (map pb_key bs)"
  shows "\<exists>bs' cnt' r. cap_update v env t m (bs, cnt) = Inr (bs', cnt', r) \<and> distinct (map pb_key bs')
    \<and> receivers_of bs' = receiver_cap h t m (receivers_of bs)"
proof -
  from ok obtain b0 where e: "this_host env = h" "elem_mem env" "base_mem env = Some b0"
    "length (ib_dest_addr b0) = IPRP_MAX_INDS" "v = Unicast \<longrightarrow> inds_ok (cap_receiver m)"
    by (auto simp: cap_event_ok_def)
  from bits_of_match[OF h, of "cap_inds m"] obtain x where
    x: "ind_match h (cap_inds m) = Inr x" "bits_of x = bits_of (cap_inds m) \<inter> host_inds h" .
  from create_base_ok[OF e(3-5), of t x cnt bs] obtain b cnt1 where
    b: "create_base v env t m x cnt bs = Inr (b, cnt1)" by blast
  have total: "\<exists>bs' cnt' r. cap_update v env t m (bs, cnt) = Inr (bs', cnt', r)"
    using e x(1) b by (auto simp: cap_update_def Let_def split: option.splits)
  then obtain bs' cnt' r where r: "cap_update v env t m (bs, cnt) = Inr (bs', cnt', r)" by blast
  then have st: "cap_step v t (env, cnt, m) bs = Inr bs'" by simp
  have "receivers_of bs' = receiver_cap h t m (receivers_of bs)"
    using r
  proof (cases rule: cap_update_cases)
    case (known i y b')
    then have y: "y = x" using x(1) e(1) by simp
    have "pb_key b' = cap_key m" using known(3) find_idx_Some[OF known(2)] by simp
    with receivers_of_update[of b' bs i] known y x(2) show ?thesis
      by (simp add: receiver_cap_def receivers_of_find[of bs "cap_key m"])
  next
    case (new y b')
    then have y: "y = x" using x(1) e(1) by simp
    from create_base_fields[OF new(4)] y have f: "pb_key b' = cap_key m" "last_cap b' = t" "ib_inds b' = x" by auto
    with receivers_of_append[of b' bs] new y x(2) show ?thesis
      by (simp add: receiver_cap_def receivers_of_find[of bs "cap_key m"] bits_of_empty[symmetric])
  next
    case none
    with x e(1) have "bits_of (cap_inds m) \<inter> host_inds h = {}" by simp
    with none show ?thesis by (simp add: receiver_cap_def receivers_of_find[of bs "cap_key m"])
  qed
  with r pbs.step_distinct[OF st d] show ?thesis by blast
qed

lemma icd_cap_run_receivers:
  "inds_ok h \<Longrightarrow> \<forall>ev \<in> set evs. cap_event_ok v h ev \<Longrightarrow> distinct (map pb_key bs) \<Longrightarrow>
   \<exists>bs' cnt'. icd_cap_run v evs (bs, cnt) = Inr (bs', cnt') \<and> distinct (map pb_key bs')
     \<and> receivers_of bs' = receiver_run h evs (receivers_of bs)"
proof (induction evs arbitrary: bs cnt)
  case Nil
  then show ?case by simp
next
  case (Cons ev evs)
  show ?case
  proof (cases ev)
    case (Event t em)
    obtain env m where em: "em = (env, m)" by (cases em)
    from cap_update_receivers[OF Cons.prems(1), of v t env m bs cnt] Cons.prems Event em
    obtain bs1 cnt1 r where u: "cap_update v env t m (bs, cnt) = Inr (bs1, cnt1, r)"
      "distinct (map pb_key bs1)" "receivers_of bs1 = receiver_cap h t m (receivers_of bs)" by auto
    with Cons.IH[OF Cons.prems(1) _ u(2), of cnt1] Cons.prems(2) Event em show ?thesis by simp
  next
    case (Sweep t)
    with Cons.IH[OF Cons.prems(1) _ pbs.sweep_distinct[OF Cons.prems(3)], of "aged last_cap IPRP_PB_TEXP t" cnt]
      Cons.prems show ?thesis by (simp add: receivers_of_sweep)
  qed
qed

section \<open>Properties\<close>

text \<open>
  C32. A CAP message arrives as it was sent: whatever the sender's stack held, the receiver of
  the datagram decodes exactly the message that was written, in both variants.
\<close>

theorem cap_message_round_trip:
  assumes "cap_ok v m" and "length b = ctlmsg_size v"
  shows "ctl_decode v (put_cap_msg v m b) = Some (Cap m)"
  using assms by (rule cap_decode)

definition example_cap :: cap_msg where
  "example_cap = \<lparr>cap_version = 1, cap_receiver = example_host, cap_src_addr = 0x0A000001,
     cap_dest_addr = 0x0A00000A, cap_inds = 9, cap_src_port = 5000, cap_dest_port = 6000\<rparr>"

theorem cap_message_round_trip_witness:
  "ctl_decode Unicast (put_cap_msg Unicast example_cap (replicate 168 3)) = Some (Cap example_cap)"
  by (rule cap_message_round_trip) (simp_all add: cap_ok_def example_cap_def example_ok)

text \<open>
  An ACK message arrives as it was sent.
\<close>

theorem ack_message_round_trip:
  assumes "ack_ok m" and "length b = ctlmsg_size Multicast"
  shows "ctl_decode Multicast (put_ack_msg m b) = Some (Ack m)"
  using assms by (rule ack_decode)

definition example_ack :: ack_msg where
  "example_ack = \<lparr>ack_host = example_host, ack_group_addr = 0xE0000001, ack_src_addr = 0x0A000001\<rparr>"

theorem ack_message_round_trip_witness:
  "ctl_decode Multicast (put_ack_msg example_ack (replicate 152 3)) = Some (Ack example_ack)"
  by (rule ack_message_round_trip) (simp_all add: ack_ok_def example_ack_def example_ok)


definition example_base :: icd_base where
  "example_base = \<lparr>ib_link = pb_link example_peerbase, ib_inds = 0, ib_dest_addr = replicate 16 0xDEADBEEF,
     queue_id = 3, isd_pid = 0, last_cap = 0\<rparr>"

definition example_icd_env :: icd_env where
  "example_icd_env = \<lparr>this_host = example_host, base_mem = Some example_base, si_mem = Some example_si,
     elem_mem = True, rand_of = (\<lambda>seed k. 40 + k), ack_sent = True\<rparr>"

lemma example_inds_ok: "inds_ok example_host"
  using example_ok(1) by (auto simp: inds_ok_def example_host_def numeral_2_eq_2 iprp_consts)
    (simp_all add: take_bit_eq_mod)

lemma example_cap_ok: "cap_event_ok v example_host (Event t (example_icd_env, example_cap))"
  by (simp add: cap_event_ok_def example_icd_env_def example_base_def example_cap_def example_inds_ok
      iprp_consts)


text \<open>
  The SNSID determines the sender: the receiver reads the source address and port of the
  link back from it, and two links of the sender get the same SNSID only with the same address,
  port and counter.
\<close>

theorem snsid_identifies_link:
  shows "get32 0 (snsid_of sa sp c) = sa \<and> get16 16 (snsid_of sa sp c) = sp
    \<and> length (snsid_of sa sp c) = IPRP_SNSID_SIZE
    \<and> (snsid_of sa sp c = snsid_of sa' sp' c' \<longrightarrow> sa = sa' \<and> sp = sp' \<and> c = c')"
proof -
  have "sa = sa' \<and> sp = sp' \<and> c = c'" if "snsid_of sa sp c = snsid_of sa' sp' c'"
    using that snsid_of_fields by metis
  then show ?thesis by (simp add: snsid_of_fields length_snsid_of iprp_consts)
qed

theorem snsid_identifies_link_witness:
  "get32 0 (snsid_of 1 2 3) = 1 \<and> snsid_of 1 2 3 \<noteq> snsid_of 1 2 4"
  using snsid_identifies_link[of 1 2 3 1 2 4] by auto

text \<open>
  The queue number is not checked against those in use: the number is the first that
  \<open>rand\<close> gives after seeding with the current second, so two bases created in the same second
  always share their queue, whatever bases exist.
\<close>

theorem same_second_same_queue:
  assumes "create_base v env t m x c bs = Inr (b, c1)" and "create_base v env t m' x' c' bs' = Inr (b', c1')"
  shows "queue_id b = queue_id b' \<and> queue_id b = of_nat (rand_of env t 0 mod 1024)"
  using assms
  by (auto simp: create_base_def and_then_eq_Inr get_queue_number_value Let_def split: option.splits)

lemma example_create:
  "\<exists>b c1. create_base Multicast example_icd_env t m x c bs = Inr (b, c1) \<and> queue_id b = 40"
  by (simp add: create_base_def example_icd_env_def example_base_def get_queue_number_value Let_def)

theorem same_second_same_queue_witness:
  "\<exists>b c1 b' c1'. create_base Multicast example_icd_env 5 example_cap 1 0 [] = Inr (b, c1)
    \<and> create_base Multicast example_icd_env 5 (example_cap\<lparr>cap_src_port := 7\<rparr>) 1 c1 [b] = Inr (b', c1')
    \<and> queue_id b = queue_id b'"
proof -
  obtain b c1 where b: "create_base Multicast example_icd_env 5 example_cap 1 0 [] = Inr (b, c1)"
    using example_create by blast
  obtain b' c1' where b': "create_base Multicast example_icd_env 5 (example_cap\<lparr>cap_src_port := 7\<rparr>) 1 c1 [b]
      = Inr (b', c1')" using example_create by blast
  from same_second_same_queue[OF b b'] b b' show ?thesis by blast
qed

text \<open>
  C40. A CAP message can write outside the peer base: in the unicast variant, a message for an
  unknown link that has a common IND and lists an interface of the receiver with an IND of 16 or
  more is not rejected, and the address is stored past the array.
\<close>

theorem cap_bad_ind_out_of_bounds:
  assumes "inds_ok (this_host env)" and "bits_of (cap_inds m) \<inter> host_inds (this_host env) \<noteq> {}"
    and "peerbase_query m (peerbases s) = None"
    and "base_mem env = Some b0" and "length (ib_dest_addr b0) = IPRP_MAX_INDS"
    and "host_ok (cap_receiver m)"
    and "f \<in> set (take (nb_ifaces (cap_receiver m)) (ifaces (cap_receiver m)))" and "16 \<le> unat (ind f)"
  shows "handle_cap Unicast env t m s = Inl OutOfBounds"
proof -
  have sd: "f \<in> set fs \<Longrightarrow> length ds = 16 \<Longrightarrow> set_dests fs ds = Inl OutOfBounds" for fs ds
    using assms(8) by (induction fs arbitrary: ds) auto
  from bits_of_match[OF assms(1), of "cap_inds m"] obtain x where
    x: "ind_match (this_host env) (cap_inds m) = Inr x" "bits_of x = bits_of (cap_inds m) \<inter> host_inds (this_host env)" .
  with assms(2) have "x \<noteq> 0" using bits_of_empty[of x] by auto
  moreover have "create_base Unicast env t m x c bs = Inl OutOfBounds" for c bs
    using assms(4-7) sd by (simp add: create_base_def used_ifaces_ok iprp_consts Let_def)
  ultimately show ?thesis using x(1) assms(3) by (simp add: handle_cap_def cap_update_def)
qed

definition bad_ind_host :: host where
  "bad_ind_host = \<lparr>nb_ifaces = 1, ifaces = replicate 16 \<lparr>ind = 200, if_addr = 1\<rparr>\<rparr>"

theorem cap_bad_ind_out_of_bounds_witness:
  "handle_cap Unicast example_icd_env 0 (example_cap\<lparr>cap_receiver := bad_ind_host\<rparr>)
     \<lparr>peerbases = [], sender_ifs = [], reboot_counter = 0\<rparr> = Inl OutOfBounds"
proof (rule cap_bad_ind_out_of_bounds[where f = "\<lparr>ind = 200, if_addr = 1\<rparr>" and ?b0.0 = example_base])
  have "0 \<in> bits_of (cap_inds (example_cap\<lparr>cap_receiver := bad_ind_host\<rparr>))"
    by (simp add: bits_of_def example_cap_def bit_iff_odd)
  moreover have "0 \<in> host_inds (this_host example_icd_env)"
    by (simp add: host_inds_def example_icd_env_def example_host_def numeral_2_eq_2)
  ultimately show "bits_of (cap_inds (example_cap\<lparr>cap_receiver := bad_ind_host\<rparr>))
      \<inter> host_inds (this_host example_icd_env) \<noteq> {}" by blast
qed (simp_all add: example_icd_env_def example_inds_ok peerbase_query_def example_base_def iprp_consts
    bad_ind_host_def host_ok_def)

text \<open>
  A CAP of a known link adds its INDs but not their addresses: in the unicast variant an
  IND that a later CAP brings is marked as common while its destination stays what the memory of the
  base held, so copies for it go to an address nobody announced.
\<close>

theorem cap_known_link_keeps_destinations:
  assumes "inds_ok (this_host env)" and "peerbase_query m (peerbases s) = Some i"
    and "k \<in> bits_of (cap_inds m)" and "k \<in> host_inds (this_host env)"
  shows "\<exists>s'. handle_cap Unicast env t m s = Inr (s', [])
    \<and> k \<in> bits_of (ib_inds (peerbases s' ! i))
    \<and> ib_dest_addr (peerbases s' ! i) = ib_dest_addr (peerbases s ! i)"
proof -
  from bits_of_match[OF assms(1), of "cap_inds m"] obtain x where
    x: "ind_match (this_host env) (cap_inds m) = Inr x" "bits_of x = bits_of (cap_inds m) \<inter> host_inds (this_host env)" .
  have "i < length (peerbases s)" using assms(2) find_idx_Some by (auto simp: peerbase_query_def)
  with x assms(2-4) show ?thesis by (simp add: handle_cap_def cap_update_def Let_def)
qed

theorem cap_known_link_keeps_destinations_witness:
  "\<exists>s'. handle_cap Unicast example_icd_env 9 (example_cap\<lparr>cap_dest_addr := 2, cap_src_port := 3, cap_dest_port := 4\<rparr>)
      \<lparr>peerbases = [example_base], sender_ifs = [], reboot_counter = 0\<rparr> = Inr (s', [])
    \<and> 3 \<in> bits_of (ib_inds (peerbases s' ! 0)) \<and> ib_dest_addr (peerbases s' ! 0) = replicate 16 0xDEADBEEF"
proof -
  let ?m = "example_cap\<lparr>cap_dest_addr := 2, cap_src_port := 3, cap_dest_port := 4\<rparr>"
  let ?s = "\<lparr>peerbases = [example_base], sender_ifs = [], reboot_counter = 0\<rparr>"
  have "3 \<in> bits_of (cap_inds ?m)" by (simp add: bits_of_def example_cap_def bit_iff_odd)
  moreover have "3 \<in> host_inds (this_host example_icd_env)"
    by (simp add: host_inds_def example_icd_env_def example_host_def numeral_2_eq_2 take_bit_eq_mod)
  moreover have "peerbase_query ?m (peerbases ?s) = Some 0"
    by (simp add: peerbase_query_def example_base_def example_peerbase_def example_cap_def)
  moreover have "inds_ok (this_host example_icd_env)" using example_inds_ok by (simp add: example_icd_env_def)
  moreover have "ib_dest_addr (peerbases ?s ! 0) = replicate 16 0xDEADBEEF" by (simp add: example_base_def)
  ultimately show ?thesis using cap_known_link_keeps_destinations[of example_icd_env ?m ?s 0 3 9] by auto
qed

text \<open>
  One datagram that is no message ends the control thread: the loop breaks out instead of
  dropping it, and no message that follows has any effect.
\<close>

theorem control_stops_at_bad_message:
  assumes "control_loop v good s = Inr (s', acks, True)" and "ctl_decode v data = None"
  shows "control_loop v (good @ (t, env, Some data) # rs) s = Inr (s', acks, False)"
  using assms
proof (induction v good s arbitrary: acks rule: control_loop.induct)
  case (3 v t' env' data' rs' s)
  show ?case
  proof (cases "ctl_decode v data'")
    case (Some m)
    with 3 show ?thesis
      by (cases m) (fastforce simp: and_then_eq_Inr)+
  qed (use 3 in simp)
qed simp_all

theorem control_stops_at_bad_message_witness:
  "control_loop Unicast ([] @ (0, example_icd_env, Some []) #
      [(1, example_icd_env, Some (put_cap_msg Unicast example_cap (replicate 168 0)))])
      \<lparr>peerbases = [], sender_ifs = [], reboot_counter = 0\<rparr>
    = Inr (\<lparr>peerbases = [], sender_ifs = [], reboot_counter = 0\<rparr>, [], False)"
  by (rule control_stops_at_bad_message) (simp_all add: ctl_decode_def Let_def)

text \<open>
  An ACK of a sender not known yet makes one entry for it, with the sender's interfaces in
  order, and for each of them the address of a local interface of the same IND; where there is
  none, the local address is what the memory held.  A later ACK only refreshes the entry.
\<close>

lemma si_copy_fields:
  "length (si_ifaces s) = 16 \<Longrightarrow> length (si_host_addr s) = 16 \<Longrightarrow> i + length fs \<le> 16 \<Longrightarrow>
   \<exists>s'. si_copy mine i fs s = Inr s' \<and> si_key s' = si_key s \<and> si_nb_ifaces s' = si_nb_ifaces s
     \<and> length (si_ifaces s') = 16 \<and> length (si_host_addr s') = 16
     \<and> (\<forall>j < i. si_ifaces s' ! j = si_ifaces s ! j \<and> si_host_addr s' ! j = si_host_addr s ! j)
     \<and> (\<forall>j < length fs. si_ifaces s' ! (i + j) = fs ! j
         \<and> si_host_addr s' ! (i + j) = (case find_idx (\<lambda>g. ind (fs ! j) = ind g) mine of
             Some k \<Rightarrow> if_addr (mine ! k) | None \<Rightarrow> si_host_addr s ! (i + j)))"
proof (induction fs arbitrary: i s)
  case Nil
  then show ?case by simp
next
  case (Cons f fs)
  define s2 where "s2 = (case find_idx (\<lambda>g. ind f = ind g) mine of
      Some j \<Rightarrow> s\<lparr>si_ifaces := (si_ifaces s)[i := f], si_host_addr := (si_host_addr s)[i := if_addr (mine ! j)]\<rparr>
    | None \<Rightarrow> s\<lparr>si_ifaces := (si_ifaces s)[i := f]\<rparr>)"
  have i: "i < 16" using Cons.prems(3) by simp
  have s2: "length (si_ifaces s2) = 16" "length (si_host_addr s2) = 16" "si_key s2 = si_key s"
    "si_nb_ifaces s2 = si_nb_ifaces s" "si_ifaces s2 = (si_ifaces s)[i := f]"
    "j \<noteq> i \<Longrightarrow> si_host_addr s2 ! j = si_host_addr s ! j"
    "si_host_addr s2 ! i = (case find_idx (\<lambda>g. ind f = ind g) mine of
       Some k \<Rightarrow> if_addr (mine ! k) | None \<Rightarrow> si_host_addr s ! i)" for j
    using Cons.prems i by (auto simp: s2_def si_key.simps split: option.splits)
  have st: "si_copy mine i (f # fs) s = si_copy mine (Suc i) fs s2"
    using Cons.prems i by (simp add: s2_def Let_def split: option.splits)
  from Cons.IH[OF s2(1,2), of "Suc i"] Cons.prems(3) obtain s' where
    s': "si_copy mine (Suc i) fs s2 = Inr s'" "si_key s' = si_key s2" "si_nb_ifaces s' = si_nb_ifaces s2"
    "length (si_ifaces s') = 16" "length (si_host_addr s') = 16"
    "\<forall>j < Suc i. si_ifaces s' ! j = si_ifaces s2 ! j \<and> si_host_addr s' ! j = si_host_addr s2 ! j"
    "\<forall>j < length fs. si_ifaces s' ! (Suc i + j) = fs ! j
         \<and> si_host_addr s' ! (Suc i + j) = (case find_idx (\<lambda>g. ind (fs ! j) = ind g) mine of
             Some k \<Rightarrow> if_addr (mine ! k) | None \<Rightarrow> si_host_addr s2 ! (Suc i + j))" by auto
  have "si_ifaces s' ! (i + j) = (f # fs) ! j
      \<and> si_host_addr s' ! (i + j) = (case find_idx (\<lambda>g. ind ((f # fs) ! j) = ind g) mine of
             Some k \<Rightarrow> if_addr (mine ! k) | None \<Rightarrow> si_host_addr s ! (i + j))"
    if "j < length (f # fs)" for j
  proof (cases j)
    case 0
    then show ?thesis using s'(6) s2(5,7) i Cons.prems(1) by (simp cong: option.case_cong)
  next
    case (Suc k)
    then show ?thesis using s'(7) s2(6)[of "Suc (i + k)"] that by (simp split: option.splits)
  qed
  moreover have "\<forall>j < i. si_ifaces s' ! j = si_ifaces s ! j \<and> si_host_addr s' ! j = si_host_addr s ! j"
    using s'(6) s2(5,6) by simp
  ultimately show ?case using st s' s2 by auto
qed

definition si_matches :: "host \<Rightarrow> host \<Rightarrow> sender_ifaces \<Rightarrow> bool" where
  "si_matches mine theirs e \<longleftrightarrow> (\<forall>j < nb_ifaces theirs. si_ifaces e ! j = ifaces theirs ! j
     \<and> (ind (ifaces theirs ! j) \<in> ind ` set (take (nb_ifaces mine) (ifaces mine)) \<longrightarrow>
        (\<exists>g \<in> set (take (nb_ifaces mine) (ifaces mine)). ind g = ind (ifaces theirs ! j)
           \<and> si_host_addr e ! j = if_addr g)))"

theorem ack_creates_entry:
  assumes "host_ok (this_host env)" and "ack_ok m" and "si_mem env = Some m0" and "si_ok m0" and "elem_mem env"
    and "ack_key m \<notin> si_key ` set (sender_ifs s)"
  shows "\<exists>e. handle_ack env t m s = Inr (s\<lparr>sender_ifs := sender_ifs s @ [e]\<rparr>)
    \<and> si_key e = ack_key m \<and> si_nb_ifaces e = of_nat (nb_ifaces (ack_host m)) \<and> si_last_seen e = t
    \<and> si_matches (this_host env) (ack_host m) e"
proof -
  let ?mine = "take (nb_ifaces (this_host env)) (ifaces (this_host env))"
  let ?fs = "take (nb_ifaces (ack_host m)) (ifaces (ack_host m))"
  let ?m0 = "m0\<lparr>si_sender_addr := ack_src_addr m, si_group_addr := ack_group_addr m,
      si_nb_ifaces := of_nat (nb_ifaces (ack_host m))\<rparr>"
  have h: "nb_ifaces (ack_host m) \<le> 16" "length (ifaces (ack_host m)) = 16" "host_ok (ack_host m)"
    using assms(2) host_okD[of "ack_host m"] by (auto simp: ack_ok_def)
  have "length (si_ifaces ?m0) = 16" "length (si_host_addr ?m0) = 16" "0 + length ?fs \<le> 16"
    using assms(4) h by (auto simp: si_ok_def iprp_consts)
  from si_copy_fields[OF this, of ?mine] h obtain e where
    e: "si_copy ?mine 0 ?fs ?m0 = Inr e" "si_key e = si_key ?m0" "si_nb_ifaces e = si_nb_ifaces ?m0"
    "\<forall>j < nb_ifaces (ack_host m). si_ifaces e ! j = ?fs ! j
         \<and> si_host_addr e ! j = (case find_idx (\<lambda>g. ind (?fs ! j) = ind g) ?mine of
             Some k \<Rightarrow> if_addr (?mine ! k) | None \<Rightarrow> si_host_addr ?m0 ! j)"
    by (auto cong: option.case_cong)
  have "si_matches (this_host env) (ack_host m) e"
    unfolding si_matches_def
  proof (intro allI impI conjI)
    fix j assume j: "j < nb_ifaces (ack_host m)"
    then show "si_ifaces e ! j = ifaces (ack_host m) ! j" using e(4) by simp
    assume "ind (ifaces (ack_host m) ! j) \<in> ind ` set ?mine"
    then obtain k where k: "find_idx (\<lambda>g. ind (ifaces (ack_host m) ! j) = ind g) ?mine = Some k"
      by (cases "find_idx (\<lambda>g. ind (ifaces (ack_host m) ! j) = ind g) ?mine") (auto simp: find_idx_None)
    from find_idx_Some[OF k] have "?mine ! k \<in> set ?mine" "ind (?mine ! k) = ind (ifaces (ack_host m) ! j)"
      by (auto simp: nth_mem simp del: nth_take)
    with e(4) j k show "\<exists>g \<in> set ?mine. ind g = ind (ifaces (ack_host m) ! j) \<and> si_host_addr e ! j = if_addr g"
      by (intro bexI[of _ "?mine ! k"]) auto
  qed
  then have sm: "si_matches (this_host env) (ack_host m) (e\<lparr>si_last_seen := t\<rparr>)" by (simp add: si_matches_def)
  have "find_idx (\<lambda>s. si_key s = ack_key m) (sender_ifs s) = None"
    using assms(6) by (force simp: find_idx_None image_iff)
  then have "handle_ack env t m s = Inr (s\<lparr>sender_ifs := sender_ifs s @ [e\<lparr>si_last_seen := t\<rparr>]\<rparr>)"
    using assms(3,5) e(1) used_ifaces_ok[OF assms(1)] used_ifaces_ok[OF h(3)]
    by (simp add: handle_ack_def ack_update_def in_sender_ifaces_key ack_key.simps create_sender_ifaces_def)
  with sm e(2,3) show ?thesis
    by (intro exI[of _ "e\<lparr>si_last_seen := t\<rparr>"]) (simp add: si_key.simps ack_key.simps)
qed

theorem ack_creates_entry_witness:
  "\<exists>e. handle_ack example_icd_env 5 example_ack \<lparr>peerbases = [], sender_ifs = [], reboot_counter = 0\<rparr>
      = Inr \<lparr>peerbases = [], sender_ifs = [e], reboot_counter = 0\<rparr>
    \<and> si_nb_ifaces e = 2 \<and> si_last_seen e = 5"
proof -
  let ?s = "\<lparr>peerbases = [], sender_ifs = [], reboot_counter = 0\<rparr>"
  have "host_ok (this_host example_icd_env)" "ack_ok example_ack" "si_mem example_icd_env = Some example_si"
    "si_ok example_si" "elem_mem example_icd_env" "ack_key example_ack \<notin> si_key ` set (sender_ifs ?s)"
    using example_ok example_si_ok by (simp_all add: example_icd_env_def ack_ok_def example_ack_def)
  from ack_creates_entry[OF this, of 5] show ?thesis
    by (auto simp: example_ack_def example_host_def)
qed

end
