(* ===== verification/Iprp_Transport.thy ===== *)
theory Iprp_Transport
  imports Iprp_Isd Iprp_Ird Iprp_Icd_Control
begin

text \<open>
  From the sending daemon to the receiving one: what the receiving daemon reads in a packet the
  sending daemon made (src/isd/handle.c against src/ird/handle.c), and what it forwards to the
  application.  Between the daemons the kernel puts an IP and a UDP header, 28 bytes, before the
  iPRP packet.
\<close>

section \<open>The packet of the application\<close>

text \<open>A packet with these addresses and ports (in host order) and this payload, whose lengths and
  checksums are those the headers promise.\<close>

definition app_packet :: "in_addr \<Rightarrow> in_addr \<Rightarrow> u16 \<Rightarrow> u16 \<Rightarrow> bytes \<Rightarrow> bytes \<Rightarrow> bool" where
  "app_packet sa da sp dp payload r \<longleftrightarrow>
     length r = 28 + length payload \<and> drop 28 r = payload
     \<and> get32 ip_saddr r = sa \<and> get32 ip_daddr r = da
     \<and> get16 ip_tot_len r = htons (of_nat (length r)) \<and> ip_checksum 0 20 r = 0
     \<and> get16 udp_source r = htons sp \<and> get16 udp_dest r = htons dp
     \<and> get16 udp_len r = htons (of_nat (length payload + 8)) \<and> get16 udp_check r = 0"

section \<open>What a receiver reads\<close>

lemma get_bytes_append:
  "length hdr \<le> o' \<Longrightarrow> get_bytes o' n (hdr @ p) = get_bytes (o' - length hdr) n p"
  by (simp add: get_bytes_def)

lemma iprp_packet_on_wire:
  assumes p: "iprp_packet_of v lk s payload p" and "length hdr = 28"
  shows "length (hdr @ p) = 28 + iprp_header_size v + length payload"
    and "get_raw 20 29 (hdr @ p) = snsid lk" and "get32 49 (hdr @ p) = s"
    and "get16 (28 + hdr_dest_port) (hdr @ p) = dest_port lk"
    and "v = Unicast \<Longrightarrow> get32 (28 + hdr_dest_addr) (hdr @ p) = dest_addr lk"
    and "get_bytes (28 + iprp_header_size v) (length payload) (hdr @ p) = payload"
  using assms by (simp_all add: iprp_packet_of_def get_raw_def get32_def get16_def get_bytes_append
      layout_defs iprp_consts)

section \<open>What a receiver forwards\<close>

lemma take_get_bytes: "o' + k \<le> n \<Longrightarrow> get_bytes o' k (take n r) = get_bytes o' k r"
  by (simp add: get_bytes_def drop_take min_def)

lemma ip_checksum_take:
  assumes "20 \<le> n" and "n \<le> length r"
  shows "ip_checksum 0 20 (take n r) = ip_checksum 0 20 r"
  using assms by (intro ip_checksum_cong) (auto simp: take_get_bytes)

text \<open>The verdict on a fresh packet that holds an iPRP packet is the packet of the application.\<close>

lemma forwarded_packet:
  assumes p: "iprp_packet_of v lk s payload p" and h: "length hdr = 28"
    and da: "v = Multicast \<longrightarrow> get32 ip_daddr hdr = dest_addr lk"
    and len: "28 + iprp_header_size v + length payload < 65536"
    and r: "create_new_packet v (hdr @ p) (ird_payload_size v (hdr @ p)) sa sp = Inr r"
  shows "app_packet sa (dest_addr lk) sp (dest_port lk) payload (take (28 + length payload) r)"
proof -
  note wire = iprp_packet_on_wire[OF p h]
  let ?n = "ird_payload_size v (hdr @ p)"
  have n: "unat ?n = length payload" using unat_payload_size[of v "hdr @ p"] wire(1) len by simp
  have body: "28 + iprp_header_size v + unat ?n = length (hdr @ p)" using n wire(1) by simp
  have w: "?n = of_nat (length payload)" 
  proof -
    have "of_nat (unat ?n) = ?n" by simp
    with n show ?thesis by simp
  qed
  have u16: "(ucast (of_nat k :: u64) :: u16) = of_nat k" for k
    by (simp add: unsigned_of_nat of_nat_take_bit take_bit_word_eq_self)
  have hd: "get32 ip_daddr (hdr @ p) = get32 ip_daddr hdr"
    using h by (simp add: get32_def get_bytes_def ip_daddr_def)
  have F: "length r = length (hdr @ p)" "get_bytes 28 (unat ?n) r = get_bytes (28 + iprp_header_size v) (unat ?n) (hdr @ p)"
    "get32 ip_saddr r = sa"
    "get32 ip_daddr r = (case v of Unicast \<Rightarrow> get32 (28 + hdr_dest_addr) (hdr @ p)
      | Multicast \<Rightarrow> get32 ip_daddr (hdr @ p))"
    "get16 ip_tot_len r = htons (ucast (?n + 28))" "get16 udp_source r = htons sp"
    "get16 udp_dest r = htons (get16 (28 + hdr_dest_port) (hdr @ p))"
    "get16 udp_len r = htons (ucast (?n + 8))" "get16 udp_check r = 0" "ip_checksum 0 20 r = 0"
    using create_new_packet_fields[OF body, of sa sp] unfolding r by simp_all
  have dst: "get32 ip_daddr r = dest_addr lk" using F(4) wire(5) da hd by (cases v) simp_all
  have payload: "get_bytes 28 (length payload) r = payload" using F(2) wire(6) n by simp
  have lens: "get16 ip_tot_len r = htons (of_nat (28 + length payload))"
    "get16 udp_len r = htons (of_nat (length payload + 8))"
    using F(5,8) u16[of "length payload + 28"] u16[of "length payload + 8"] w by (simp_all add: add.commute)
  let ?t = "take (28 + length payload) r"
  have l: "28 + length payload \<le> length r" using F(1) wire(1) by simp
  have "get32 o' ?t = get32 o' r" if "o' + 4 \<le> 28" for o' using that by (simp add: get32_def take_get_bytes)
  moreover have "get16 o' ?t = get16 o' r" if "o' + 2 \<le> 28" for o' using that by (simp add: get16_def take_get_bytes)
  moreover have "ip_checksum 0 20 ?t = 0" using ip_checksum_take[of "28 + length payload" r] l F(10) by simp
  moreover have "drop 28 ?t = payload" using payload by (simp add: get_bytes_def drop_take)
  moreover have "length ?t = 28 + length payload" using l by simp
  ultimately show ?thesis
    using F(3,6,7,9) dst lens wire(4) by (simp add: app_packet_def layout_defs)
qed

text \<open>A link carries the address and the port of its SNSID.\<close>

definition links_named :: "receiver_link list \<Rightarrow> bool" where
  "links_named links \<longleftrightarrow> (\<forall>l \<in> set links. rl_src_addr l = get32 0 (rl_snsid l) \<and> rl_src_port l = get16 16 (rl_snsid l))"

lemma link_step_named:
  assumes "links_named links" and "ird_link_step env t sid s links = Inr (links', l, fresh)"
  shows "links_named links' \<and> rl_src_addr l = get32 0 sid \<and> rl_src_port l = get16 16 sid"
  using assms(2)
proof (cases rule: ird_link_step_cases)
  case new
  with assms(1) receiver_link_create_Some[OF new(4)] show ?thesis by (auto simp: links_named_def)
next
  case (known i)
  have i: "i < length links" "rl_snsid (links ! i) = sid"
    using known(1) find_idx_Some[of _ links i] by (auto simp: receiver_link_get_def)
  with is_fresh_packet_frame[OF known(3)] assms(1)
  have "rl_snsid l = sid" "rl_src_addr l = get32 0 sid" "rl_src_port l = get16 16 sid"
    by (auto simp: links_named_def)
  with assms(1) known(2) show ?thesis
    using set_update_subset_insert[of links i l] by (auto simp: links_named_def)
qed

text \<open>Each packet with its verdict: a forwarded one is the packet rebuilt for the source its SNSID
  names.\<close>

definition rebuilt :: "variant \<Rightarrow> (time_t \<times> ird_env \<times> nfq_packet) \<times> verdict \<Rightarrow> bool" where
  "rebuilt v mv = (case mv of ((t, env, p), vd) \<Rightarrow> \<forall>b. nfq_payload p = Some b \<longrightarrow>
     28 + iprp_header_size v \<le> length b \<longrightarrow> length b < 65536 \<longrightarrow> vd_code vd \<noteq> NF_DROP \<longrightarrow>
     (\<exists>r. create_new_packet v b (ird_payload_size v b) (get32 0 (get_raw 20 29 b)) (get16 16 (get_raw 20 29 b)) = Inr r
       \<and> vd_data vd = take (length b - iprp_header_size v) r))"

lemma forwarded_size:
  assumes "28 + iprp_header_size v \<le> length buf" and "length buf < 65536"
  shows "unat (28 + ird_payload_size v buf) = length buf - iprp_header_size v"
proof -
  have "28 + ird_payload_size v buf = of_nat (length buf - (28 + iprp_header_size v)) + 28"
    using assms by (simp add: ird_payload_size_def layout_defs of_nat_diff algebra_simps)
  also have "\<dots> = of_nat (length buf - iprp_header_size v)" using assms by (simp add: of_nat_diff)
  finally have e: "28 + ird_payload_size v buf = of_nat (length buf - iprp_header_size v)" .
  show ?thesis unfolding e using assms by (simp only: unat_of_nat) simp
qed

lemma ird_handle_rebuilt:
  assumes "links_named links" and "ird_handle_packet v env t p links = Inr (links', vd)"
  shows "links_named links' \<and> rebuilt v ((t, env, p), vd)"
proof -
  from assms(2) obtain buf i l fresh where
    b: "nfq_payload p = Some buf" "nfq_id p = Some i"
    and st: "ird_link_step env t (get_raw 20 29 buf) (get32 49 buf) links = Inr (links', l, fresh)"
    and c: "fresh \<longrightarrow> (\<exists>r. create_new_packet v buf (ird_payload_size v buf) (rl_src_addr l) (rl_src_port l) = Inr r
        \<and> vd_data vd = take (unat (28 + ird_payload_size v buf)) r)"
    and d: "\<not> fresh \<longrightarrow> vd_code vd = NF_DROP"
    by (fastforce simp: ird_handle_packet_def get_payload_def get_packet_id_def set_verdict_def and_then_eq_Inr
        Let_def layout_defs iprp_consts split: option.splits if_splits)
  note nm = link_step_named[OF assms(1) st]
  from forwarded_size[of v buf] nm b c d show ?thesis by (cases fresh) (auto simp: rebuilt_def)
qed

lemma ird_handle_fresh:
  assumes "28 + iprp_header_size v \<le> length b" and "length b < 65536"
    and "ird_link_step env t (get_raw 20 29 b) (get32 49 b) links = Inr (links', l, True)"
  shows "\<exists>r vd. ird_handle_packet v env t (nfq_good b i) links = Inr (links', vd)
    \<and> vd_code vd = NF_QUEUE OR push_bit 16 (imd_queue_id env)
    \<and> create_new_packet v b (ird_payload_size v b) (rl_src_addr l) (rl_src_port l) = Inr r
    \<and> vd_data vd = take (length b - iprp_header_size v) r"
proof -
  have n: "28 + iprp_header_size v + unat (ird_payload_size v b) = length b"
    using unat_payload_size[OF assms(1,2)] assms(1) by simp
  from create_new_packet_fields[OF n, of "rl_src_addr l" "rl_src_port l"] obtain r
    where "create_new_packet v b (ird_payload_size v b) (rl_src_addr l) (rl_src_port l) = Inr r" by blast
  moreover have "53 \<le> length b" using assms(1) iprp_header_size_cases[of v] by auto
  ultimately show ?thesis using assms(3) forwarded_size[OF assms(1,2)]
    by (simp add: ird_handle_packet_def layout_defs iprp_consts Let_def)
qed

lemma ird_run_rebuilt:
  "ird_handle_routine v (map RecvPacket ms) links = Inr (links', vds) \<Longrightarrow> links_named links \<Longrightarrow>
   list_all (rebuilt v) (zip ms vds)"
proof (induction ms arbitrary: links vds)
  case (Cons m ms)
  from Cons.prems(1) obtain links1 vd vds1 where
    run: "ird_handle_packet v (fst (snd m)) (fst m) (snd (snd m)) links = Inr (links1, vd)"
    and rest: "ird_handle_routine v (map RecvPacket ms) links1 = Inr (links', vds1)" and vds: "vds = vd # vds1"
    unfolding ird_routine_Cons by (auto simp: and_then_eq_Inr)
  from ird_handle_rebuilt[OF Cons.prems(2) run] Cons.IH[OF rest] vds show ?case by simp
qed simp

section \<open>Runs of both daemons\<close>

text \<open>The sender's messages all use one link, with packets that fit the wire.\<close>

fun sends_on :: "link \<Rightarrow> isd_msg \<Rightarrow> bool" where
  "sends_on lk (t, env, pb, p) \<longleftrightarrow> pb_link (isd_base pb) = lk
     \<and> (\<forall>b. nfq_payload p = Some b \<longrightarrow> length b \<le> 65000)"

fun app_payload :: "isd_msg \<Rightarrow> bytes" where
  "app_payload (t, env, pb, p) = drop 28 (the (nfq_payload p))"

declare sends_on.simps [simp del] app_payload.simps [simp del]

text \<open>A message of the receiver is a datagram of the sender with headers of the kernel before it; which
  datagrams arrive, how often and in which order, is up to the network.\<close>

definition network_copy ::
  "variant \<Rightarrow> link \<Rightarrow> (verdict \<times> datagram list) list \<Rightarrow> time_t \<times> ird_env \<times> nfq_packet \<Rightarrow> bool" where
  "network_copy v lk outs m \<longleftrightarrow> link_mem (fst (snd m)) \<and> node_mem (fst (snd m))
     \<and> (\<exists>hdr k d j. k < length outs \<and> d \<in> set (snd (outs ! k)) \<and> length hdr = 28
          \<and> (v = Multicast \<longrightarrow> get32 ip_daddr hdr = dest_addr lk) \<and> snd (snd m) = nfq_good (hdr @ dg_data d) j)"

lemma copies_of_packet:
  assumes "copies_of v m n ds" and "sends_on lk m" and "isd_msg_ok v m" and "d \<in> set ds"
  shows "iprp_packet_of v lk n (app_payload m) (dg_data d) \<and> length (app_payload m) \<le> 64972"
  using assms by (cases m) (auto simp: copies_of.simps sends_on.simps app_payload.simps isd_msg_ok.simps
      split: option.splits)

lemma unat_small_seq: "k < 2147483647 \<Longrightarrow> unat (of_nat (k + 1) :: u32) = k + 1"
  by (rule unat_of_nat_u32) linarith

lemma network_copy_read:
  assumes outs: "\<forall>k < length ms. copies_of v (ms ! k) (of_nat (k mod 4294967295 + 1)) (snd (outs ! k))"
      "length outs = length ms" "length ms < 2147483648"
    and ms: "\<forall>m \<in> set ms. isd_msg_ok v m \<and> sends_on lk m"
    and net: "network_copy v lk outs m"
  obtains k hdr p j where "k < length ms" "iprp_packet_of v lk (of_nat (k + 1)) (app_payload (ms ! k)) p"
    "length hdr = 28" "v = Multicast \<longrightarrow> get32 ip_daddr hdr = dest_addr lk"
    "snd (snd m) = nfq_good (hdr @ p) j" "28 + iprp_header_size v + length (app_payload (ms ! k)) < 65536"
    "ird_msg_ok v m" "msg_snsid m = snsid lk" "msg_seq_nb m = of_nat (k + 1)" "sn_ok (msg_seq_nb m)"
proof -
  from net outs(2) obtain hdr k d j where
    k: "k < length ms" and d: "d \<in> set (snd (outs ! k))" and h: "length hdr = 28"
      "v = Multicast \<longrightarrow> get32 ip_daddr hdr = dest_addr lk"
    and s: "snd (snd m) = nfq_good (hdr @ dg_data d) j" and mem: "link_mem (fst (snd m))" "node_mem (fst (snd m))"
    unfolding network_copy_def by auto
  have kk: "k mod 4294967295 = k" using k outs(3) by simp
  have "ms ! k \<in> set ms" using k by simp
  with copies_of_packet[of v "ms ! k" _ _ lk d] outs(1) ms k d kk
  have e: "iprp_packet_of v lk (of_nat (k + 1)) (app_payload (ms ! k)) (dg_data d)"
    and l: "length (app_payload (ms ! k)) \<le> 64972" by force+
  note wire = iprp_packet_on_wire[OF e h(1)]
  have len: "28 + iprp_header_size v + length (app_payload (ms ! k)) < 65536"
    using l iprp_header_size_cases[of v] by auto
  obtain t env p where m: "m = (t, env, p)" by (cases m)
  have "ird_msg_ok v m" using s mem wire(1) len m by (simp add: ird_msg_ok_def nfq_good_def)
  moreover have "msg_snsid m = snsid lk" "msg_seq_nb m = of_nat (k + 1)"
    using s m wire(2,3) by (simp_all add: msg_snsid.simps msg_seq_nb.simps nfq_good_def)
  moreover from this have "unat (msg_seq_nb m) = k + 1" using unat_small_seq[of k] k outs(3) by simp
  then have "sn_ok (msg_seq_nb m)" using k outs(3) by (auto simp: sn_ok_def)
  ultimately show ?thesis using that k e h s len by blast
qed

lemma rebuilt_app_packet:
  assumes "rebuilt v (m, vd)" and "vd_code vd \<noteq> NF_DROP"
    and e: "iprp_packet_of v lk n payload p" and h: "length hdr = 28"
    and da: "v = Multicast \<longrightarrow> get32 ip_daddr hdr = dest_addr lk"
    and m: "snd (snd m) = nfq_good (hdr @ p) j" and len: "28 + iprp_header_size v + length payload < 65536"
    and sid: "snsid lk = snsid_of (src_addr lk) (src_port lk) cnt"
  shows "app_packet (src_addr lk) (dest_addr lk) (src_port lk) (dest_port lk) payload (vd_data vd)"
proof -
  note wire = iprp_packet_on_wire[OF e h]
  obtain t env where t: "m = (t, env, nfq_good (hdr @ p) j)" using m by (cases m) auto
  from assms(1,2) t wire(1,2) len sid obtain r where
    "create_new_packet v (hdr @ p) (ird_payload_size v (hdr @ p)) (src_addr lk) (src_port lk) = Inr r"
    "vd_data vd = take (length (hdr @ p) - iprp_header_size v) r"
    by (auto simp: rebuilt_def nfq_good_def snsid_of_fields)
  with forwarded_packet[OF e h da len] wire(1) show ?thesis by simp
qed

text \<open>What reaches the receiver: copies of this sender's packets, and packets of others.\<close>

definition traffic ::
  "variant \<Rightarrow> link \<Rightarrow> (verdict \<times> datagram list) list \<Rightarrow> time_t \<times> ird_env \<times> nfq_packet \<Rightarrow> bool" where
  "traffic v lk outs m \<longleftrightarrow> network_copy v lk outs m
     \<or> ird_msg_ok v m \<and> sn_ok (msg_seq_nb m) \<and> msg_snsid m \<noteq> snsid lk"

text \<open>The verdict on a message is no forwarding, or the forwarding of the sender's \<open>k\<close>-th packet.\<close>

definition delivers ::
  "link \<Rightarrow> isd_msg list \<Rightarrow> (time_t \<times> ird_env \<times> nfq_packet) \<times> verdict \<Rightarrow> bool" where
  "delivers lk ms mv \<longleftrightarrow> msg_snsid (fst mv) = snsid lk \<longrightarrow> vd_code (snd mv) \<noteq> NF_DROP \<longrightarrow>
     (\<exists>k < length ms. unat (msg_seq_nb (fst mv)) = k + 1
       \<and> app_packet (src_addr lk) (dest_addr lk) (src_port lk) (dest_port lk) (app_payload (ms ! k)) (vd_data (snd mv)))"

lemma traffic_delivered:
  assumes outs: "\<forall>k < length ms. copies_of v (ms ! k) (of_nat (k mod 4294967295 + 1)) (snd (outs ! k))"
      "length outs = length ms" "length ms < 2147483648"
    and ms: "\<forall>m \<in> set ms. isd_msg_ok v m \<and> sends_on lk m"
    and sid: "snsid lk = snsid_of (src_addr lk) (src_port lk) cnt"
    and net: "\<forall>m \<in> set arr. traffic v lk outs m"
    and run: "ird_handle_routine v (map RecvPacket arr) [] = Inr (links, vds)"
  shows "list_all (delivers lk ms) (zip arr vds)"
proof -
  have "list_all (rebuilt v) (zip arr vds)" using ird_run_rebuilt[OF run] by (simp add: links_named_def)
  moreover have "delivers lk ms (m, vd)" if "rebuilt v (m, vd)" and "m \<in> set arr" for m vd
  proof (cases "network_copy v lk outs m")
    case True
    then obtain k hdr p j where n: "k < length ms" "iprp_packet_of v lk (of_nat (k + 1)) (app_payload (ms ! k)) p"
      "length hdr = 28" "v = Multicast \<longrightarrow> get32 ip_daddr hdr = dest_addr lk"
      "snd (snd m) = nfq_good (hdr @ p) j" "28 + iprp_header_size v + length (app_payload (ms ! k)) < 65536"
      "msg_seq_nb m = of_nat (k + 1)" by (rule network_copy_read[OF outs ms])
    from rebuilt_app_packet[OF that(1) _ n(2-6) sid] n(1,7) outs(3) unat_small_seq[of k] show ?thesis
      by (auto simp: delivers_def)
  next
    case False
    with net that(2) show ?thesis by (auto simp: traffic_def delivers_def)
  qed
  moreover have "fst mv \<in> set arr" if "mv \<in> set (zip arr vds)" for mv
    using that set_zip_leftD[of "fst mv" "snd mv" arr vds] by simp
  ultimately show ?thesis unfolding list_all_iff by (metis prod.collapse)
qed

end
