(* ===== verification/Iprp_Imd.thy ===== *)
theory Iprp_Imd
  imports Iprp_Files Iprp_Cache
begin

text \<open>
  The monitoring daemon (src/imd): the active senders cache its two packet threads fill
  (src/imd/handle.c), the verdict on each packet, and the routine that deletes the aged entries and
  writes the others to the active senders file (src/imd/activesenders.c).  The cache refines a
  table from links to the time of their last packet and whether iPRP is established.
\<close>

definition IMD_AS_TEXP :: time_t where "IMD_AS_TEXP = 120"
definition IPRP_AS_FILE :: string where "IPRP_AS_FILE = ''files/activesenders.iprp''"

section \<open>The active senders\<close>

type_synonym as_link = "in_addr \<times> in_addr \<times> u16 \<times> u16"

fun as_key :: "active_sender \<Rightarrow> as_link" where
  "as_key a = (as_src_addr a, as_dest_addr a, as_src_port a, as_dest_port a)"

definition activesenders_find_entry ::
  "in_addr \<Rightarrow> in_addr \<Rightarrow> u16 \<Rightarrow> u16 \<Rightarrow> active_sender list \<Rightarrow> nat option" where
  "activesenders_find_entry sa da sp dp es =
     find_idx (\<lambda>a. sa = as_src_addr a \<and> da = as_dest_addr a \<and> sp = as_src_port a
       \<and> dp = as_dest_port a) es"

text \<open>\<open>m\<close> is what \<open>malloc\<close> returned: NULL, or memory that holds anything.\<close>

definition activesenders_create_entry ::
  "variant \<Rightarrow> active_sender option \<Rightarrow> in_addr \<Rightarrow> in_addr \<Rightarrow> u16 \<Rightarrow> u16 \<Rightarrow> bool \<Rightarrow> active_sender option" where
  "activesenders_create_entry v m sa da sp dp enabled = (case m of
     None \<Rightarrow> None
   | Some a \<Rightarrow> Some (a\<lparr>as_src_addr := sa, as_dest_addr := da, as_src_port := sp, as_dest_port := dp,
       iprp_enabled := (case v of Unicast \<Rightarrow> False | Multicast \<Rightarrow> enabled)\<rparr>))"

section \<open>The handlers\<close>

record imd_env =
  entry_mem :: "active_sender option"
  as_node_mem :: bool

text \<open>The link information of a packet: addresses, and ports in host order.\<close>

definition packet_link :: "bytes \<Rightarrow> as_link" where
  "packet_link buf = (get32 ip_saddr buf, get32 ip_daddr buf, ntohs (get16 udp_source buf),
     ntohs (get16 udp_dest buf))"

text \<open>Find or create the entry, then update its timer and, in the multicast variant, its flag.\<close>

definition as_touch :: "variant \<Rightarrow> time_t \<Rightarrow> bool \<Rightarrow> active_sender \<Rightarrow> active_sender" where
  "as_touch v curr_time iprp_message e =
     (let e1 = e\<lparr>as_last_seen := curr_time\<rparr>
      in if v = Multicast \<and> iprp_message then e1\<lparr>iprp_enabled := True\<rparr> else e1)"

definition as_entry_step ::
  "variant \<Rightarrow> imd_env \<Rightarrow> time_t \<Rightarrow> as_link \<Rightarrow> bool \<Rightarrow> active_sender list
   \<Rightarrow> (active_sender list \<times> active_sender) result" where
  "as_entry_step v env curr_time lk iprp_message es = (case lk of (sa, da, sp, dp) \<Rightarrow>
     (case activesenders_find_entry sa da sp dp es of
        Some i \<Rightarrow> let e = as_touch v curr_time iprp_message (es ! i) in Inr (es[i := e], e)
      | None \<Rightarrow>
          (case activesenders_create_entry v (entry_mem env) sa da sp dp iprp_message of
             None \<Rightarrow> Inl (Err ''malloc failed to create active senders entry'')
           | Some e0 \<Rightarrow>
               and_then (guard (as_node_mem env) (Err ''Unable to allocate list element'')) (\<lambda>_.
               let e = as_touch v curr_time iprp_message e0 in Inr (es @ [e], e)))))"

definition global_handle ::
  "variant \<Rightarrow> imd_env \<Rightarrow> time_t \<Rightarrow> nfq_packet \<Rightarrow> bool \<Rightarrow> active_sender list
   \<Rightarrow> (active_sender list \<times> verdict) result" where
  "global_handle v env curr_time packet iprp_message es =
     and_then (get_payload packet) (\<lambda>buf.
     and_then (guard (udp_len \<le> length buf) OutOfBounds) (\<lambda>_.
     and_then (as_entry_step v env curr_time (packet_link buf) iprp_message es) (\<lambda>(es', entry).
     and_then (get_packet_id packet) (\<lambda>i.
     let verdict = (case v of Unicast \<Rightarrow> NF_ACCEPT
          | Multicast \<Rightarrow> if iprp_message \<or> \<not> iprp_enabled entry then NF_ACCEPT else NF_DROP)
     in and_then (set_verdict packet i verdict buf ''Unable to set verdict'') (\<lambda>vd.
        Inr (es', vd))))))"

definition imd_handle_packet ::
  "variant \<Rightarrow> imd_env \<Rightarrow> time_t \<Rightarrow> nfq_packet \<Rightarrow> active_sender list \<Rightarrow> (active_sender list \<times> verdict) result" where
  "imd_handle_packet v env curr_time packet = global_handle v env curr_time packet False"

definition imd_ird_handle_packet ::
  "variant \<Rightarrow> imd_env \<Rightarrow> time_t \<Rightarrow> nfq_packet \<Rightarrow> active_sender list \<Rightarrow> (active_sender list \<times> verdict) result" where
  "imd_ird_handle_packet v env curr_time packet = global_handle v env curr_time packet True"

text \<open>The loops of the two packet threads.\<close>

definition imd_handle_routine ::
  "variant \<Rightarrow> (time_t \<times> imd_env \<times> nfq_packet) recv_outcome list \<Rightarrow> active_sender list
   \<Rightarrow> (active_sender list \<times> verdict list) result" where
  "imd_handle_routine v = handle_loop ''Unable to retrieve packet from IMD queue''
     (\<lambda>(t, env, p). imd_handle_packet v env t p)"

definition imd_ird_handle_routine ::
  "variant \<Rightarrow> (time_t \<times> imd_env \<times> nfq_packet) recv_outcome list \<Rightarrow> active_sender list
   \<Rightarrow> (active_sender list \<times> verdict list) result" where
  "imd_ird_handle_routine v = handle_loop ''Unable to retrieve packet from IMD-IRD queue''
     (\<lambda>(t, env, p). imd_ird_handle_packet v env t p)"

text \<open>The whole threads: the queue, then the loop.  The list was initialised by \<open>main\<close>.\<close>

definition imd_thread ::
  "variant \<Rightarrow> nfq_calls \<Rightarrow> (time_t \<times> imd_env \<times> nfq_packet) recv_outcome list \<Rightarrow> active_sender list
   \<Rightarrow> (active_sender list \<times> verdict list) result" where
  "imd_thread v calls rs es = and_then (queue_setup calls) (\<lambda>fd. imd_handle_routine v rs es)"

definition imd_ird_thread ::
  "variant \<Rightarrow> nfq_calls \<Rightarrow> (time_t \<times> imd_env \<times> nfq_packet) recv_outcome list \<Rightarrow> active_sender list
   \<Rightarrow> (active_sender list \<times> verdict list) result" where
  "imd_ird_thread v calls rs es = and_then (queue_setup calls) (\<lambda>fd. imd_ird_handle_routine v rs es)"

section \<open>The routine of the active senders file\<close>

definition count_and_cleanup :: "time_t \<Rightarrow> active_sender list \<Rightarrow> nat \<times> active_sender list" where
  "count_and_cleanup curr_time es =
     (let es' = sweep (aged as_last_seen IMD_AS_TEXP curr_time) es in (length es', es'))"

text \<open>The copy of \<open>count\<close> entries from the head; an end of the list before is a NULL access.\<close>

fun copy_entries :: "nat \<Rightarrow> active_sender list \<Rightarrow> active_sender list result" where
  "copy_entries 0 es = Inr []"
| "copy_entries (Suc n) [] = Inl NullDeref"
| "copy_entries (Suc n) (e # es) = and_then (copy_entries n es) (\<lambda>r. Inr (e # r))"

definition get_entries :: "variant \<Rightarrow> nat \<Rightarrow> nat \<Rightarrow> active_sender list \<Rightarrow> bytes result" where
  "get_entries v mem count es = (case calloc mem count (as_size v) of
     None \<Rightarrow> Inl (Err ''Unable to allocate active senders entries'')
   | Some a \<Rightarrow> and_then (copy_entries count es) (\<lambda>r. Inr (put_array (put_as v) (as_size v) 0 r a)))"

text \<open>One round of \<open>as_routine\<close>; the array is not freed.\<close>

definition imd_as_round ::
  "variant \<Rightarrow> nat \<Rightarrow> time_t \<Rightarrow> fs \<Rightarrow> active_sender list \<Rightarrow> (fs \<times> active_sender list) result" where
  "imd_as_round v mem curr_time f es =
     (let (count, es') = count_and_cleanup curr_time es
      in and_then (get_entries v mem count es') (\<lambda>entries.
         and_then (activesenders_store v IPRP_AS_FILE (of_nat count) entries f) (\<lambda>f'.
         Inr (f', es'))))"

section \<open>The cache interface\<close>

type_synonym imd_msg = "imd_env \<times> bool \<times> nfq_packet"

fun imd_mkey :: "imd_msg \<Rightarrow> as_link" where
  "imd_mkey (env, b, p) = (case nfq_payload p of None \<Rightarrow> (0, 0, 0, 0) | Some buf \<Rightarrow> packet_link buf)"

fun imd_step :: "variant \<Rightarrow> time_t \<Rightarrow> imd_msg \<Rightarrow> active_sender list \<Rightarrow> active_sender list result" where
  "imd_step v t (env, b, p) es = and_then (global_handle v env t p b es) (\<lambda>(es', vd). Inr es')"

declare as_key.simps [simp del] imd_mkey.simps [simp del] imd_step.simps [simp del]

lemma find_entry_key:
  "activesenders_find_entry sa da sp dp es = find_idx (\<lambda>a. as_key a = (sa, da, sp, dp)) es"
proof -
  have "(\<lambda>a. sa = as_src_addr a \<and> da = as_dest_addr a \<and> sp = as_src_port a \<and> dp = as_dest_port a)
      = (\<lambda>a. as_key a = (sa, da, sp, dp))" by (auto simp: as_key.simps fun_eq_iff)
  then show ?thesis by (simp add: activesenders_find_entry_def)
qed

lemma as_touch_simps [simp]:
  "as_key (as_touch v t b e) = as_key e" "as_last_seen (as_touch v t b e) = t"
  "iprp_enabled (as_touch v t b e) = (v = Multicast \<and> b \<or> iprp_enabled e)"
  by (auto simp: as_touch_def as_key.simps Let_def)

lemma create_entry_Some:
  "activesenders_create_entry v m sa da sp dp b = Some e \<Longrightarrow>
   as_key e = (sa, da, sp, dp) \<and> iprp_enabled e = (v = Multicast \<and> b)"
  by (auto simp: activesenders_create_entry_def as_key.simps split: option.splits variant.splits)

lemma as_entry_step_cases:
  assumes "as_entry_step v env t lk b es = Inr (es', e)"
  obtains (new) "find_idx (\<lambda>a. as_key a = lk) es = None" "es' = es @ [e]" "as_key e = lk"
      "as_last_seen e = t" "iprp_enabled e = (v = Multicast \<and> b)"
    | (known) i where "find_idx (\<lambda>a. as_key a = lk) es = Some i" "es' = es[i := e]" "as_key e = lk"
      "as_last_seen e = t" "iprp_enabled e = (v = Multicast \<and> b \<or> iprp_enabled (es ! i))"
proof (cases "find_idx (\<lambda>a. as_key a = lk) es")
  case None
  with assms obtain e0 where "activesenders_create_entry v (entry_mem env) (fst lk) (fst (snd lk))
      (fst (snd (snd lk))) (snd (snd (snd lk))) b = Some e0" "e = as_touch v t b e0" "es' = es @ [e]"
    by (auto simp: as_entry_step_def find_entry_key Let_def and_then_eq_Inr split: prod.splits option.splits)
  with create_entry_Some[OF this(1)] None new show ?thesis by auto
next
  case (Some i)
  with assms have "e = as_touch v t b (es ! i)" "es' = es[i := e]"
    by (auto simp: as_entry_step_def find_entry_key Let_def split: prod.splits)
  with find_idx_Some[OF Some] Some known show ?thesis by simp
qed

lemma global_handle_Inr:
  assumes "global_handle v env t p b es = Inr (es', vd)"
  obtains buf e where "nfq_payload p = Some buf" "24 \<le> length buf"
    "as_entry_step v env t (packet_link buf) b es = Inr (es', e)"
    "vd_code vd = (if v = Multicast \<and> \<not> b \<and> iprp_enabled e then NF_DROP else NF_ACCEPT)"
    "vd_data vd = buf"
  using assms
  by (cases v) (auto simp: global_handle_def get_payload_def and_then_eq_Inr layout_defs Let_def
      set_verdict_def split: option.splits if_splits)

lemma imd_step_hit:
  assumes "find_idx (\<lambda>a. as_key a = imd_mkey m) es = Some i" and "imd_step v t m es = Inr es'"
  shows "\<exists>e. es' = es[i := e] \<and> as_key e = imd_mkey m \<and> as_last_seen e = t"
proof -
  obtain env b p where m: "m = (env, b, p)" by (cases m)
  with assms(2) obtain vd where "global_handle v env t p b es = Inr (es', vd)"
    by (auto simp: imd_step.simps and_then_eq_Inr)
  then show ?thesis
  proof (rule global_handle_Inr)
    fix buf e
    assume "nfq_payload p = Some buf" and s: "as_entry_step v env t (packet_link buf) b es = Inr (es', e)"
    with m have k: "imd_mkey m = packet_link buf" by (simp add: imd_mkey.simps)
    from s show ?thesis by (cases rule: as_entry_step_cases) (use assms(1) k in auto)
  qed
qed

lemma imd_step_miss:
  assumes "find_idx (\<lambda>a. as_key a = imd_mkey m) es = None" and "imd_step v t m es = Inr es'"
  shows "\<exists>e. es' = es @ [e] \<and> as_key e = imd_mkey m \<and> as_last_seen e = t"
proof -
  obtain env b p where m: "m = (env, b, p)" by (cases m)
  with assms(2) obtain vd where "global_handle v env t p b es = Inr (es', vd)"
    by (auto simp: imd_step.simps and_then_eq_Inr)
  then show ?thesis
  proof (rule global_handle_Inr)
    fix buf e
    assume "nfq_payload p = Some buf" and s: "as_entry_step v env t (packet_link buf) b es = Inr (es', e)"
    with m have k: "imd_mkey m = packet_link buf" by (simp add: imd_mkey.simps)
    from s show ?thesis by (cases rule: as_entry_step_cases) (use assms(1) k in auto)
  qed
qed

interpretation imd: keyed_cache as_key as_last_seen IMD_AS_TEXP imd_mkey "imd_step v" for v
  by unfold_locales (auto dest: imd_step_hit imd_step_miss)

section \<open>The table of sessions\<close>

text \<open>
  What the cache stands for: for each link, the time of its last packet and whether an iPRP
  packet has been seen on it.  A packet sets the time and, when it came through iPRP, the mark; a
  plain packet on a marked link is dropped (multicast only); links silent for longer than the
  limit are forgotten.
\<close>

type_synonym sessions = "as_link \<rightharpoonup> time_t \<times> bool"

definition marked :: "sessions \<Rightarrow> as_link \<Rightarrow> bool" where
  "marked m k = (case m k of None \<Rightarrow> False | Some (t, e) \<Rightarrow> e)"

definition session_packet :: "variant \<Rightarrow> time_t \<Rightarrow> as_link \<Rightarrow> bool \<Rightarrow> sessions \<Rightarrow> sessions" where
  "session_packet v t k b m = m(k \<mapsto> (t, v = Multicast \<and> b \<or> marked m k))"

definition session_verdict :: "variant \<Rightarrow> as_link \<Rightarrow> bool \<Rightarrow> sessions \<Rightarrow> u32" where
  "session_verdict v k b m = (if v = Multicast \<and> \<not> b \<and> marked m k then NF_DROP else NF_ACCEPT)"

definition session_expire :: "time_t \<Rightarrow> sessions \<Rightarrow> sessions" where
  "session_expire now m = (\<lambda>k. case m k of None \<Rightarrow> None
     | Some (t, e) \<Rightarrow> if now - t > IMD_AS_TEXP then None else Some (t, e))"

fun session_run :: "variant \<Rightarrow> imd_msg cache_event list \<Rightarrow> sessions \<Rightarrow> sessions \<times> u32 list" where
  "session_run v [] m = (m, [])"
| "session_run v (Event t msg # evs) m =
     (let k = imd_mkey msg; b = fst (snd msg);
          (m', vs) = session_run v evs (session_packet v t k b m)
      in (m', session_verdict v k b m # vs))"
| "session_run v (Sweep t # evs) m = session_run v evs (session_expire t m)"

text \<open>The daemon: packets from either queue and rounds of the cleanup, in any order.\<close>

fun imd_run ::
  "variant \<Rightarrow> imd_msg cache_event list \<Rightarrow> active_sender list \<Rightarrow> (active_sender list \<times> verdict list) result" where
  "imd_run v [] es = Inr (es, [])"
| "imd_run v (Event t (env, b, p) # evs) es =
     and_then (if b then imd_ird_handle_packet v env t p es else imd_handle_packet v env t p es) (\<lambda>(es1, vd).
     and_then (imd_run v evs es1) (\<lambda>(es', vds). Inr (es', vd # vds)))"
| "imd_run v (Sweep t # evs) es = imd_run v evs (snd (count_and_cleanup t es))"

definition sessions_of :: "active_sender list \<Rightarrow> sessions" where
  "sessions_of es k = map_option (\<lambda>i. (as_last_seen (es ! i), iprp_enabled (es ! i)))
     (find_idx (\<lambda>a. as_key a = k) es)"

definition imd_inv :: "variant \<Rightarrow> active_sender list \<Rightarrow> bool" where
  "imd_inv v es \<longleftrightarrow> distinct (map as_key es) \<and> list_all (as_ok v) es"

text \<open>A packet long enough to hold the headers, on which the library and the allocator succeed.\<close>

fun imd_msg_ok :: "imd_msg \<Rightarrow> bool" where
  "imd_msg_ok (env, b, p) \<longleftrightarrow>
     (case nfq_payload p of None \<Rightarrow> False | Some buf \<Rightarrow> 24 \<le> length buf)
     \<and> nfq_id p \<noteq> None \<and> nfq_verdict_ok p \<and> entry_mem env \<noteq> None \<and> as_node_mem env"

fun imd_event_ok :: "imd_msg cache_event \<Rightarrow> bool" where
  "imd_event_ok (Event t m) \<longleftrightarrow> imd_msg_ok m \<and> time_ok t"
| "imd_event_ok (Sweep t) \<longleftrightarrow> True"

declare imd_msg_ok.simps [simp del]

lemma marked_sessions_of:
  "find_idx (\<lambda>a. as_key a = k) es = None \<Longrightarrow> \<not> marked (sessions_of es) k"
  "find_idx (\<lambda>a. as_key a = k) es = Some i \<Longrightarrow> marked (sessions_of es) k = iprp_enabled (es ! i)"
  by (auto simp: marked_def sessions_of_def)

lemma sessions_of_append:
  "find_idx (\<lambda>a. as_key a = as_key e) es = None \<Longrightarrow>
   sessions_of (es @ [e]) = (sessions_of es)(as_key e \<mapsto> (as_last_seen e, iprp_enabled e))"
  by (rule ext)
    (auto simp: sessions_of_def find_idx_append nth_append dest: find_idx_Some split: option.splits)

lemma sessions_of_update:
  assumes i: "find_idx (\<lambda>a. as_key a = as_key e) es = Some i"
  shows "sessions_of (es[i := e]) = (sessions_of es)(as_key e \<mapsto> (as_last_seen e, iprp_enabled e))"
proof
  fix k
  from find_idx_Some[OF i] have l: "i < length es" "as_key (es ! i) = as_key e" by auto
  have f: "find_idx (\<lambda>a. as_key a = k) (es[i := e]) = find_idx (\<lambda>a. as_key a = k) es"
    using l by (simp add: find_idx_update)
  show "sessions_of (es[i := e]) k = ((sessions_of es)(as_key e \<mapsto> (as_last_seen e, iprp_enabled e))) k"
  proof (cases "k = as_key e")
    case True
    then show ?thesis using f i l by (simp add: sessions_of_def)
  next
    case False
    have "j \<noteq> i" if "find_idx (\<lambda>a. as_key a = k) es = Some j" for j
      using find_idx_Some[OF that] l False by auto
    with f False show ?thesis
      by (cases "find_idx (\<lambda>a. as_key a = k) es") (auto simp: sessions_of_def)
  qed
qed

text \<open>With distinct keys the table is the map of the entries, so sweeping is restricting it.\<close>

lemma sessions_of_map:
  "sessions_of es = map_of (map (\<lambda>e. (as_key e, as_last_seen e, iprp_enabled e)) es)"
proof
  fix k show "sessions_of es k = map_of (map (\<lambda>e. (as_key e, as_last_seen e, iprp_enabled e)) es) k"
    by (induction es) (auto simp: sessions_of_def option.map_comp comp_def)
qed

lemma sessions_of_sweep:
  "distinct (map as_key es) \<Longrightarrow>
   sessions_of (sweep (aged as_last_seen IMD_AS_TEXP t) es) = session_expire t (sessions_of es)"
proof (induction es)
  case Nil
  then show ?case by (simp add: sessions_of_map session_expire_def)
next
  case (Cons e es)
  have k: "sessions_of es (as_key e) = None"
    using Cons.prems by (auto simp: sessions_of_map map_of_eq_None_iff)
  have c: "sessions_of (e # xs) = (sessions_of xs)(as_key e \<mapsto> (as_last_seen e, iprp_enabled e))" for xs
    by (simp add: sessions_of_map)
  from Cons k show ?case by (auto simp: c session_expire_def aged_def fun_eq_iff)
qed

lemma imd_inv_sweep: "imd_inv v es \<Longrightarrow> imd_inv v (sweep old es)"
  using imd.sweep_distinct by (auto simp: imd_inv_def sweep_filter list_all_iff)

lemma as_entry_step_ok:
  assumes "entry_mem env = Some a" and "as_node_mem env"
  shows "\<exists>es' e. as_entry_step v env t lk b es = Inr (es', e)"
  using assms
  by (cases lk) (auto simp: as_entry_step_def activesenders_create_entry_def Let_def split: option.splits)

lemma global_handle_session:
  assumes ok: "imd_msg_ok (env, b, p)" and t: "time_ok t" and inv: "imd_inv v es"
  shows "\<exists>es' vd. global_handle v env t p b es = Inr (es', vd) \<and> imd_inv v es'
    \<and> sessions_of es' = session_packet v t (imd_mkey (env, b, p)) b (sessions_of es)
    \<and> vd_code vd = session_verdict v (imd_mkey (env, b, p)) b (sessions_of es)"
proof -
  from ok obtain buf i a where p: "nfq_payload p = Some buf" "24 \<le> length buf" "nfq_id p = Some i"
    "nfq_verdict_ok p" "entry_mem env = Some a" "as_node_mem env"
    by (auto simp: imd_msg_ok.simps split: option.splits)
  then have k: "imd_mkey (env, b, p) = packet_link buf" by (simp add: imd_mkey.simps)
  from as_entry_step_ok[OF p(5,6)] obtain es' e where
    s: "as_entry_step v env t (packet_link buf) b es = Inr (es', e)" by blast
  with p obtain vd where h: "global_handle v env t p b es = Inr (es', vd)"
    "vd_code vd = (if v = Multicast \<and> \<not> b \<and> iprp_enabled e then NF_DROP else NF_ACCEPT)"
    by (cases v) (auto simp: global_handle_def get_payload_def get_packet_id_def set_verdict_def
        layout_defs Let_def)
  from s have "imd_inv v es' \<and> sessions_of es' = session_packet v t (packet_link buf) b (sessions_of es)
    \<and> (iprp_enabled e \<longleftrightarrow> v = Multicast \<and> b \<or> marked (sessions_of es) (packet_link buf))"
  proof (cases rule: as_entry_step_cases)
    case new
    have "as_ok v e" using new(4,5) t by (auto simp: as_ok_def)
    with new inv marked_sessions_of(1)[OF new(1)] show ?thesis
      by (auto simp: imd_inv_def session_packet_def sessions_of_append find_idx_None)
  next
    case (known j)
    from find_idx_Some[OF known(1)] have j: "j < length es" "as_key (es ! j) = packet_link buf" by auto
    have "as_ok v (es ! j)" using inv j by (auto simp: imd_inv_def list_all_iff)
    then have e: "as_ok v e" using known(4,5) t by (auto simp: as_ok_def)
    have "map as_key (es[j := e]) = map as_key es"
      using j known(3) list_update_id[of "map as_key es" j] by (simp add: map_update)
    moreover have "list_all (as_ok v) (es[j := e])"
      using e inv set_update_subset_insert[of es j e] by (auto simp: imd_inv_def list_all_iff)
    ultimately have "imd_inv v es'" using inv known(2) by (simp add: imd_inv_def)
    with known sessions_of_update[of e es j] marked_sessions_of(2)[OF known(1)] show ?thesis
      by (auto simp: session_packet_def)
  qed
  with h k show ?thesis by (auto simp: session_verdict_def)
qed

lemma imd_run_session:
  "imd_inv v es \<Longrightarrow> list_all imd_event_ok evs \<Longrightarrow>
   \<exists>es' vds. imd_run v evs es = Inr (es', vds) \<and> imd_inv v es'
     \<and> session_run v evs (sessions_of es) = (sessions_of es', map vd_code vds)"
proof (induction evs arbitrary: es)
  case Nil
  then show ?case by simp
next
  case (Cons ev evs)
  show ?case
  proof (cases ev)
    case (Event t m)
    obtain env b p where m: "m = (env, b, p)" by (cases m)
    from global_handle_session[of env b p t v es] Cons.prems Event m obtain es1 vd where
      g: "global_handle v env t p b es = Inr (es1, vd)" "imd_inv v es1"
      "sessions_of es1 = session_packet v t (imd_mkey m) b (sessions_of es)"
      "vd_code vd = session_verdict v (imd_mkey m) b (sessions_of es)" by auto
    from Cons.IH[OF g(2)] Cons.prems obtain es' vds where
      "imd_run v evs es1 = Inr (es', vds)" "imd_inv v es'"
      "session_run v evs (sessions_of es1) = (sessions_of es', map vd_code vds)" by auto
    with g Event m show ?thesis
      by (cases b) (simp_all add: imd_handle_packet_def imd_ird_handle_packet_def)
  next
    case (Sweep t)
    from Cons.prems(1) have "distinct (map as_key es)" by (simp add: imd_inv_def)
    with Sweep Cons.IH[OF imd_inv_sweep[OF Cons.prems(1)], of "aged as_last_seen IMD_AS_TEXP t"] Cons.prems
    show ?thesis by (simp add: count_and_cleanup_def sessions_of_sweep Let_def)
  qed
qed

section \<open>Properties\<close>

text \<open>
  C9. The monitoring daemon implements the table of sessions: for any sequence of packets on its
  two queues and of cleanup rounds, it completes without a fault, its cache stands for the
  specification's table, holds one well-formed entry per link, and every verdict is the
  specification's.
\<close>

theorem imd_refines_sessions:
  assumes "list_all imd_event_ok evs"
  shows "\<exists>es vds. imd_run v evs [] = Inr (es, vds) \<and> imd_inv v es
    \<and> session_run v evs Map.empty = (sessions_of es, map vd_code vds)"
proof -
  have "imd_inv v []" and "sessions_of [] = Map.empty"
    by (simp_all add: imd_inv_def sessions_of_map)
  with imd_run_session[of v "[]" evs] assms show ?thesis by simp
qed

definition example_imd_env :: imd_env where
  "example_imd_env = \<lparr>entry_mem = Some example_as, as_node_mem = True\<rparr>"

definition example_imd_msg :: "bool \<Rightarrow> imd_msg" where
  "example_imd_msg b = (example_imd_env, b, nfq_good (replicate 40 0) 1)"

lemma example_imd_ok: "imd_msg_ok (example_imd_msg b)"
  by (simp add: example_imd_msg_def example_imd_env_def imd_msg_ok.simps nfq_good_def)

lemma example_imd_mkey: "imd_mkey (example_imd_msg b) = packet_link (replicate 40 0)"
  by (simp add: example_imd_msg_def imd_mkey.simps nfq_good_def)

lemma example_imd_flag [simp]: "fst (snd (example_imd_msg b)) = b"
  by (simp add: example_imd_msg_def)

lemma example_imd_sessions:
  "snd (session_run Multicast [Event 0 (example_imd_msg True), Event 60 (example_imd_msg False),
     Sweep 200, Event 201 (example_imd_msg False)] Map.empty) = [NF_ACCEPT, NF_DROP, NF_ACCEPT]"
  by (simp add: example_imd_mkey session_packet_def session_verdict_def session_expire_def marked_def
      IMD_AS_TEXP_def Let_def)

theorem imd_refines_sessions_witness:
  "\<exists>es vds. imd_run Multicast [Event 0 (example_imd_msg True), Event 60 (example_imd_msg False),
        Sweep 200, Event 201 (example_imd_msg False)] [] = Inr (es, vds)
    \<and> map vd_code vds = [NF_ACCEPT, NF_DROP, NF_ACCEPT]"
  using imd_refines_sessions[of "[Event 0 (example_imd_msg True), Event 60 (example_imd_msg False),
        Sweep 200, Event 201 (example_imd_msg False)]" Multicast]
    example_imd_sessions
  by (auto simp: example_imd_ok time_ok_def simp del: session_run.simps imd_run.simps)

fun stays :: "as_link \<Rightarrow> time_t \<Rightarrow> imd_msg cache_event list \<Rightarrow> bool" where
  "stays k t0 [] = True"
| "stays k t0 (Event t m # evs) = stays k (if imd_mkey m = k then t else t0) evs"
| "stays k t0 (Sweep t # evs) = (t - t0 \<le> IMD_AS_TEXP \<and> stays k t0 evs)"

fun plain_verdicts :: "as_link \<Rightarrow> imd_msg cache_event list \<Rightarrow> verdict list \<Rightarrow> u32 list" where
  "plain_verdicts k [] vds = []"
| "plain_verdicts k (Sweep t # evs) vds = plain_verdicts k evs vds"
| "plain_verdicts k (Event t m # evs) [] = []"
| "plain_verdicts k (Event t m # evs) (vd # vds) =
     (if imd_mkey m = k \<and> \<not> fst (snd m) then vd_code vd # plain_verdicts k evs vds
      else plain_verdicts k evs vds)"

lemma session_run_marked:
  "session_run Multicast evs m = (m', map vd_code vds) \<Longrightarrow> m k = Some (t0, True) \<Longrightarrow> stays k t0 evs \<Longrightarrow>
   set (plain_verdicts k evs vds) \<subseteq> {NF_DROP}"
proof (induction k evs vds arbitrary: m t0 rule: plain_verdicts.induct)
  case (2 k t evs vds)
  then have "session_expire t m k = Some (t0, True)" by (simp add: session_expire_def)
  with 2 show ?case by auto
next
  case (4 k t msg evs vd vds)
  let ?m = "session_packet Multicast t (imd_mkey msg) (fst (snd msg)) m"
  let ?t = "if imd_mkey msg = k then t else t0"
  have m: "?m k = Some (?t, True)" using 4(4) by (auto simp: session_packet_def marked_def)
  from 4(3) have r: "session_run Multicast evs ?m = (m', map vd_code vds)"
    and v: "vd_code vd = session_verdict Multicast (imd_mkey msg) (fst (snd msg)) m"
    by (auto simp: Let_def split: prod.splits)
  have "set (plain_verdicts k evs vds) \<subseteq> {NF_DROP}"
    using 4(1,2)[OF _ r m] 4(5) by (cases "imd_mkey msg = k \<and> \<not> fst (snd msg)") auto
  with v 4(4) show ?case by (auto simp: session_verdict_def marked_def)
qed auto


definition example_plain_link :: active_sender where
  "example_plain_link = \<lparr>as_src_addr = 0, as_dest_addr = 0, as_src_port = 0, as_dest_port = 0,
     as_last_seen = 0, iprp_enabled = True\<rparr>"

lemma example_plain_key: "as_key example_plain_link = packet_link (replicate 40 0)"
  by (simp add: example_plain_link_def as_key.simps packet_link_def layout_defs get32_def get16_def
      get_bytes_def of_le32_def of_le16_def ntohs_def htons_def)


lemma copy_entries_all: "copy_entries (length es) es = Inr es"
  by (induction es) auto

lemma imd_round_file:
  assumes "imd_inv v es" and "length es < 2147483648" and "length es * as_size v \<le> mem"
    and "can_write f IPRP_AS_FILE" and "4 + length es * as_size v \<le> room f IPRP_AS_FILE"
    and "length c0 = 4"
  shows "\<exists>f' a. imd_as_round v mem t f es = Inr (f', filter (\<lambda>e. t - as_last_seen e \<le> IMD_AS_TEXP) es)
    \<and> activesenders_load v mem IPRP_AS_FILE (Some c0) True f'
        = Inr (0, of_nat (length (filter (\<lambda>e. t - as_last_seen e \<le> IMD_AS_TEXP) es)), Some a)
    \<and> get_array (get_as v) (as_size v) (length (filter (\<lambda>e. t - as_last_seen e \<le> IMD_AS_TEXP) es)) 0 a
        = filter (\<lambda>e. t - as_last_seen e \<le> IMD_AS_TEXP) es"
proof -
  let ?es = "filter (\<lambda>e. t - as_last_seen e \<le> IMD_AS_TEXP) es"
  have sw: "sweep (aged as_last_seen IMD_AS_TEXP t) es = ?es"
    by (simp add: sweep_filter aged_def not_less)
  have le: "length ?es \<le> length es" by simp
  then have m: "length ?es * as_size v \<le> length es * as_size v" by (rule mult_le_mono1)
  have ok: "list_all (as_ok v) ?es" using assms(1) by (auto simp: imd_inv_def list_all_iff)
  have "length ?es < 2147483648" "length ?es * as_size v \<le> mem"
    "4 + length ?es * as_size v \<le> room f IPRP_AS_FILE"
    using le m assms(2,3,5) by linarith+
  from mas.counted_round_trip[of v ?es mem f IPRP_AS_FILE c0 "''Unable to open active senders file''"
      "''Unable to open active senders file''", OF ok this(1,2) assms(4) this(3) assms(6)]
  obtain f' a where "activesenders_store v IPRP_AS_FILE (of_nat (length ?es))
      (put_array (put_as v) (as_size v) 0 ?es (replicate (length ?es * as_size v) 0)) f = Inr f'"
    "activesenders_load v mem IPRP_AS_FILE (Some c0) True f' = Inr (0, of_nat (length ?es), Some a)"
    "get_array (get_as v) (as_size v) (length ?es) 0 a = ?es"
    unfolding activesenders_store_def activesenders_load_def by blast
  moreover have "calloc mem (length ?es) (as_size v) = Some (replicate (length ?es * as_size v) 0)"
    using order_trans[OF m assms(3)] by (simp add: calloc_def)
  ultimately show ?thesis
    by (simp add: imd_as_round_def count_and_cleanup_def Let_def sw get_entries_def copy_entries_all)
qed

text \<open>
  A round of the active senders routine deletes exactly the entries that were silent for more
  than the limit, and the file it writes is read back by the ICD as exactly the entries that
  remain, in order.
\<close>

theorem imd_round_publishes:
  assumes "imd_inv v es" and "length es < 2147483648" and "length es * as_size v \<le> mem"
    and "can_write f IPRP_AS_FILE" and "4 + length es * as_size v \<le> room f IPRP_AS_FILE"
    and "length c0 = 4"
  shows "\<exists>f' a. imd_as_round v mem t f es = Inr (f', filter (\<lambda>e. t - as_last_seen e \<le> IMD_AS_TEXP) es)
    \<and> activesenders_load v mem IPRP_AS_FILE (Some c0) True f'
        = Inr (0, of_nat (length (filter (\<lambda>e. t - as_last_seen e \<le> IMD_AS_TEXP) es)), Some a)
    \<and> get_array (get_as v) (as_size v) (length (filter (\<lambda>e. t - as_last_seen e \<le> IMD_AS_TEXP) es)) 0 a
        = filter (\<lambda>e. t - as_last_seen e \<le> IMD_AS_TEXP) es"
  using assms by (rule imd_round_file)

theorem imd_round_publishes_witness:
  "\<exists>f' a. imd_as_round Multicast 1000 100 example_fs [example_plain_link] = Inr (f', [example_plain_link])
    \<and> activesenders_load Multicast 1000 IPRP_AS_FILE (Some [1, 2, 3, 4]) True f' = Inr (0, 1, Some a)
    \<and> get_array (get_as Multicast) (as_size Multicast) 1 0 a = [example_plain_link]"
  using imd_round_publishes[of Multicast "[example_plain_link]" 1000 example_fs "[1, 2, 3, 4]" 100]
  by (simp add: imd_inv_def as_ok_def example_fs_def IMD_AS_TEXP_def example_plain_link_def time_ok_def)

end
