(* ===== verification/Iprp_Icd_Senders.thy ===== *)
theory Iprp_Icd_Senders
  imports Complex_Main Iprp_Icd_Control
begin

text \<open>
  The active senders routine of the control daemon (src/icd/activesenders.c), which reads the file of
  the monitoring daemon and sends a CAP message to the senders in it, with its random backoff, and
  the sender interfaces routine (src/icd/senderifaces.c), which writes the sender interfaces for the
  receiving daemon.  The file names are those of inc/activesenders.h and inc/senderifaces.h.
\<close>

definition AS_FILE :: string where "AS_FILE = ''files/activesenders.iprp''"
definition SI_FILE :: string where "SI_FILE = ''files/senderifaces.iprp''"
definition IPRP_TCAP :: int where "IPRP_TCAP = 3"

section \<open>Sending CAP messages\<close>

text \<open>A datagram of the control port: its bytes and its destination.  \<open>stack\<close> is the
  uninitialised message.\<close>

definition cap_of :: "variant \<Rightarrow> host \<Rightarrow> active_sender \<Rightarrow> u16 \<Rightarrow> cap_msg" where
  "cap_of v h a inds = \<lparr>cap_version = IPRP_VERSION,
     cap_receiver = (case v of Unicast \<Rightarrow> h | Multicast \<Rightarrow> no_host),
     cap_src_addr = as_src_addr a, cap_dest_addr = as_dest_addr a, cap_inds = inds,
     cap_src_port = as_src_port a, cap_dest_port = as_dest_port a\<rparr>"

definition send_cap :: "variant \<Rightarrow> host \<Rightarrow> bytes \<Rightarrow> active_sender \<Rightarrow> (bytes \<times> sockaddr_in) result" where
  "send_cap v h stack a =
     and_then (ind_match h (- 1)) (\<lambda>inds.
     Inr (put_cap_msg v (cap_of v h a inds) stack, sockaddr_fill (as_src_addr a) IPRP_CTL_PORT))"

text \<open>
  The loop over the senders of the file.  In the multicast variant the look-up in the sender
  interfaces refreshes the entry it finds, and a sender that is not found ends the loop.
\<close>

fun as_loop ::
  "variant \<Rightarrow> host \<Rightarrow> bytes \<Rightarrow> time_t \<Rightarrow> active_sender list \<Rightarrow> sender_ifaces list
   \<Rightarrow> ((bytes \<times> sockaddr_in) list \<times> sender_ifaces list) result" where
  "as_loop v h stack curr_time [] sis = Inr ([], sis)"
| "as_loop v h stack curr_time (a # as) sis =
     (let (go, sis1) = (case v of Unicast \<Rightarrow> (True, sis)
            | Multicast \<Rightarrow> in_sender_ifaces curr_time (as_dest_addr a) (as_src_addr a) sis)
      in if \<not> go then Inr ([], sis1)
         else and_then (send_cap v h stack a) (\<lambda>d.
              and_then (as_loop v h stack curr_time as sis1) (\<lambda>(ds, sis2). Inr (d # ds, sis2))))"

text \<open>\<open>get_active_senders\<close>: the counter starts as stack memory; a non-positive count is no
  sender.\<close>

definition get_active_senders :: "variant \<Rightarrow> nat \<Rightarrow> bytes \<Rightarrow> fs \<Rightarrow> active_sender list result" where
  "get_active_senders v mem count0 f =
     and_then (activesenders_load v mem AS_FILE (Some count0) True f) (\<lambda>(err, count, senders).
     if err \<noteq> 0 then Inl (Err ''Unable to get active senders'')
     else if sint count \<le> 0 then Inr []
     else (case senders of
         None \<Rightarrow> Inl NullDeref
       | Some a \<Rightarrow> Inr (get_array (get_as v) (as_size v) (unat count) 0 a)))"

definition icd_as_round ::
  "variant \<Rightarrow> host \<Rightarrow> nat \<Rightarrow> bytes \<Rightarrow> bytes \<Rightarrow> time_t \<Rightarrow> fs \<Rightarrow> sender_ifaces list
   \<Rightarrow> ((bytes \<times> sockaddr_in) list \<times> sender_ifaces list) result" where
  "icd_as_round v h mem count0 stack curr_time f sis =
     and_then (get_active_senders v mem count0 f) (\<lambda>as. as_loop v h stack curr_time as sis)"

text \<open>The start of the routine empties the file.\<close>

definition icd_as_init :: "variant \<Rightarrow> fs \<Rightarrow> fs result" where
  "icd_as_init v f = activesenders_store v AS_FILE 0 [] f"

definition icd_as_start :: "variant \<Rightarrow> int \<Rightarrow> fs \<Rightarrow> fs result" where
  "icd_as_start v sock f =
     and_then (icd_as_init v f) (\<lambda>f'.
     if sock = -1 then Inl (Err ''Unable to create send CAP socket'') else Inr f')"

section \<open>The backoff\<close>

text \<open>
  The doubles are read as reals.  The loop draws \<open>rand\<close> until the condition
  \<open>random == 0.0 && x > 1\<close> fails; the logarithm of 0 makes \<open>x\<close> infinite, so a 0 draws
  again, and any other number ends the loop, whatever \<open>x\<close> is.  The fuel bounds the draws.
\<close>

definition RAND_MAX :: nat where "RAND_MAX = 2147483647"

fun backoff_x :: "nat \<Rightarrow> (nat \<Rightarrow> nat) \<Rightarrow> nat \<Rightarrow> real option" where
  "backoff_x 0 rnd k = None"
| "backoff_x (Suc n) rnd k =
     (if rnd k = 0 then backoff_x n rnd (Suc k)
      else Some (- ln (real (rnd k) / real RAND_MAX) / (5 / 2)))"

text \<open>The conversion of a double to \<open>int\<close> truncates towards 0.\<close>

definition trunc :: "real \<Rightarrow> int" where
  "trunc r = (if r < 0 then \<lceil>r\<rceil> else \<lfloor>r\<rfloor>)"

definition backoff :: "nat \<Rightarrow> (nat \<Rightarrow> nat) \<Rightarrow> int option" where
  "backoff fuel rnd = map_option (\<lambda>x. trunc ((1 - x) * 10)) (backoff_x fuel rnd 0)"

text \<open>The seconds the routine sleeps: the argument of \<open>sleep\<close> is an \<open>unsigned int\<close>.\<close>

definition cap_sleep :: "nat \<Rightarrow> (nat \<Rightarrow> nat) \<Rightarrow> nat option" where
  "cap_sleep fuel rnd = map_option (\<lambda>b. unat (word_of_int (IPRP_TCAP + b) :: u32)) (backoff fuel rnd)"

section \<open>The sender interfaces file\<close>

definition si_count_and_cleanup :: "time_t \<Rightarrow> sender_ifaces list \<Rightarrow> nat \<times> sender_ifaces list" where
  "si_count_and_cleanup curr_time es =
     (let es' = sweep (aged si_last_seen ICD_SI_TEXP curr_time) es in (length es', es'))"

fun copy_contents :: "nat \<Rightarrow> sender_ifaces list \<Rightarrow> sender_ifaces list result" where
  "copy_contents 0 es = Inr []"
| "copy_contents (Suc n) [] = Inl NullDeref"
| "copy_contents (Suc n) (e # es) = and_then (copy_contents n es) (\<lambda>r. Inr (e # r))"

definition get_file_contents :: "nat \<Rightarrow> nat \<Rightarrow> sender_ifaces list \<Rightarrow> bytes result" where
  "get_file_contents mem count es = (case calloc mem count si_size of
     None \<Rightarrow> Inl (Err ''Unable to allocate file contents'')
   | Some a \<Rightarrow> and_then (copy_contents count es) (\<lambda>r. Inr (put_array put_si si_size 0 r a)))"

definition icd_si_round :: "nat \<Rightarrow> time_t \<Rightarrow> fs \<Rightarrow> sender_ifaces list \<Rightarrow> (fs \<times> sender_ifaces list) result" where
  "icd_si_round mem curr_time f es =
     (let (count, es') = si_count_and_cleanup curr_time es
      in and_then (get_file_contents mem count es') (\<lambda>entries.
         and_then (senderifaces_store SI_FILE (of_nat count) entries f) (\<lambda>f'.
         Inr (f', es'))))"

definition icd_si_init :: "fs \<Rightarrow> (fs \<times> sender_ifaces list) result" where
  "icd_si_init f = and_then (senderifaces_store SI_FILE 0 [] f) (\<lambda>f'. Inr (f', []))"

section \<open>Facts\<close>

text \<open>What a CAP of this host looks like at its receiver.\<close>

definition announces :: "variant \<Rightarrow> host \<Rightarrow> active_sender \<Rightarrow> bytes \<times> sockaddr_in \<Rightarrow> bool" where
  "announces v h a d \<longleftrightarrow> snd d = sockaddr_fill (as_src_addr a) IPRP_CTL_PORT
     \<and> (\<exists>m. ctl_decode v (fst d) = Some (Cap m) \<and> cap_version m = IPRP_VERSION
        \<and> cap_src_addr m = as_src_addr a \<and> cap_dest_addr m = as_dest_addr a
        \<and> cap_src_port m = as_src_port a \<and> cap_dest_port m = as_dest_port a
        \<and> bits_of (cap_inds m) = host_inds h \<and> (v = Unicast \<longrightarrow> cap_receiver m = h))"

lemma send_cap_announces:
  assumes "inds_ok h" and "length stack = ctlmsg_size v"
  shows "\<exists>d. send_cap v h stack a = Inr d \<and> announces v h a d"
proof -
  from bits_of_match[OF assms(1), of "- 1"] obtain m where
    m: "ind_match h (- 1) = Inr m" "bits_of m = bits_of (- 1) \<inter> host_inds h" .
  have "host_inds h \<subseteq> bits_of (- 1)"
    using assms(1) by (auto simp: host_inds_def bits_of_def inds_ok_def iprp_consts bit_simps)
  then have b: "bits_of m = host_inds h" using m(2) by blast
  have "cap_ok v (cap_of v h a m)"
    using assms(1) by (cases v) (auto simp: cap_ok_def cap_of_def inds_ok_def)
  from cap_decode[OF this assms(2)] m(1) b show ?thesis
    by (auto simp: send_cap_def announces_def cap_of_def)
qed

lemma as_loop_unicast:
  "inds_ok h \<Longrightarrow> length stack = ctlmsg_size Unicast \<Longrightarrow>
   \<exists>ds. as_loop Unicast h stack t as sis = Inr (ds, sis)
     \<and> list_all2 (\<lambda>a d. send_cap Unicast h stack a = Inr d \<and> announces Unicast h a d) as ds"
proof (induction as)
  case (Cons a as)
  from send_cap_announces[OF Cons.prems] obtain d where
    "send_cap Unicast h stack a = Inr d" "announces Unicast h a d" by blast
  with Cons show ?case by auto
qed simp

lemma get_active_senders_file:
  assumes "activesenders_load v mem AS_FILE (Some c0) True f = Inr (0, of_nat n, Some a)" and "n < 2147483648"
  shows "get_active_senders v mem c0 f = Inr (get_array (get_as v) (as_size v) n 0 a)"
  using assms sint_of_nat_u32[OF assms(2)]
  by (cases "n = 0") (simp_all add: get_active_senders_def unat_of_nat_u32)

lemma copy_contents_all: "copy_contents (length es) es = Inr es"
  by (induction es) auto

section \<open>Properties\<close>

text \<open>
  In the multicast variant a control daemon that knows no sender interfaces never sends a
  CAP message: the test that should leave out the senders whose ACK came lets only those pass.  As an
  ACK only answers a CAP, no session is ever established.
\<close>

theorem multicast_never_sends_cap:
  assumes "icd_as_round Multicast h mem c0 stack t f [] = Inr (ds, sis)"
  shows "ds = [] \<and> sis = []"
proof -
  have "as_loop Multicast h stack t as [] = Inr ([], [])" for as
    by (cases as) (simp_all add: in_sender_ifaces_def)
  with assms show ?thesis by (auto simp: icd_as_round_def and_then_eq_Inr)
qed

lemma example_as_load:
  "activesenders_load Multicast 1000 AS_FILE (Some [0, 0, 0, 0]) True
     (example_fs\<lparr>files := [AS_FILE \<mapsto> le32 (of_nat 1) @ replicate 32 0]\<rparr>) = Inr (0, of_nat 1, Some (replicate 32 0))"
  unfolding activesenders_load_def by (rule load_counted_file) simp_all

theorem multicast_never_sends_cap_witness:
  "icd_as_round Multicast example_host 1000 [0, 0, 0, 0] (replicate 152 0) 5
     (example_fs\<lparr>files := [AS_FILE \<mapsto> le32 (of_nat 1) @ replicate 32 0]\<rparr>) [] = Inr ([], [])"
proof -
  have "get_active_senders Multicast 1000 [0, 0, 0, 0]
      (example_fs\<lparr>files := [AS_FILE \<mapsto> le32 (of_nat 1) @ replicate 32 0]\<rparr>)
      = Inr (get_array (get_as Multicast) (as_size Multicast) 1 0 (replicate 32 0))"
    using example_as_load by (rule get_active_senders_file) simp
  then obtain ds sis where r: "icd_as_round Multicast example_host 1000 [0, 0, 0, 0] (replicate 152 0) 5
     (example_fs\<lparr>files := [AS_FILE \<mapsto> le32 (of_nat 1) @ replicate 32 0]\<rparr>) [] = Inr (ds, sis)"
    by (simp add: icd_as_round_def in_sender_ifaces_def)
  with multicast_never_sends_cap[OF r] show ?thesis by simp
qed

text \<open>
  In the multicast variant the daemon's own look-ups keep the sender interfaces alive:
  after a round all of whose senders have an entry, every such entry counts as just seen, whether an
  ACK came or not, so an entry never expires while its sender is active.
\<close>

lemma as_loop_refreshes:
  "as_loop Multicast h stack t as sis = Inr (ds, sis') \<Longrightarrow>
   \<forall>a \<in> set as. (as_dest_addr a, as_src_addr a) \<in> si_key ` set sis \<Longrightarrow> distinct (map si_key sis) \<Longrightarrow>
   map si_key sis' = map si_key sis
   \<and> (\<forall>s \<in> set sis'. s \<in> set sis \<or> si_last_seen s = t)
   \<and> (\<forall>s \<in> set sis'. \<forall>a \<in> set as. si_key s = (as_dest_addr a, as_src_addr a) \<longrightarrow> si_last_seen s = t)"
proof (induction as arbitrary: sis ds)
  case Nil
  then show ?case by simp
next
  case (Cons a as)
  let ?k = "(as_dest_addr a, as_src_addr a)"
  obtain i where i: "find_idx (\<lambda>s. si_key s = ?k) sis = Some i"
  proof (cases "find_idx (\<lambda>s. si_key s = ?k) sis")
    case None
    with Cons.prems(2) show ?thesis by (force simp: find_idx_None)
  qed
  from find_idx_Some[OF i] have il: "i < length sis" "si_key (sis ! i) = ?k" by auto
  let ?sis1 = "sis[i := (sis ! i)\<lparr>si_last_seen := t\<rparr>]"
  have k1: "map si_key ?sis1 = map si_key sis"
    using il list_update_id[of "map si_key sis" i] by (simp add: map_update)
  then have k1s: "si_key ` set ?sis1 = si_key ` set sis" by (metis set_map)
  from Cons.prems(1) i obtain ds' where "as_loop Multicast h stack t as ?sis1 = Inr (ds', sis')"
    by (auto simp: in_sender_ifaces_key and_then_eq_Inr)
  from Cons.IH[OF this] Cons.prems(2,3) k1 k1s have r: "map si_key sis' = map si_key sis"
    "\<forall>s \<in> set sis'. s \<in> set ?sis1 \<or> si_last_seen s = t"
    "\<forall>s \<in> set sis'. \<forall>a \<in> set as. si_key s = (as_dest_addr a, as_src_addr a) \<longrightarrow> si_last_seen s = t" by auto
  have new: "s \<in> set sis \<and> si_key s \<noteq> ?k \<or> si_last_seen s = t" if "s \<in> set ?sis1" for s
  proof -
    from that obtain j where j: "j < length sis" "s = ?sis1 ! j" by (auto simp: in_set_conv_nth)
    show ?thesis
    proof (cases "j = i")
      case False
      have "si_key (sis ! j) \<noteq> ?k"
        using False il j(1) Cons.prems(3) nth_eq_iff_index_eq[of "map si_key sis" j i] by auto
      with False j show ?thesis by simp
    qed (use il j in simp)
  qed
  have "\<forall>s \<in> set sis'. s \<in> set sis \<or> si_last_seen s = t" using r(2) new by blast
  moreover have "\<forall>s \<in> set sis'. \<forall>b \<in> set (a # as). si_key s = (as_dest_addr b, as_src_addr b) \<longrightarrow> si_last_seen s = t"
    using r(2,3) new by fastforce
  ultimately show ?case using r(1) by blast
qed

theorem multicast_lookups_refresh:
  assumes "icd_as_round Multicast h mem c0 stack t f sis = Inr (ds, sis')"
    and "get_active_senders Multicast mem c0 f = Inr as"
    and "\<forall>a \<in> set as. (as_dest_addr a, as_src_addr a) \<in> si_key ` set sis" and "distinct (map si_key sis)"
  shows "map si_key sis' = map si_key sis
    \<and> (\<forall>s \<in> set sis'. \<forall>a \<in> set as. si_key s = (as_dest_addr a, as_src_addr a) \<longrightarrow>
        \<not> aged si_last_seen ICD_SI_TEXP (t + ICD_SI_TEXP) s)"
proof -
  have "as_loop Multicast h stack t as sis = Inr (ds, sis')"
    using assms(1,2) by (simp add: icd_as_round_def)
  from as_loop_refreshes[OF this assms(3,4)] show ?thesis by (auto simp: aged_def)
qed

definition zero_si :: sender_ifaces where
  "zero_si = example_si\<lparr>si_sender_addr := 0, si_group_addr := 0\<rparr>"

lemma zero_as: "get_array (get_as Multicast) 32 1 0 (replicate 32 0)
    = [\<lparr>as_src_addr = 0, as_dest_addr = 0, as_src_port = 0, as_dest_port = 0, as_last_seen = 0, iprp_enabled = False\<rparr>]"
  by (simp add: get_as_def get_time_def scalar_defs get_bytes_def of_le64_def of_le32_def of_le16_def)

theorem multicast_lookups_refresh_witness:
  "\<exists>ds sis'. icd_as_round Multicast example_host 1000 [0, 0, 0, 0] (replicate 152 0) 70
     (example_fs\<lparr>files := [AS_FILE \<mapsto> le32 (of_nat 1) @ replicate 32 0]\<rparr>) [zero_si] = Inr (ds, sis')
    \<and> (\<forall>s \<in> set sis'. si_key s = (0, 0) \<longrightarrow> \<not> aged si_last_seen ICD_SI_TEXP (70 + ICD_SI_TEXP) s)"
proof -
  let ?f = "example_fs\<lparr>files := [AS_FILE \<mapsto> le32 (of_nat 1) @ replicate 32 0]\<rparr>"
  let ?a = "\<lparr>as_src_addr = 0, as_dest_addr = 0, as_src_port = 0, as_dest_port = 0, as_last_seen = 0, iprp_enabled = False\<rparr>"
  have g: "get_active_senders Multicast 1000 [0, 0, 0, 0] ?f = Inr [?a]"
    using get_active_senders_file[OF example_as_load] zero_as by simp
  have "inds_ok example_host" by (rule example_inds_ok)
  from send_cap_announces[OF this, of "replicate 152 0" Multicast ?a] obtain d where
    d: "send_cap Multicast example_host (replicate 152 0) ?a = Inr d" by auto
  have k: "si_key zero_si = (0, 0)" by (simp add: zero_si_def si_key.simps)
  with g d obtain ds sis' where
    r: "icd_as_round Multicast example_host 1000 [0, 0, 0, 0] (replicate 152 0) 70 ?f [zero_si] = Inr (ds, sis')"
    by (simp add: icd_as_round_def in_sender_ifaces_key)
  from multicast_lookups_refresh[OF r g] k r show ?thesis by auto
qed

lemma ln_ratio_bounds:
  assumes "0 < r" and "r < 16777216"
  shows "4 \<le> ln (2147483647 / real r)" and "ln (2147483647 / real r) \<le> 31"
proof -
  have q: "81 \<le> 2147483647 / real r" using assms by (simp add: le_divide_eq)
  have "exp (4 :: real) = exp 1 ^ 4" using exp_of_nat_mult[of 4 "1 :: real"] by simp
  also have "\<dots> \<le> 3 ^ 4" using exp_le by (intro power_mono) auto
  finally have "exp (4 :: real) \<le> 2147483647 / real r" using q by simp
  then show "4 \<le> ln (2147483647 / real r)" using assms(1) by (subst ln_ge_iff) auto
  have "2147483647 / real r \<le> 2147483647" using assms by (simp add: divide_le_eq)
  also have "\<dots> \<le> (2 :: real) ^ 31" by simp
  finally have "ln (2147483647 / real r) \<le> ln (2 ^ 31)" using assms(1) by (subst ln_le_cancel_iff) auto
  also have "ln (2 ^ 31 :: real) = 31 * ln 2" by (simp only: ln_realpow of_nat_numeral)
  also have "\<dots> \<le> 31" using ln_le_minus_one[of "2 :: real"] by simp
  finally show "ln (2147483647 / real r) \<le> 31" .
qed

text \<open>
  The backoff can stop the daemon: the loop that should draw again while the delay is
  negative ends with any non-zero draw; when \<open>rand\<close> gives less than \<open>2 ^ 24\<close> (one draw in
  128) the delay is below the period, and their sum, converted to an unsigned number of seconds, is
  more than 68 years.
\<close>

theorem backoff_stops_daemon:
  assumes "0 < rnd 0" and "rnd 0 < 16777216" and "0 < fuel"
  shows "\<exists>s. cap_sleep fuel rnd = Some s \<and> 2147483648 \<le> s"
proof -
  let ?L = "ln (2147483647 / real (rnd 0))"
  let ?y = "(1 - ?L / (5 / 2)) * 10"
  note L = ln_ratio_bounds[OF assms(1,2)]
  have "- ln (real (rnd 0) / real RAND_MAX) = ?L"
    using assms(1) by (simp add: RAND_MAX_def ln_div)
  then have "backoff_x fuel rnd 0 = Some (?L / (5 / 2))"
    using assms(1,3) by (cases fuel) simp_all
  then have b: "backoff fuel rnd = Some (trunc ?y)" by (simp add: backoff_def)
  have y: "- 114 \<le> ?y" "?y \<le> - 6" using L by (simp_all add: field_simps)
  then have "?y < 0" by linarith
  then have t: "trunc ?y = \<lceil>?y\<rceil>" by (simp only: trunc_def if_True)
  have c: "- 114 \<le> \<lceil>?y\<rceil>" "\<lceil>?y\<rceil> \<le> - 6"
    using y by linarith+
  let ?i = "IPRP_TCAP + \<lceil>?y\<rceil>"
  have i: "- 111 \<le> ?i" "?i \<le> - 3" unfolding IPRP_TCAP_def using c by linarith+
  have "unat (word_of_int ?i :: u32) = nat (?i mod 4294967296)"
    by (simp only: unat_eq_nat_uint uint_word_of_int) simp
  also have "?i mod 4294967296 = ?i + 4294967296"
    using i mod_add_self2[of ?i 4294967296] mod_pos_pos_trivial[of "?i + 4294967296" 4294967296] by linarith
  finally have "2147483648 \<le> unat (word_of_int ?i :: u32)" using i by linarith
  then show ?thesis using b t by (simp add: cap_sleep_def)
qed

theorem backoff_stops_daemon_witness:
  "\<exists>s. cap_sleep 1 (\<lambda>k. 1000) = Some s \<and> 2147483648 \<le> s"
  by (rule backoff_stops_daemon) simp_all

text \<open>
  A round of the sender interfaces routine deletes exactly the entries that were silent for
  more than the limit, and the receiving daemon reads back exactly those that remain, in order.
\<close>

theorem icd_si_round_publishes:
  assumes "list_all si_ok es" and "length es < 2147483648" and "length es * si_size \<le> mem"
    and "can_write f SI_FILE" and "4 + length es * si_size \<le> room f SI_FILE" and "length c0 = 4"
  shows "\<exists>f' a. icd_si_round mem t f es = Inr (f', filter (\<lambda>e. t - si_last_seen e \<le> ICD_SI_TEXP) es)
    \<and> senderifaces_load mem SI_FILE (Some c0) True f'
        = Inr (0, of_nat (length (filter (\<lambda>e. t - si_last_seen e \<le> ICD_SI_TEXP) es)), Some a)
    \<and> get_array get_si si_size (length (filter (\<lambda>e. t - si_last_seen e \<le> ICD_SI_TEXP) es)) 0 a
        = filter (\<lambda>e. t - si_last_seen e \<le> ICD_SI_TEXP) es"
proof -
  let ?es = "filter (\<lambda>e. t - si_last_seen e \<le> ICD_SI_TEXP) es"
  have sw: "sweep (aged si_last_seen ICD_SI_TEXP t) es = ?es"
    by (simp add: sweep_filter aged_def not_less)
  have le: "length ?es \<le> length es" by simp
  then have m: "length ?es * si_size \<le> length es * si_size" by (rule mult_le_mono1)
  have ok: "list_all si_ok ?es" using assms(1) by (auto simp: list_all_iff)
  have "length ?es < 2147483648" "length ?es * si_size \<le> mem" "4 + length ?es * si_size \<le> room f SI_FILE"
    using le m assms(2,3,5) by linarith+
  from msi.counted_round_trip[of ?es mem f SI_FILE c0 "''Unable to open sender interfaces file''"
      "''Unable to open sender interfaces file''", OF ok this(1,2) assms(4) this(3) assms(6)]
  obtain f' a where "senderifaces_store SI_FILE (of_nat (length ?es))
      (put_array put_si si_size 0 ?es (replicate (length ?es * si_size) 0)) f = Inr f'"
    "senderifaces_load mem SI_FILE (Some c0) True f' = Inr (0, of_nat (length ?es), Some a)"
    "get_array get_si si_size (length ?es) 0 a = ?es"
    unfolding senderifaces_store_def senderifaces_load_def by blast
  moreover have "calloc mem (length ?es) si_size = Some (replicate (length ?es * si_size) 0)"
    using order_trans[OF m assms(3)] by (simp add: calloc_def)
  ultimately show ?thesis
    by (simp add: icd_si_round_def si_count_and_cleanup_def Let_def sw get_file_contents_def copy_contents_all)
qed

theorem icd_si_round_publishes_witness:
  "\<exists>f' a. icd_si_round 1000 1050 example_fs [example_si] = Inr (f', [example_si])
    \<and> senderifaces_load 1000 SI_FILE (Some [1, 2, 3, 4]) True f' = Inr (0, 1, Some a)
    \<and> get_array get_si si_size 1 0 a = [example_si]"
  using icd_si_round_publishes[of "[example_si]" 1000 example_fs "[1, 2, 3, 4]" 1050] example_si_ok
  by (simp add: example_fs_def ICD_SI_TEXP_def si_size_def) (simp add: example_si_def)

end
