(* ===== verification/Iprp_Icd_Peerbase.thy ===== *)
theory Iprp_Icd_Peerbase
  imports Iprp_Icd_Control Iprp_Format
begin

text \<open>
  The peer base routine of the control daemon (src/icd/peerbase.c): the pass over the peer bases
  that deletes the expired ones, writes the others to their files and starts their sending daemons,
  with the lock of the list, the path of a file (the SNSID in hexadecimal) and the iptables rule of a
  daemon.
\<close>

definition IPRP_PEERBASE_PATH_LENGTH :: nat where "IPRP_PEERBASE_PATH_LENGTH = 57"

section \<open>The peer base of an ISD\<close>

definition create_peerbase :: "variant \<Rightarrow> host \<Rightarrow> icd_base \<Rightarrow> peerbase" where
  "create_peerbase v this_h b = \<lparr>pb_link = ib_link b, pb_host = this_h, pb_inds = ib_inds b,
     pb_dest_addr = (case v of Unicast \<Rightarrow> take IPRP_MAX_INDS (ib_dest_addr b) | Multicast \<Rightarrow> [])\<rparr>"

text \<open>The SNSID as text: each byte is printed into the three bytes at its place.\<close>

definition snsid_str :: "bytes \<Rightarrow> string" where
  "snsid_str sid = concat (map (\<lambda>b. snprintf 3 (fmt_char_02x b)) sid)"

definition base_path :: "bytes \<Rightarrow> string" where
  "base_path sid = snprintf IPRP_PEERBASE_PATH_LENGTH (''files/base_'' @ snsid_str sid @ ''.iprp'')"

section \<open>Starting an ISD\<close>

definition isd_rule :: "icd_base \<Rightarrow> string" where
  "isd_rule b = ''iptables -t mangle -A POSTROUTING -p udp -d '' @ inet_ntop (dest_addr (ib_link b))
     @ '' --dport '' @ fmt_d (int (unat (dest_port (ib_link b))))
     @ '' --sport '' @ fmt_d (int (unat (src_port (ib_link b))))
     @ '' -j NFQUEUE --queue-num '' @ fmt_d (int (unat (queue_id b)))"

text \<open>The system around the routine: the files, the commands given to the shell, and the ISDs
  started (process id, queue argument, path argument).\<close>

record pb_world =
  pw_fs :: fs
  pw_shell :: "string list"
  pw_isds :: "(int \<times> string \<times> string) list"

text \<open>\<open>fork\<close> returns -1, or the id of a new process, which sets up its queue and becomes
  the ISD.\<close>

definition isd_startup :: "int \<Rightarrow> icd_base \<Rightarrow> pb_world \<Rightarrow> int \<times> pb_world" where
  "isd_startup pid b w =
     (if pid = -1 then (-1, w)
      else (pid, w\<lparr>pw_shell := pw_shell w @ [snprintf 120 (isd_rule b)],
        pw_isds := pw_isds w @ [(pid, fmt_d (int (unat (queue_id b))), base_path (snsid (ib_link b)))]\<rparr>))"

section \<open>The pass\<close>

text \<open>The environment: the local host, the uninitialised structure on the stack, and the id that
  \<open>fork\<close> gives when that many ISDs were started.\<close>

record pb_env =
  pe_host :: host
  pe_stack :: bytes
  pe_fork :: "nat \<Rightarrow> int"

text \<open>What is done for an entry that is not expired.\<close>

definition pb_entry :: "variant \<Rightarrow> pb_env \<Rightarrow> icd_base \<Rightarrow> pb_world \<Rightarrow> (icd_base \<times> pb_world) result" where
  "pb_entry v env b w =
     and_then (peerbase_store v (Some (base_path (snsid (ib_link b))))
        (Some (put_pb v 0 (create_peerbase v (pe_host env) b) (pe_stack env))) (pw_fs w)) (\<lambda>(err, f).
     if err \<noteq> 0 then Inl (Err ''Unable to store peerbase'')
     else let w1 = w\<lparr>pw_fs := f\<rparr>
          in if isd_pid b = -1
             then let (pid, w2) = isd_startup (pe_fork env (length (pw_isds w1))) b w1
                  in if pid = -1 then Inl (Err ''Unable to start ISD'') else Inr (b\<lparr>isd_pid := pid\<rparr>, w2)
             else Inr (b, w1))"

text \<open>
  One pass over the entries from the iterator on, with the mutex of the list (\<open>True\<close> when
  held).  \<open>None\<close> is a pass that does not return: \<open>list_lock\<close> blocks on a mutex the
  thread itself holds.  After a deletion the code continues with the next entry without unlocking.
\<close>

fun pb_pass ::
  "variant \<Rightarrow> pb_env \<Rightarrow> time_t \<Rightarrow> icd_base list \<Rightarrow> bool \<Rightarrow> pb_world
   \<Rightarrow> (icd_base list \<times> bool \<times> pb_world) result option" where
  "pb_pass v env curr_time [] held w = Some (Inr ([], held, w))"
| "pb_pass v env curr_time (b # bs) held w =
     (case mutex_lock held of
        None \<Rightarrow> None
      | Some held1 \<Rightarrow>
          if aged last_cap IPRP_PB_TEXP curr_time b
          then pb_pass v env curr_time bs held1 w
          else (case pb_entry v env b w of
              Inl e \<Rightarrow> Some (Inl e)
            | Inr (b', w') \<Rightarrow>
                map_option (\<lambda>r. and_then r (\<lambda>(bs', held', w''). Inr (b' # bs', held', w'')))
                  (pb_pass v env curr_time bs False w')))"

section \<open>Paths\<close>

lemma length_fmt_char: "length (snprintf 3 (fmt_char_02x b)) = 2"
proof (cases "unat b < 128")
  case True
  then show ?thesis by (simp add: char_02x_low snprintf_def)
qed (simp add: char_02x_high)

lemma length_snsid_str: "length (snsid_str sid) = 2 * length sid"
  by (induction sid) (simp_all add: snsid_str_def length_fmt_char)

lemma base_path_full:
  "length sid = 20 \<Longrightarrow> base_path sid = ''files/base_'' @ snsid_str sid @ ''.iprp''"
  by (simp add: base_path_def IPRP_PEERBASE_PATH_LENGTH_def snprintf_def length_snsid_str)

lemma fmt_char_inject:
  assumes "unat a < 128" and "unat b < 128" and "fmt_char_02x a = fmt_char_02x b"
  shows "a = b"
proof -
  from assms have "digit (unat a div 16) = digit (unat b div 16)" "digit (unat a mod 16) = digit (unat b mod 16)"
    by (simp_all add: char_02x_low)
  moreover have "unat a div 16 < 16" "unat b div 16 < 16" "unat a mod 16 < 16" "unat b mod 16 < 16"
    using assms(1,2) by simp_all
  ultimately have "unat a div 16 = unat b div 16" "unat a mod 16 = unat b mod 16"
    by (metis digit_val_digit)+
  then have "unat a = unat b" by (metis div_mult_mod_eq)
  then show ?thesis by (simp add: word_unat_eq_iff)
qed

lemma snsid_str_inject:
  "length s = length t \<Longrightarrow> \<forall>b \<in> set s \<union> set t. unat b < 128 \<Longrightarrow> snsid_str s = snsid_str t \<Longrightarrow> s = t"
proof (induction s t rule: list_induct2)
  case Nil
  then show ?case by simp
next
  case (Cons a s b t)
  have "snprintf 3 (fmt_char_02x a) = snprintf 3 (fmt_char_02x b)" "snsid_str s = snsid_str t"
    using Cons.prems(2) length_fmt_char[of a] length_fmt_char[of b]
    by (simp_all add: snsid_str_def)
  moreover have "unat a < 128" "unat b < 128" using Cons.prems(1) by auto
  moreover from this have "snprintf 3 (fmt_char_02x a) = fmt_char_02x a" "snprintf 3 (fmt_char_02x b) = fmt_char_02x b"
    by (simp_all add: snprintf_def char_02x_low)
  ultimately show ?case using Cons.IH Cons.prems(1) fmt_char_inject[of a b] by auto
qed

lemma isd_rule_length: "length (isd_rule b) \<le> 116"
proof -
  have d: "length (fmt_d (int (unat (w :: u16)))) \<le> 5" for w using length_dec_u16[of w] by (simp add: fmt_d_def)
  have "length (isd_rule b) = 86 + length (inet_ntop (dest_addr (ib_link b)))
      + length (fmt_d (int (unat (dest_port (ib_link b))))) + length (fmt_d (int (unat (src_port (ib_link b)))))
      + length (fmt_d (int (unat (queue_id b))))"
    by (simp add: isd_rule_def)
  then show ?thesis
    using length_inet_ntop[of "dest_addr (ib_link b)"] d[of "dest_port (ib_link b)"] d[of "src_port (ib_link b)"]
      d[of "queue_id b"] by linarith
qed

section \<open>Facts about the pass\<close>

definition pb_content :: "variant \<Rightarrow> pb_env \<Rightarrow> icd_base \<Rightarrow> bytes" where
  "pb_content v env b = put_pb v 0 (create_peerbase v (pe_host env) b) (pe_stack env)"

definition isd_paths :: "pb_world \<Rightarrow> string list" where
  "isd_paths w = map (\<lambda>(pid, queue, path). path) (pw_isds w)"

text \<open>An entry that can be written: its file can be opened and the device has room.\<close>

definition pb_entry_ok :: "variant \<Rightarrow> pb_env \<Rightarrow> fs \<Rightarrow> icd_base \<Rightarrow> bool" where
  "pb_entry_ok v env f b \<longleftrightarrow> link_ok (ib_link b) \<and> IPRP_MAX_INDS \<le> length (ib_dest_addr b)
     \<and> can_write f (base_path (snsid (ib_link b))) \<and> pb_size v \<le> room f (base_path (snsid (ib_link b)))"

definition pb_env_ok :: "variant \<Rightarrow> pb_env \<Rightarrow> bool" where
  "pb_env_ok v env \<longleftrightarrow> host_ok (pe_host env) \<and> length (pe_stack env) = pb_size v \<and> (\<forall>n. pe_fork env n \<noteq> -1)"

abbreviation path_of :: "icd_base \<Rightarrow> string" where
  "path_of b \<equiv> base_path (snsid (ib_link b))"

lemma create_peerbase_ok:
  "pb_env_ok v env \<Longrightarrow> pb_entry_ok v env f b \<Longrightarrow> pb_ok v (create_peerbase v (pe_host env) b)"
  by (cases v) (auto simp: pb_ok_def create_peerbase_def pb_entry_ok_def pb_env_ok_def)

lemma pb_content_facts:
  assumes "pb_env_ok v env" and "pb_entry_ok v env f b"
  shows "length (pb_content v env b) = pb_size v"
    and "get_pb v 0 (pb_content v env b) = create_peerbase v (pe_host env) b"
  using create_peerbase_ok[OF assms] assms(1)
  by (auto simp: pb_content_def pb_env_ok_def mpb.put_length mpb.get_put)

lemma pb_entry_good:
  assumes "pb_env_ok v env" and "pb_entry_ok v env (pw_fs w) b"
  shows "\<exists>pid w'. pb_entry v env b w = Inr (b\<lparr>isd_pid := pid\<rparr>, w') \<and> pid \<noteq> -1
    \<and> files (pw_fs w') = (files (pw_fs w))(path_of b \<mapsto> pb_content v env b)
    \<and> can_write (pw_fs w') = can_write (pw_fs w) \<and> room (pw_fs w') = room (pw_fs w)
    \<and> isd_paths w' = isd_paths w @ (if isd_pid b = -1 then [path_of b] else [])"
proof -
  let ?c = "pb_content v env b"
  have l: "length ?c = pb_size v" using pb_content_facts(1)[OF assms] .
  define f where "f = fwrite (path_of b) ?c ((pw_fs w)\<lparr>files := (files (pw_fs w))(path_of b \<mapsto> [])\<rparr>)"
  have f: "peerbase_store v (Some (path_of b)) (Some ?c) (pw_fs w) = Inr (0, f)"
    "files f = (files (pw_fs w))(path_of b \<mapsto> ?c)" "can_write f = can_write (pw_fs w)" "room f = room (pw_fs w)"
    using assms(2) l by (simp_all add: f_def peerbase_store_def pb_entry_ok_def fopen_w_Some fwrite_def)
  have p: "pe_fork env n \<noteq> -1" for n using assms(1) by (simp add: pb_env_ok_def)
  show ?thesis
  proof (cases "isd_pid b = -1")
    case True
    let ?pid = "pe_fork env (length (pw_isds w))"
    obtain w' where "pb_entry v env b w = Inr (b\<lparr>isd_pid := ?pid\<rparr>, w')" "pw_fs w' = f"
      "isd_paths w' = isd_paths w @ [path_of b]"
      using True f p by (simp add: pb_entry_def pb_content_def[symmetric] Let_def isd_startup_def isd_paths_def)
    with True f p show ?thesis by (intro exI[of _ ?pid] exI[of _ w']) simp
  next
    case False
    then have "pb_entry v env b w = Inr (b\<lparr>isd_pid := isd_pid b\<rparr>, w\<lparr>pw_fs := f\<rparr>)"
      using f by (simp add: pb_entry_def pb_content_def[symmetric] Let_def)
    with False f show ?thesis
      by (intro exI[of _ "isd_pid b"] exI[of _ "w\<lparr>pw_fs := f\<rparr>"]) (simp add: isd_paths_def)
  qed
qed

definition forget_pid :: "icd_base \<Rightarrow> icd_base" where
  "forget_pid b = b\<lparr>isd_pid := 0\<rparr>"

lemma pb_pass_good:
  "pb_env_ok v env \<Longrightarrow> \<forall>b \<in> set bs. pb_entry_ok v env (pw_fs w) b \<and> \<not> aged last_cap IPRP_PB_TEXP t b \<Longrightarrow>
   distinct (map path_of bs) \<Longrightarrow>
   \<exists>bs' w'. pb_pass v env t bs False w = Some (Inr (bs', False, w'))
     \<and> map forget_pid bs' = map forget_pid bs \<and> (\<forall>b \<in> set bs'. isd_pid b \<noteq> -1)
     \<and> (\<forall>p. p \<notin> path_of ` set bs \<longrightarrow> files (pw_fs w') p = files (pw_fs w) p)
     \<and> (\<forall>b \<in> set bs. files (pw_fs w') (path_of b) = Some (pb_content v env b))
     \<and> isd_paths w' = isd_paths w
         @ map path_of (filter (\<lambda>b. isd_pid b = -1) bs)"
proof (induction bs arbitrary: w)
  case Nil
  then show ?case by simp
next
  case (Cons b bs)
  from pb_entry_good[OF Cons.prems(1), of w b] Cons.prems(2) obtain pid w1 where
    e: "pb_entry v env b w = Inr (b\<lparr>isd_pid := pid\<rparr>, w1)" "pid \<noteq> -1"
    "files (pw_fs w1) = (files (pw_fs w))(path_of b \<mapsto> pb_content v env b)"
    "can_write (pw_fs w1) = can_write (pw_fs w)" "room (pw_fs w1) = room (pw_fs w)"
    "isd_paths w1 = isd_paths w @ (if isd_pid b = -1 then [path_of b] else [])"
    by auto
  have "\<forall>b \<in> set bs. pb_entry_ok v env (pw_fs w1) b \<and> \<not> aged last_cap IPRP_PB_TEXP t b"
    using Cons.prems(2) e(4,5) by (simp add: pb_entry_ok_def)
  moreover have "distinct (map path_of bs)" using Cons.prems(3) by simp
  ultimately obtain bs' w' where
    r: "pb_pass v env t bs False w1 = Some (Inr (bs', False, w'))"
    "map forget_pid bs' = map forget_pid bs" "\<forall>b \<in> set bs'. isd_pid b \<noteq> -1"
    "\<forall>p. p \<notin> path_of ` set bs \<longrightarrow> files (pw_fs w') p = files (pw_fs w1) p"
    "\<forall>b \<in> set bs. files (pw_fs w') (path_of b) = Some (pb_content v env b)"
    "isd_paths w' = isd_paths w1
       @ map path_of (filter (\<lambda>b. isd_pid b = -1) bs)" using Cons.IH[OF Cons.prems(1)] by blast
  have "path_of b \<notin> path_of ` set bs" using Cons.prems(3) by auto
  with r(4) e(3) have b: "files (pw_fs w') (path_of b) = Some (pb_content v env b)" by simp
  have "\<not> aged last_cap IPRP_PB_TEXP t b" using Cons.prems(2) by simp
  then have "pb_pass v env t (b # bs) False w = Some (Inr (b\<lparr>isd_pid := pid\<rparr> # bs', False, w'))"
    using e(1) r(1) by (simp add: mutex_lock_def)
  moreover have "forget_pid (b\<lparr>isd_pid := pid\<rparr>) = forget_pid b" by (simp add: forget_pid_def)
  ultimately show ?case using r e b by simp
qed

lemma pb_pass_append:
  "pb_pass v env t pre held w = Some (Inr (pre', held', w')) \<Longrightarrow>
   pb_pass v env t (pre @ post) held w =
     map_option (\<lambda>r. and_then r (\<lambda>(bs', h, w''). Inr (pre' @ bs', h, w''))) (pb_pass v env t post held' w')"
proof (induction pre arbitrary: held w pre')
  case Nil
  then show ?case
    by (cases "pb_pass v env t post held' w'") (auto simp: and_then_def split: sum.splits)
next
  case (Cons b pre)
  show ?case
  proof (cases "aged last_cap IPRP_PB_TEXP t b")
    case True
    with Cons show ?thesis by (auto simp: mutex_lock_def split: if_splits)
  next
    case False
    with Cons.prems obtain b1 w1 pre1 where
      "\<not> held" "pb_entry v env b w = Inr (b1, w1)" "pre' = b1 # pre1"
      "pb_pass v env t pre False w1 = Some (Inr (pre1, held', w'))"
      by (auto simp: mutex_lock_def and_then_eq_Inr split: if_splits sum.splits)
    with False Cons.IH[of False w1 pre1] show ?thesis
      by (cases "pb_pass v env t post held' w'")
        (auto simp: mutex_lock_def and_then_def split: sum.splits)
  qed
qed

section \<open>Properties\<close>

text \<open>
  The texts fit their buffers: neither the path of a peer base nor the iptables command of an
  ISD is ever cut, whatever the addresses, ports, queue number and SNSID.
\<close>

theorem isd_texts_fit:
  assumes "link_ok (ib_link b)"
  shows "path_of b = ''files/base_'' @ snsid_str (snsid (ib_link b)) @ ''.iprp''
    \<and> snprintf 120 (isd_rule b) = isd_rule b
    \<and> length (fmt_d (int (unat (queue_id b)))) < 16"
  using assms isd_rule_length[of b] length_dec_u16[of "queue_id b"]
  by (simp add: base_path_full link_ok_def iprp_consts snprintf_def fmt_d_def)

theorem isd_texts_fit_witness:
  "snprintf 120 (isd_rule example_base) = isd_rule example_base"
  using isd_texts_fit[of example_base]
  by (simp add: example_base_def example_peerbase_def link_ok_def iprp_consts)


definition example_pb_env :: pb_env where
  "example_pb_env = \<lparr>pe_host = example_host, pe_stack = replicate 240 9, pe_fork = (\<lambda>n. 100 + int n)\<rparr>"

definition example_world :: pb_world where
  "example_world = \<lparr>pw_fs = example_fs, pw_shell = [], pw_isds = []\<rparr>"


text \<open>
  An expired entry blocks the daemon: when the pass meets one, it goes on without unlocking
  the list, so with another entry after it the thread waits for itself for ever, and without one the
  pass ends with the lock held, so that the next pass over a non-empty list, as every CAP message,
  waits for ever.
\<close>

theorem expired_entry_blocks:
  assumes "pb_pass v env t pre False w = Some (Inr (pre', False, w'))" and "t - last_cap b > IPRP_PB_TEXP"
  shows "pb_pass v env t (pre @ b # post) False w
      = (if post = [] then Some (Inr (pre', True, w')) else None)
    \<and> pb_pass v env t' (x # xs) True w' = None"
proof -
  have "aged last_cap IPRP_PB_TEXP t b" using assms(2) by (simp add: aged_def)
  then have "pb_pass v env t (b # post) False w' = (if post = [] then Some (Inr ([], True, w')) else None)"
    by (cases post) (simp_all add: mutex_lock_def)
  with pb_pass_append[OF assms(1), of "b # post"] show ?thesis by (simp add: mutex_lock_def)
qed

theorem expired_entry_blocks_witness:
  "pb_pass Unicast example_pb_env 100 ([] @ example_base # [example_base]) False example_world
      = (if [example_base] = [] then Some (Inr ([], True, example_world)) else None)
    \<and> pb_pass Unicast example_pb_env 103 [example_base] True example_world = None"
  by (rule expired_entry_blocks) (simp_all add: example_base_def IPRP_PB_TEXP_def)

text \<open>
  Peer bases can share a file: bytes of the SNSID from 128 on are all printed as ff, so two
  links of one source address and port that were numbered between 128 and 255 have different SNSIDs
  and the same path; below 128 different SNSIDs have different paths.
\<close>

theorem base_path_collides:
  assumes "128 \<le> unat c" and "unat c < 256" and "128 \<le> unat c'" and "unat c' < 256"
  shows "base_path (snsid_of sa sp c) = base_path (snsid_of sa sp c')
    \<and> (c \<noteq> c' \<longrightarrow> snsid_of sa sp c \<noteq> snsid_of sa sp c')
    \<and> (length s = 20 \<longrightarrow> length t = 20 \<longrightarrow> (\<forall>b \<in> set s \<union> set t. unat b < 128) \<longrightarrow>
        base_path s = base_path t \<longrightarrow> s = t)"
proof -
  have lo: "128 \<le> unat (ucast x :: u8)" if "128 \<le> unat x" "unat x < 256" for x :: u16
    using that by (simp add: unsigned_ucast_eq take_bit_eq_mod)
  have hi: "(ucast (drop_bit 8 x) :: u8) = 0" if "unat x < 256" for x :: u16
    using that by (simp add: word_unat_eq_iff unsigned_ucast_eq take_bit_eq_mod drop_bit_eq_div unat_div)
  have "snsid_str (le16 c) = snsid_str (le16 c')"
    using assms lo hi by (simp add: snsid_str_def le16_def char_02x_high)
  moreover have cat: "snsid_str (s @ t) = snsid_str s @ snsid_str t" for s t by (simp add: snsid_str_def)
  ultimately have "base_path (snsid_of sa sp c) = base_path (snsid_of sa sp c')"
    by (simp add: base_path_def snsid_of_def cat)
  moreover have "c \<noteq> c' \<longrightarrow> snsid_of sa sp c \<noteq> snsid_of sa sp c'"
    using snsid_of_fields(3) by metis
  moreover have "s = t" if "length s = 20" "length t = 20" "\<forall>b \<in> set s \<union> set t. unat b < 128"
    "base_path s = base_path t"
    using that by (intro snsid_str_inject) (simp_all add: base_path_full)
  ultimately show ?thesis by blast
qed

theorem base_path_collides_witness:
  "base_path (snsid_of 1 2 128) = base_path (snsid_of 1 2 129)"
  using base_path_collides[of 128 129 1 2] by simp

end
