(* ===== verification/Iprp_Icd_Run.thy ===== *)
theory Iprp_Icd_Run
  imports Iprp_Icd_Peerbase
begin

text \<open>
  The two threads of the control daemon that share the peer bases (src/icd/control.c and
  src/icd/peerbase.c), interleaved: the control thread handles a CAP message under the lock, the peer
  base thread looks at an entry and takes the next pointer under the lock, and writes the file and
  starts the sending daemon outside it.  Any number of messages may come between two of its steps.
\<close>

section \<open>State and steps\<close>

text \<open>
  Where the peer base thread is: sleeping; at the head of its inner loop with its iterator; outside the
  lock with the entry it works on and the iterator it took.  An iterator is the position of its node, or
  \<open>None\<close> for NULL: only this thread deletes nodes, and appending moves none.
\<close>

datatype pb_pc = P_Sleep | P_At "nat option" | P_Publish nat "nat option"

record icd_sys =
  sy_icd :: icd
  sy_held :: bool
  sy_pc :: pb_pc
  sy_world :: pb_world

abbreviation bases :: "icd_sys \<Rightarrow> icd_base list" where
  "bases s \<equiv> peerbases (sy_icd s)"

definition it_at :: "nat \<Rightarrow> 'a list \<Rightarrow> nat option" where
  "it_at i xs = (if i < length xs then Some i else None)"

text \<open>The part of an iteration under the lock.  The branch of an aged entry ends with \<open>continue\<close>, without
  unlocking.\<close>

definition pb_look :: "time_t \<Rightarrow> nat \<Rightarrow> icd_sys \<Rightarrow> icd_sys" where
  "pb_look curr_time i s =
     (if aged last_cap IPRP_PB_TEXP curr_time (bases s ! i)
      then let bs = take i (bases s) @ drop (Suc i) (bases s)
           in s\<lparr>sy_icd := (sy_icd s)\<lparr>peerbases := bs\<rparr>, sy_held := True, sy_pc := P_At (it_at i bs)\<rparr>
      else s\<lparr>sy_pc := P_Publish i (it_at (Suc i) (bases s))\<rparr>)"

text \<open>The part outside: the entry is read, its file written, its daemon started; only the process id
  of the entry changes.\<close>

definition pb_publish :: "variant \<Rightarrow> pb_env \<Rightarrow> nat \<Rightarrow> nat option \<Rightarrow> icd_sys \<Rightarrow> icd_sys result" where
  "pb_publish v env i nx s =
     and_then (pb_entry v env (bases s ! i) (sy_world s)) (\<lambda>(b, w).
     Inr (s\<lparr>sy_icd := (sy_icd s)\<lparr>peerbases := (bases s)[i := b]\<rparr>, sy_pc := P_At nx, sy_world := w\<rparr>))"

text \<open>The steps: a CAP message, or the next step of the peer base thread.  \<open>None\<close> is a step that
  waits for the lock.\<close>

datatype icd_act = Take_cap time_t icd_env cap_msg | Pb_step time_t pb_env

fun sys_step :: "variant \<Rightarrow> icd_act \<Rightarrow> icd_sys \<Rightarrow> icd_sys result option" where
  "sys_step v (Take_cap t env m) s =
     map_option (\<lambda>held. and_then (handle_cap v env t m (sy_icd s)) (\<lambda>(icd, acks). Inr (s\<lparr>sy_icd := icd\<rparr>)))
       (mutex_lock (sy_held s))"
| "sys_step v (Pb_step t env) s = (case sy_pc s of
     P_Sleep \<Rightarrow> Some (Inr (s\<lparr>sy_pc := P_At (it_at 0 (bases s))\<rparr>))
   | P_At None \<Rightarrow> Some (Inr (s\<lparr>sy_pc := P_Sleep\<rparr>))
   | P_At (Some i) \<Rightarrow> map_option (\<lambda>held. Inr (pb_look t i s)) (mutex_lock (sy_held s))
   | P_Publish i nx \<Rightarrow> Some (pb_publish v env i nx s))"

fun sys_run :: "variant \<Rightarrow> icd_act list \<Rightarrow> icd_sys \<Rightarrow> icd_sys result option" where
  "sys_run v [] s = Some (Inr s)"
| "sys_run v (a # as) s = (case sys_step v a s of
     None \<Rightarrow> None
   | Some (Inl e) \<Rightarrow> Some (Inl e)
   | Some (Inr s') \<Rightarrow> sys_run v as s')"

text \<open>The start: no peer base, counter 0, the mutex free.\<close>

definition sys_init :: "pb_world \<Rightarrow> icd_sys" where
  "sys_init w = \<lparr>sy_icd = \<lparr>peerbases = [], sender_ifs = [], reboot_counter = 0\<rparr>, sy_held = False,
     sy_pc = P_Sleep, sy_world = w\<rparr>"

text \<open>The steps that can be taken: messages the handler can serve, and a host whose memory, files and
  processes are there.\<close>

definition act_ok :: "variant \<Rightarrow> host \<Rightarrow> icd_act \<Rightarrow> bool" where
  "act_ok v h a = (case a of
     Take_cap t env m \<Rightarrow> cap_event_ok v h (Event t (env, m)) \<and> ack_sent env
   | Pb_step t env \<Rightarrow> pb_env_ok v env \<and> pe_host env = h)"

definition disk_ok :: "variant \<Rightarrow> fs \<Rightarrow> bool" where
  "disk_ok v f \<longleftrightarrow> (\<forall>p. can_write f p \<and> pb_size v \<le> room f p)"

section \<open>Types\<close>

text \<open>
  What an entry of the list is, in terms of the values its fields can have: a link with a SNSID of 20
  bytes that names the source, INDs of this host, at least one, an array of all destinations, a queue
  number below 1024.
\<close>

definition base_typed :: "host \<Rightarrow> icd_base \<Rightarrow> bool" where
  "base_typed h b \<longleftrightarrow> link_ok (ib_link b)
     \<and> (\<exists>c. snsid (ib_link b) = snsid_of (src_addr (ib_link b)) (src_port (ib_link b)) c)
     \<and> bits_of (ib_inds b) \<noteq> {} \<and> bits_of (ib_inds b) \<subseteq> host_inds h
     \<and> length (ib_dest_addr b) = IPRP_MAX_INDS \<and> unat (queue_id b) < 1024"

definition it_ok :: "'a list \<Rightarrow> nat option \<Rightarrow> bool" where
  "it_ok xs q \<longleftrightarrow> (case q of None \<Rightarrow> True | Some i \<Rightarrow> i < length xs)"

definition pc_ok :: "'a list \<Rightarrow> pb_pc \<Rightarrow> bool" where
  "pc_ok xs u = (case u of P_Sleep \<Rightarrow> True | P_At q \<Rightarrow> it_ok xs q | P_Publish i q \<Rightarrow> i < length xs \<and> it_ok xs q)"

definition sys_typed :: "variant \<Rightarrow> host \<Rightarrow> icd_sys \<Rightarrow> bool" where
  "sys_typed v h s \<longleftrightarrow> (\<forall>b \<in> set (bases s). base_typed h b) \<and> distinct (map pb_key (bases s))
     \<and> pc_ok (bases s) (sy_pc s) \<and> disk_ok v (pw_fs (sy_world s))"

lemma it_ok_at [simp]: "it_ok xs (it_at i xs)"
  by (simp add: it_ok_def it_at_def)

lemma it_ok_longer: "it_ok xs q \<Longrightarrow> length xs \<le> length ys \<Longrightarrow> it_ok ys q"
  by (auto simp: it_ok_def split: option.splits)

lemma pc_ok_longer: "pc_ok xs u \<Longrightarrow> length xs \<le> length ys \<Longrightarrow> pc_ok ys u"
  by (auto simp: pc_ok_def split: pb_pc.splits intro: it_ok_longer)

lemma base_typed_upd [simp]:
  "base_typed h (b\<lparr>last_cap := t\<rparr>) = base_typed h b" "base_typed h (b\<lparr>isd_pid := p\<rparr>) = base_typed h b"
  by (simp_all add: base_typed_def)

lemma pb_key_pid [simp]: "pb_key (b\<lparr>isd_pid := p\<rparr>) = pb_key b"
  by (simp add: pb_key.simps)

lemma create_base_typed:
  assumes "create_base v env t m x cnt bs = Inr (b, cnt')" and "base_mem env = Some b0"
    and "length (ib_dest_addr b0) = IPRP_MAX_INDS" and "bits_of x \<noteq> {}" and "bits_of x \<subseteq> host_inds h"
  shows "base_typed h b"
proof -
  have ds: "set_dests fs ds = Inr ds' \<Longrightarrow> length ds' = length ds" for fs ds ds'
    by (induction fs arbitrary: ds) (auto split: if_splits)
  have q: "unat (the (get_queue_number f t bs) :: u16) < 1024" for f
    by (simp add: get_queue_number_value unat_of_nat)
  show ?thesis
    using assms q ds by (auto simp: create_base_def base_typed_def Let_def and_then_eq_Inr link_ok_def
        length_snsid_of iprp_consts simp del: bits_of_simps split: variant.splits)
qed

lemma handle_cap_ok:
  assumes h: "inds_ok h" and ok: "cap_event_ok v h (Event t (env, m))" "ack_sent env"
    and d: "distinct (map pb_key (peerbases s))" and ty: "\<forall>b \<in> set (peerbases s). base_typed h b"
  obtains bs' cnt' acks where "handle_cap v env t m s = Inr (s\<lparr>peerbases := bs', reboot_counter := cnt'\<rparr>, acks)"
    "distinct (map pb_key bs')" "\<forall>b \<in> set bs'. base_typed h b"
    "receivers_of bs' = receiver_cap h t m (receivers_of (peerbases s))"
    "(\<exists>i x. i < length (peerbases s) \<and> cnt' = reboot_counter s \<and>
        bs' = (peerbases s)[i := (peerbases s ! i)\<lparr>ib_inds := ib_inds (peerbases s ! i) OR x, last_cap := t\<rparr>])
     \<or> (\<exists>b. bs' = peerbases s @ [b] \<and> cnt' = reboot_counter s + 1 \<and> isd_pid b = -1 \<and> pb_key b = cap_key m
        \<and> snsid (ib_link b) = snsid_of (src_addr (ib_link b)) (src_port (ib_link b)) (reboot_counter s))
     \<or> bs' = peerbases s \<and> cnt' = reboot_counter s"
proof -
  from ok(1) obtain b0 where e: "this_host env = h" "base_mem env = Some b0" "length (ib_dest_addr b0) = IPRP_MAX_INDS"
    by (auto simp: cap_event_ok_def)
  from cap_update_receivers[OF h ok(1) d] obtain bs' cnt' r where
    r: "cap_update v env t m (peerbases s, reboot_counter s) = Inr (bs', cnt', r)"
    and d': "distinct (map pb_key bs')" and rv: "receivers_of bs' = receiver_cap h t m (receivers_of (peerbases s))"
    by blast
  have m: "bits_of x \<subseteq> host_inds h" if "ind_match (this_host env) (cap_inds m) = Inr x" for x
    using bits_of_match[OF h, of "cap_inds m"] that e(1) by (metis inf_le2 sum.inject(2))
  have c: "(\<forall>b \<in> set bs'. base_typed h b) \<and>
    ((\<exists>i x. i < length (peerbases s) \<and> cnt' = reboot_counter s \<and>
        bs' = (peerbases s)[i := (peerbases s ! i)\<lparr>ib_inds := ib_inds (peerbases s ! i) OR x, last_cap := t\<rparr>])
     \<or> (\<exists>b. bs' = peerbases s @ [b] \<and> cnt' = reboot_counter s + 1 \<and> isd_pid b = -1 \<and> pb_key b = cap_key m
        \<and> snsid (ib_link b) = snsid_of (src_addr (ib_link b)) (src_port (ib_link b)) (reboot_counter s))
     \<or> bs' = peerbases s \<and> cnt' = reboot_counter s)"
    using r
  proof (cases rule: cap_update_cases)
    case (known i x b)
    from find_idx_Some[OF known(2)] have i: "i < length (peerbases s)" by simp
    then have "base_typed h (peerbases s ! i)" using ty by simp
    with m[OF known(1)] have "base_typed h b" by (auto simp: known(3) base_typed_def)
    with ty known i show ?thesis by (auto dest!: set_update_subset_insert[THEN subsetD])
  next
    case (new x b)
    have "bits_of x \<noteq> {}" using new(2) by (simp add: bits_of_empty)
    from create_base_typed[OF new(4) e(2,3) this m[OF new(1)]] have "base_typed h b" .
    moreover from create_base_fields[OF new(4)] have "src_port (ib_link b) = cap_src_port m"
      by (simp add: pb_key.simps cap_key.simps)
    ultimately show ?thesis using create_base_fields[OF new(4)] new ty by auto
  qed (use ty in auto)
  have "\<exists>acks. handle_cap v env t m s = Inr (s\<lparr>peerbases := bs', reboot_counter := cnt'\<rparr>, acks)"
    using r ok(2) by (cases v; cases r) (simp_all add: handle_cap_def send_ack_def Let_def)
  with that d' rv c show ?thesis by blast
qed

lemma handle_cap_total:
  assumes "inds_ok h" and "cap_event_ok v h (Event t (env, m))" "ack_sent env"
    and "distinct (map pb_key (peerbases s))" and "\<forall>b \<in> set (peerbases s). base_typed h b"
  obtains bs' cnt' acks where "handle_cap v env t m s = Inr (s\<lparr>peerbases := bs', reboot_counter := cnt'\<rparr>, acks)"
    "distinct (map pb_key bs')" "\<forall>b \<in> set bs'. base_typed h b"
    "receivers_of bs' = receiver_cap h t m (receivers_of (peerbases s))"
    "length (peerbases s) \<le> length bs'" "length bs' \<le> Suc (length (peerbases s))"
proof (rule handle_cap_ok[OF assms], goal_cases)
  case (1 bs' cnt' acks)
  from 1(6) have "length (peerbases s) \<le> length bs' \<and> length bs' \<le> Suc (length (peerbases s))"
    by (elim disjE exE conjE) simp_all
  then have "length (peerbases s) \<le> length bs'" "length bs' \<le> Suc (length (peerbases s))" by simp_all
  from 1(1)[OF 1(2-5) this] show ?case .
qed

lemma typed_entry_ok:
  "pb_env_ok v env \<Longrightarrow> base_typed h b \<Longrightarrow> disk_ok v f \<Longrightarrow> pb_entry_ok v env f b"
  by (auto simp: pb_entry_ok_def base_typed_def disk_ok_def)

lemma publish_ok:
  assumes "act_ok v h (Pb_step t env)" and ty: "sys_typed v h s" and pc: "sy_pc s = P_Publish i nx"
  obtains pid w where "pb_publish v env i nx s = Inr (s\<lparr>sy_icd := (sy_icd s)\<lparr>peerbases :=
        (bases s)[i := (bases s ! i)\<lparr>isd_pid := pid\<rparr>]\<rparr>, sy_pc := P_At nx, sy_world := w\<rparr>)" "pid \<noteq> -1"
    "files (pw_fs w) = (files (pw_fs (sy_world s)))(path_of (bases s ! i) \<mapsto> pb_content v env (bases s ! i))"
    "disk_ok v (pw_fs w)" "i < length (bases s)" "it_ok (bases s) nx" "base_typed h (bases s ! i)"
    "isd_paths w = isd_paths (sy_world s) @ (if isd_pid (bases s ! i) = -1 then [path_of (bases s ! i)] else [])"
proof -
  from ty pc have i: "i < length (bases s)" and q: "it_ok (bases s) nx" by (auto simp: sys_typed_def pc_ok_def)
  with ty have b: "base_typed h (bases s ! i)" by (simp add: sys_typed_def)
  with assms have "pb_env_ok v env" "pb_entry_ok v env (pw_fs (sy_world s)) (bases s ! i)"
    by (auto simp: act_ok_def sys_typed_def intro: typed_entry_ok)
  from pb_entry_good[OF this] obtain pid w where
    e: "pb_entry v env (bases s ! i) (sy_world s) = Inr ((bases s ! i)\<lparr>isd_pid := pid\<rparr>, w)" "pid \<noteq> -1"
      "files (pw_fs w) = (files (pw_fs (sy_world s)))(path_of (bases s ! i) \<mapsto> pb_content v env (bases s ! i))"
      "can_write (pw_fs w) = can_write (pw_fs (sy_world s))" "room (pw_fs w) = room (pw_fs (sy_world s))"
      "isd_paths w = isd_paths (sy_world s) @ (if isd_pid (bases s ! i) = -1 then [path_of (bases s ! i)] else [])"
    by blast
  have "disk_ok v (pw_fs w)" using ty e(4,5) by (simp add: sys_typed_def disk_ok_def)
  with that e i q b show ?thesis by (simp add: pb_publish_def)
qed

text \<open>A step keeps the types and cannot fail: it is done or waits for the lock.\<close>

lemma sys_step_typed:
  assumes h: "inds_ok h" and ok: "act_ok v h a" and ty: "sys_typed v h s"
  shows "sys_step v a s = None \<or> (\<exists>s'. sys_step v a s = Some (Inr s') \<and> sys_typed v h s')"
proof (cases a)
  case (Take_cap t env m)
  from ok Take_cap have c: "cap_event_ok v h (Event t (env, m))" "ack_sent env" by (auto simp: act_ok_def)
  from ty have d: "distinct (map pb_key (bases s))" and b: "\<forall>b \<in> set (bases s). base_typed h b"
    by (auto simp: sys_typed_def)
  obtain bs' cnt' acks where
    r: "handle_cap v env t m (sy_icd s) = Inr ((sy_icd s)\<lparr>peerbases := bs', reboot_counter := cnt'\<rparr>, acks)"
    "distinct (map pb_key bs')" "\<forall>b \<in> set bs'. base_typed h b" "length (bases s) \<le> length bs'"
    by (rule handle_cap_total[OF h c d b])
  with ty Take_cap show ?thesis
    by (cases "sy_held s") (auto simp: mutex_lock_def sys_typed_def intro: pc_ok_longer)
next
  case (Pb_step t env)
  show ?thesis
  proof (cases "sy_pc s")
    case (P_Publish i nx)
    from publish_ok[OF ok[unfolded Pb_step] ty P_Publish] obtain pid w where
      p: "pb_publish v env i nx s = Inr (s\<lparr>sy_icd := (sy_icd s)\<lparr>peerbases :=
          (bases s)[i := (bases s ! i)\<lparr>isd_pid := pid\<rparr>]\<rparr>, sy_pc := P_At nx, sy_world := w\<rparr>)"
        "disk_ok v (pw_fs w)" "it_ok (bases s) nx" "base_typed h (bases s ! i)" "i < length (bases s)" .
    from ty have "map pb_key ((bases s)[i := (bases s ! i)\<lparr>isd_pid := pid\<rparr>]) = map pb_key (bases s)"
      by (metis list_update_id map_update pb_key_pid)
    with p ty P_Publish Pb_step show ?thesis
      by (auto simp: sys_typed_def pc_ok_def dest!: set_update_subset_insert[THEN subsetD] intro: it_ok_longer)
  next
    case (P_At q)
    show ?thesis
    proof (cases q)
      case (Some i)
      let ?bs = "take i (bases s) @ drop (Suc i) (bases s)"
      from ty P_At Some have i: "i < length (bases s)" by (auto simp: sys_typed_def pc_ok_def it_ok_def)
      have "set ?bs \<subseteq> set (bases s)" using set_take_subset set_drop_subset by fastforce
      moreover have "distinct (map pb_key ?bs)"
        using ty by (auto simp: sys_typed_def take_map[symmetric] drop_map[symmetric] distinct_take distinct_drop
          dest: set_take_disj_set_drop_if_distinct[of _ i "Suc i"])
      ultimately show ?thesis
        using ty i P_At Some Pb_step by (auto simp: mutex_lock_def pb_look_def sys_typed_def pc_ok_def Let_def)
    qed (use ty P_At Pb_step in \<open>simp add: sys_typed_def pc_ok_def\<close>)
  qed (use ty Pb_step in \<open>simp add: sys_typed_def pc_ok_def\<close>)
qed

lemma sys_run_typed:
  "inds_ok h \<Longrightarrow> \<forall>a \<in> set as. act_ok v h a \<Longrightarrow> sys_typed v h s \<Longrightarrow>
   sys_run v as s = None \<or> (\<exists>s'. sys_run v as s = Some (Inr s') \<and> sys_typed v h s')"
proof (induction as arbitrary: s)
  case (Cons a as)
  from sys_step_typed[OF Cons.prems(1) _ Cons.prems(3), of a] Cons.prems(2)
  consider "sys_step v a s = None" | s' where "sys_step v a s = Some (Inr s')" "sys_typed v h s'" by auto
  then show ?case using Cons by cases auto
qed simp

section \<open>One daemon per link\<close>

text \<open>What the file of an entry holds while the lock was never kept: the entry, with the INDs it had when
  it was last written.\<close>

definition published :: "variant \<Rightarrow> host \<Rightarrow> fs \<Rightarrow> icd_base \<Rightarrow> bool" where
  "published v h f b \<longleftrightarrow> (\<exists>c x. files f (path_of b) = Some c \<and> length c = pb_size v
     \<and> get_pb v 0 c = create_peerbase v h (b\<lparr>ib_inds := x\<rparr>) \<and> bits_of x \<noteq> {} \<and> bits_of x \<subseteq> bits_of (ib_inds b))"

fun pc_before :: "nat \<Rightarrow> pb_pc \<Rightarrow> bool" where
  "pc_before k (P_At (Some i)) = (i \<le> k)"
| "pc_before k (P_Publish i q) = (i \<le> k \<and> (q = None \<or> q = Some (Suc i)))"
| "pc_before k u = True"

text \<open>The entries are numbered in the order they came, those with a daemon are the first \<open>k\<close>.\<close>

definition served :: "variant \<Rightarrow> host \<Rightarrow> icd_sys \<Rightarrow> bool" where
  "served v h s \<longleftrightarrow> \<not> sy_held s \<and> reboot_counter (sy_icd s) = of_nat (length (bases s))
     \<and> (\<forall>i < length (bases s). snsid (ib_link (bases s ! i))
          = snsid_of (src_addr (ib_link (bases s ! i))) (src_port (ib_link (bases s ! i))) (of_nat i))
     \<and> (\<exists>k \<le> length (bases s). isd_paths (sy_world s) = map path_of (take k (bases s)) \<and> pc_before k (sy_pc s)
          \<and> (\<forall>i < length (bases s). isd_pid (bases s ! i) \<noteq> -1 \<longleftrightarrow> i < k))
     \<and> (\<forall>b \<in> set (bases s). isd_pid b \<noteq> -1 \<longrightarrow> published v h (pw_fs (sy_world s)) b)"

text \<open>Numbers below 128 keep the paths apart.\<close>

lemma numbered_paths:
  assumes "path_of b = path_of b'" and "i < 128" and "j < 128"
    and "snsid (ib_link b) = snsid_of sa sp (of_nat i)" and "snsid (ib_link b') = snsid_of sa' sp' (of_nat j)"
  shows "i = j"
proof -
  have cat: "snsid_str (s @ t) = snsid_str s @ snsid_str t" for s t by (simp add: snsid_str_def)
  have "snsid_str (snsid_of sa sp (of_nat i)) = snsid_str (snsid_of sa' sp' (of_nat j))"
    using assms(1,4,5) by (simp add: base_path_full length_snsid_of)
  then have "snsid_str ((concat (replicate 4 (le32 sa)) @ le16 sp) @ le16 (of_nat i))
      = snsid_str ((concat (replicate 4 (le32 sa')) @ le16 sp') @ le16 (of_nat j))"
    by (simp add: snsid_of_def)
  moreover have "length (snsid_str (concat (replicate 4 (le32 sa)) @ le16 sp))
      = length (snsid_str (concat (replicate 4 (le32 sa')) @ le16 sp'))"
    by (simp add: length_snsid_str numeral_eq_Suc)
  ultimately have "snsid_str (le16 (of_nat i)) = snsid_str (le16 (of_nat j))"
    unfolding cat[of "_ @ _"] by (metis append_eq_append_conv)
  moreover have "unat c < 128" if "c \<in> set (le16 (of_nat n))" "n < 128" for c and n :: nat
  proof -
    have u: "unat (of_nat n :: u16) = n" using that(2) by (simp add: unat_of_nat)
    then have "unat (ucast (of_nat n :: u16) :: u8) = n" using that(2)
      by (simp add: unsigned_ucast_eq take_bit_eq_mod)
    moreover have "unat (ucast (drop_bit 8 (of_nat n :: u16)) :: u8) = 0" using that(2) u
      by (simp add: unsigned_ucast_eq take_bit_eq_mod drop_bit_eq_div unat_div)
    ultimately show ?thesis using that by (auto simp: le16_def)
  qed
  ultimately have "le16 (of_nat i) = le16 (of_nat j)" using assms(2,3) by (intro snsid_str_inject) auto
  then have "(of_nat i :: u16) = of_nat j" by (metis of_le16_le16)
  then have "unat (of_nat i :: u16) = unat (of_nat j :: u16)" by simp
  with assms(2,3) show ?thesis by (simp add: unat_of_nat)
qed

lemma servedE [consumes 1, case_names served]:
  assumes "served v h s"
  obtains k where "\<not> sy_held s" "reboot_counter (sy_icd s) = of_nat (length (bases s))"
    "\<And>i. i < length (bases s) \<Longrightarrow> snsid (ib_link (bases s ! i))
       = snsid_of (src_addr (ib_link (bases s ! i))) (src_port (ib_link (bases s ! i))) (of_nat i)"
    "k \<le> length (bases s)" "isd_paths (sy_world s) = map path_of (take k (bases s))" "pc_before k (sy_pc s)"
    "\<And>i. i < length (bases s) \<Longrightarrow> isd_pid (bases s ! i) \<noteq> -1 \<longleftrightarrow> i < k"
    "\<And>b. b \<in> set (bases s) \<Longrightarrow> isd_pid b \<noteq> -1 \<Longrightarrow> published v h (pw_fs (sy_world s)) b"
  using assms unfolding served_def by blast

lemma servedI:
  assumes "\<not> sy_held s" "reboot_counter (sy_icd s) = of_nat (length (bases s))"
    "\<And>i. i < length (bases s) \<Longrightarrow> snsid (ib_link (bases s ! i))
       = snsid_of (src_addr (ib_link (bases s ! i))) (src_port (ib_link (bases s ! i))) (of_nat i)"
    "k \<le> length (bases s)" "isd_paths (sy_world s) = map path_of (take k (bases s))" "pc_before k (sy_pc s)"
    "\<And>i. i < length (bases s) \<Longrightarrow> isd_pid (bases s ! i) \<noteq> -1 \<longleftrightarrow> i < k"
    "\<And>b. b \<in> set (bases s) \<Longrightarrow> isd_pid b \<noteq> -1 \<Longrightarrow> published v h (pw_fs (sy_world s)) b"
  shows "served v h s"
  using assms unfolding served_def by blast

lemma path_of_update: "ib_link b = ib_link (bs ! i) \<Longrightarrow> map path_of (take k (bs[i := b])) = map path_of (take k bs)"
  by (cases "i < length bs") (auto intro!: nth_equalityI simp: nth_list_update)

lemma create_peerbase_upd:
  "create_peerbase v h (b\<lparr>last_cap := t\<rparr>) = create_peerbase v h b"
  "create_peerbase v h (b\<lparr>isd_pid := p\<rparr>) = create_peerbase v h b"
  "create_peerbase v h (b\<lparr>last_cap := t, ib_inds := x\<rparr>) = create_peerbase v h (b\<lparr>ib_inds := x\<rparr>)"
  "create_peerbase v h (b\<lparr>isd_pid := p, ib_inds := x\<rparr>) = create_peerbase v h (b\<lparr>ib_inds := x\<rparr>)"
  by (simp_all add: create_peerbase_def cong: variant.case_cong)

lemma published_upd:
  assumes "published v h f b"
  shows "published v h f (b\<lparr>ib_inds := ib_inds b OR x, last_cap := t\<rparr>)"
proof -
  from assms obtain c y where "files f (path_of b) = Some c" "length c = pb_size v"
    "get_pb v 0 c = create_peerbase v h (b\<lparr>ib_inds := y\<rparr>)" "bits_of y \<noteq> {}" "bits_of y \<subseteq> bits_of (ib_inds b)"
    unfolding published_def by blast
  then show ?thesis unfolding published_def
    by (intro exI[of _ c] exI[of _ y]) (auto simp: create_peerbase_upd)
qed

lemma served_update:
  assumes sv: "served v h s" and i: "i < length (bases s)"
  shows "served v h (s\<lparr>sy_icd := (sy_icd s)\<lparr>peerbases :=
    (bases s)[i := (bases s ! i)\<lparr>ib_inds := ib_inds (bases s ! i) OR x, last_cap := t\<rparr>]\<rparr>\<rparr>)"
    (is "served v h (s\<lparr>sy_icd := (sy_icd s)\<lparr>peerbases := (bases s)[i := ?b]\<rparr>\<rparr>)")
proof -
  obtain b where b: "?b = b" by blast
  then have l: "ib_link b = ib_link (bases s ! i)" "isd_pid b = isd_pid (bases s ! i)" by auto
  have pub: "published v h f b" if "published v h f (bases s ! i)" for f
    using published_upd[OF that, where x = x and t = t] b by simp
  show ?thesis
    using sv
  proof (cases rule: servedE)
    case (served k)
    have "published v h (pw_fs (sy_world s)) c" if "c \<in> set ((bases s)[i := b])" "isd_pid c \<noteq> -1" for c
    proof (cases "c = b")
      case True
      with served(8)[of "bases s ! i"] that(2) l(2) i pub show ?thesis by simp
    next
      case False
      with that served(8) set_update_subset_insert show ?thesis by fastforce
    qed
    with served i l show ?thesis unfolding b
      by (intro servedI[where k = k]) (simp_all add: path_of_update nth_list_update)
  qed
qed

lemma served_append:
  assumes sv: "served v h s" and b: "isd_pid b = -1"
    "snsid (ib_link b) = snsid_of (src_addr (ib_link b)) (src_port (ib_link b)) (reboot_counter (sy_icd s))"
  shows "served v h (s\<lparr>sy_icd := (sy_icd s)\<lparr>peerbases := bases s @ [b], reboot_counter := reboot_counter (sy_icd s) + 1\<rparr>\<rparr>)"
  using sv
proof (cases rule: servedE)
  case (served k)
  with b show ?thesis by (intro servedI[where k = k]) (auto simp: nth_append less_Suc_eq)
qed

lemma served_publish:
  assumes ok: "act_ok v h (Pb_step t env)" and ty: "sys_typed v h s" and sv: "served v h s"
    and pc: "sy_pc s = P_Publish i nx" and few: "length (bases s) \<le> 128"
  shows "\<exists>s'. pb_publish v env i nx s = Inr s' \<and> sys_typed v h s' \<and> served v h s'
    \<and> receivers_of (bases s') = receivers_of (bases s) \<and> map pb_key (bases s') = map pb_key (bases s)"
proof -
  from publish_ok[OF ok ty pc] obtain pid w where
    p: "pb_publish v env i nx s = Inr (s\<lparr>sy_icd := (sy_icd s)\<lparr>peerbases :=
        (bases s)[i := (bases s ! i)\<lparr>isd_pid := pid\<rparr>]\<rparr>, sy_pc := P_At nx, sy_world := w\<rparr>)" "pid \<noteq> -1"
      "files (pw_fs w) = (files (pw_fs (sy_world s)))(path_of (bases s ! i) \<mapsto> pb_content v env (bases s ! i))"
      "disk_ok v (pw_fs w)" "i < length (bases s)" "it_ok (bases s) nx" "base_typed h (bases s ! i)"
      "isd_paths w = isd_paths (sy_world s) @ (if isd_pid (bases s ! i) = -1 then [path_of (bases s ! i)] else [])" .
  define b where "b = (bases s ! i)\<lparr>isd_pid := pid\<rparr>"
  have l: "ib_link b = ib_link (bases s ! i)" "isd_pid b \<noteq> -1" "pb_key b = pb_key (bases s ! i)" 
    using p(2) by (simp_all add: b_def)
  have keys: "map pb_key ((bases s)[i := b]) = map pb_key (bases s)" using l(3) by (metis list_update_id map_update)
  show ?thesis
    using sv
  proof (cases rule: servedE)
    case (served k)
    have ik: "i \<le> k" "nx = None \<or> nx = Some (Suc i)" using served(6) pc by auto
    define k' where "k' = max k (Suc i)"
    have started: "isd_pid ((bases s)[i := b] ! j) \<noteq> -1 \<longleftrightarrow> j < k'" if "j < length (bases s)" for j
      using served(7)[OF that] l(2) p(5) ik by (auto simp: k'_def nth_list_update)
    have paths: "isd_paths w = map path_of (take k' ((bases s)[i := b]))"
    proof (cases "i < k")
      case True
      with served(5) served(7)[OF p(5)] p(8) show ?thesis
        by (simp add: k'_def path_of_update[OF l(1)])
    next
      case False
      with ik served(5) served(7)[OF p(5)] p(5,8) show ?thesis
        by (simp add: k'_def path_of_update[OF l(1)] take_Suc_conv_app_nth l(1))
    qed
    have other: "path_of (bases s ! j) \<noteq> path_of (bases s ! i)" if "j < length (bases s)" "j \<noteq> i" for j
      using numbered_paths[OF _ _ _ served(3)[OF that(1)] served(3)[OF p(5)]] that p(5) few by fastforce
    have pub: "published v h (pw_fs w) c" if "c \<in> set ((bases s)[i := b])" "isd_pid c \<noteq> -1" for c
    proof (cases "c = b")
      case True
      have "pb_env_ok v env" "pe_host env = h" using ok by (auto simp: act_ok_def)
      moreover have "pb_entry_ok v env (pw_fs (sy_world s)) (bases s ! i)"
        using typed_entry_ok[OF calculation(1) p(7)] ty by (simp add: sys_typed_def)
      ultimately show ?thesis
        using pb_content_facts[of v env "pw_fs (sy_world s)" "bases s ! i"] p(3,7) True l(1) unfolding published_def base_typed_def
        by (intro exI[of _ "pb_content v env (bases s ! i)"] exI[of _ "ib_inds (bases s ! i)"])
          (simp add: b_def create_peerbase_upd)
    next
      case False
      with that obtain j where j: "j < length (bases s)" "j \<noteq> i" "c = bases s ! j"
        by (metis in_set_conv_nth length_list_update nth_list_update_eq nth_list_update_neq)
      with served(8)[of c] that(2) other[OF j(1,2)] p(3) show ?thesis by (simp add: published_def)
    qed
    let ?s = "s\<lparr>sy_icd := (sy_icd s)\<lparr>peerbases := (bases s)[i := b]\<rparr>, sy_pc := P_At nx, sy_world := w\<rparr>"
    have "served v h ?s"
      using served(1-4) started paths pub l(1) p(5) ik
      by (intro servedI[where k = k']) (auto simp: k'_def nth_list_update)
    moreover have "sys_typed v h ?s"
      using ty keys p(4,6,7) by (auto simp: sys_typed_def pc_ok_def b_def
          dest!: set_update_subset_insert[THEN subsetD] intro: it_ok_longer)
    moreover have "receivers_of (bases ?s) = receivers_of (bases s)"
      using p(5) list_update_id[of "map (\<lambda>b. (pb_key b, bits_of (ib_inds b), last_cap b)) (bases s)" i]
      by (simp add: receivers_of_def map_update b_def)
    ultimately show ?thesis using p(1) keys by (auto simp: b_def)
  qed
qed

text \<open>Every entry the peer base thread meets is fresh when the receivers all are.\<close>

definition all_fresh :: "time_t \<Rightarrow> receivers \<Rightarrow> bool" where
  "all_fresh t r \<longleftrightarrow> (\<forall>k inds t0. r k = Some (inds, t0) \<longrightarrow> t - t0 \<le> IPRP_PB_TEXP)"

lemma all_fresh_entries:
  assumes "all_fresh t (receivers_of bs)" and "distinct (map pb_key bs)" and "b \<in> set bs"
  shows "\<not> aged last_cap IPRP_PB_TEXP t b"
proof -
  have "receivers_of bs (pb_key b) = Some (bits_of (ib_inds b), last_cap b)"
    using assms(2,3) by (simp add: receivers_of_def map_of_eq_Some_iff o_def)
  with assms(1) have "t - last_cap b \<le> IPRP_PB_TEXP" unfolding all_fresh_def by blast
  then show ?thesis by (simp add: aged_def)
qed

fun act_receivers :: "host \<Rightarrow> icd_act \<Rightarrow> receivers \<Rightarrow> receivers" where
  "act_receivers h (Take_cap t env m) r = receiver_cap h t m r"
| "act_receivers h (Pb_step t env) r = r"

fun act_keys :: "icd_act list \<Rightarrow> (in_addr \<times> u16 \<times> u16) list" where
  "act_keys [] = []"
| "act_keys (Take_cap t env m # as) = cap_key m # act_keys as"
| "act_keys (Pb_step t env # as) = act_keys as"

lemma sys_step_served:
  assumes h: "inds_ok h" and ok: "act_ok v h a" and ty: "sys_typed v h s" and sv: "served v h s"
    and few: "length (bases s) \<le> 128"
    and fresh: "\<And>t env. a = Pb_step t env \<Longrightarrow> all_fresh t (receivers_of (bases s))"
  shows "\<exists>s'. sys_step v a s = Some (Inr s') \<and> sys_typed v h s' \<and> served v h s'
    \<and> receivers_of (bases s') = act_receivers h a (receivers_of (bases s))
    \<and> set (map pb_key (bases s')) \<subseteq> set (map pb_key (bases s)) \<union> set (act_keys [a])"
proof (cases a)
  case (Take_cap t env m)
  from ok Take_cap have c: "cap_event_ok v h (Event t (env, m))" "ack_sent env" by (auto simp: act_ok_def)
  from ty have d: "distinct (map pb_key (bases s))" and b: "\<forall>b \<in> set (bases s). base_typed h b"
    by (auto simp: sys_typed_def)
  show ?thesis
  proof (rule handle_cap_ok[OF h c d b], goal_cases)
    case (1 bs' cnt' acks)
    let ?s = "s\<lparr>sy_icd := (sy_icd s)\<lparr>peerbases := bs', reboot_counter := cnt'\<rparr>\<rparr>"
    have step: "sys_step v a s = Some (Inr ?s)"
      using 1(1) sv Take_cap by (simp add: mutex_lock_def served_def)
    with sys_step_typed[OF h ok ty] have "sys_typed v h ?s" by simp
    moreover have "served v h ?s \<and> set (map pb_key bs') \<subseteq> set (map pb_key (bases s)) \<union> {cap_key m}"
      using 1(5)
    proof (elim disjE exE conjE, goal_cases)
      case (1 i x)
      then have "map pb_key bs' = map pb_key (bases s)"
        using list_update_id[of "map pb_key (bases s)" i] by (simp add: map_update)
      with served_update[OF sv 1(1), where x = x and t = t] 1 show ?case by auto
    next
      case (2 b)
      with served_append[OF sv, of b] show ?case by auto
    qed (use sv in auto)
    ultimately show ?case using step 1(4) Take_cap by (intro exI[of _ ?s]) simp
  qed
next
  case (Pb_step t env)
  show ?thesis
  proof (cases "sy_pc s")
    case (P_Publish i nx)
    from served_publish[OF ok[unfolded Pb_step] ty sv this few] obtain s' where
      s': "pb_publish v env i nx s = Inr s'" "sys_typed v h s'" "served v h s'"
        "receivers_of (bases s') = receivers_of (bases s)" "map pb_key (bases s') = map pb_key (bases s)" by blast
    from s'(5) have "set (map pb_key (bases s')) = set (map pb_key (bases s))" by (rule arg_cong)
    with s' P_Publish Pb_step show ?thesis by (intro exI[of _ s']) (simp del: set_map)
  next
    case P_Sleep
    let ?s = "s\<lparr>sy_pc := P_At (it_at 0 (bases s))\<rparr>"
    have "served v h ?s"
      using sv by (cases rule: servedE) (rule servedI, simp_all add: it_at_def)
    with sys_step_typed[OF h ok ty] P_Sleep Pb_step show ?thesis by simp
  next
    case (P_At q)
    show ?thesis
    proof (cases q)
      case None
      have "served v h (s\<lparr>sy_pc := P_Sleep\<rparr>)"
        using sv by (cases rule: servedE) (rule servedI, simp_all)
      with sys_step_typed[OF h ok ty] P_At None Pb_step show ?thesis by simp
    next
      case (Some i)
      from ty P_At Some have i: "i < length (bases s)" and d: "distinct (map pb_key (bases s))"
        by (auto simp: sys_typed_def pc_ok_def it_ok_def)
      from all_fresh_entries[OF fresh[OF Pb_step] d, of "bases s ! i"] i
      have look: "pb_look t i s = s\<lparr>sy_pc := P_Publish i (it_at (Suc i) (bases s))\<rparr>"
        by (simp add: pb_look_def)
      have "served v h (s\<lparr>sy_pc := P_Publish i (it_at (Suc i) (bases s))\<rparr>)"
        using sv P_At Some by (auto simp: served_def it_at_def)
      with sys_step_typed[OF h ok ty] P_At Some Pb_step look sv show ?thesis
        by (simp add: mutex_lock_def served_def)
    qed
  qed
qed

section \<open>Runs\<close>

text \<open>Every receiver that ever announced itself has done so in the last 60 seconds whenever the
  peer base thread looks.\<close>

fun kept_alive :: "host \<Rightarrow> icd_act list \<Rightarrow> receivers \<Rightarrow> bool" where
  "kept_alive h [] r = True"
| "kept_alive h (a # as) r =
     ((case a of Pb_step t env \<Rightarrow> all_fresh t r | Take_cap t env m \<Rightarrow> True) \<and> kept_alive h as (act_receivers h a r))"

lemma act_keys_Cons: "act_keys (a # as) = act_keys [a] @ act_keys as"
  by (cases a) simp_all

lemma sys_run_served:
  assumes h: "inds_ok h"
  shows "\<forall>a \<in> set as. act_ok v h a \<Longrightarrow> sys_typed v h s \<Longrightarrow> served v h s \<Longrightarrow>
    kept_alive h as (receivers_of (bases s)) \<Longrightarrow> set (map pb_key (bases s)) \<subseteq> K \<Longrightarrow> set (act_keys as) \<subseteq> K \<Longrightarrow>
    finite K \<Longrightarrow> card K \<le> 128 \<Longrightarrow>
    \<exists>s'. sys_run v as s = Some (Inr s') \<and> sys_typed v h s' \<and> served v h s'
      \<and> receivers_of (bases s') = fold (act_receivers h) as (receivers_of (bases s))
      \<and> set (map pb_key (bases s')) \<subseteq> K"
proof (induction as arbitrary: s)
  case (Cons a as)
  have "length (bases s) = card (set (map pb_key (bases s)))"
    using Cons.prems(2) distinct_card[of "map pb_key (bases s)"] by (simp add: sys_typed_def)
  also have "\<dots> \<le> 128" using card_mono[OF Cons.prems(7,5)] Cons.prems(8) by simp
  finally have few: "length (bases s) \<le> 128" .
  have a: "act_ok v h a" using Cons.prems(1) by simp
  have fresh: "all_fresh t (receivers_of (bases s))" if "a = Pb_step t env" for t env
    using Cons.prems(4) that by simp
  from sys_step_served[OF h a Cons.prems(2,3) few] fresh obtain s1 where
    s1: "sys_step v a s = Some (Inr s1)" "sys_typed v h s1" "served v h s1"
      "receivers_of (bases s1) = act_receivers h a (receivers_of (bases s))"
      "set (map pb_key (bases s1)) \<subseteq> set (map pb_key (bases s)) \<union> set (act_keys [a])" by blast
  have keys: "set (act_keys [a]) \<subseteq> K" "set (act_keys as) \<subseteq> K"
    using Cons.prems(6) unfolding act_keys_Cons[of a as] by auto
  have sub: "set (map pb_key (bases s1)) \<subseteq> K" using s1(5) Cons.prems(5) keys(1) by blast
  have "\<exists>s'. sys_run v as s1 = Some (Inr s') \<and> sys_typed v h s' \<and> served v h s'
      \<and> receivers_of (bases s') = fold (act_receivers h) as (receivers_of (bases s1))
      \<and> set (map pb_key (bases s')) \<subseteq> K"
    using Cons.prems(1,4,7,8) s1(2-4) sub keys(2) by (intro Cons.IH) (simp_all del: set_map)
  then show ?case using s1(1,4) by simp
qed simp

lemma sys_init_ok:
  assumes "disk_ok v (pw_fs w)" and "isd_paths w = []"
  shows "sys_typed v h (sys_init w)" "served v h (sys_init w)" "receivers_of (bases (sys_init w)) = Map.empty"
  using assms by (simp_all add: sys_typed_def sys_init_def pc_ok_def served_def receivers_of_def)

lemma filter_prefix: "(\<And>i. i < length xs \<Longrightarrow> P (xs ! i) \<longleftrightarrow> i < k) \<Longrightarrow> filter P xs = take k xs"
proof (induction xs arbitrary: k)
  case (Cons x xs)
  show ?case
  proof (cases k)
    case 0
    have "filter P (x # xs) = []" unfolding filter_empty_conv using Cons.prems 0 by (metis in_set_conv_nth not_less_zero)
    with 0 show ?thesis by simp
  next
    case (Suc n)
    from Cons.prems[of 0] Suc have "P x" by simp
    moreover have "filter P xs = take n xs"
      by (rule Cons.IH) (use Cons.prems[of "Suc _"] Suc in simp)
    ultimately show ?thesis using Suc by simp
  qed
qed simp

text \<open>Once the lock is kept nothing happens any more: the peer base thread can at most end its pass.\<close>

lemma held_step:
  "sy_held s \<Longrightarrow> (\<forall>i q. sy_pc s \<noteq> P_Publish i q) \<Longrightarrow> sys_step v a s = Some r \<Longrightarrow>
   \<exists>s'. r = Inr s' \<and> sy_held s' \<and> (\<forall>i q. sy_pc s' \<noteq> P_Publish i q) \<and> sy_icd s' = sy_icd s
     \<and> sy_world s' = sy_world s \<and> (\<forall>t env m. a \<noteq> Take_cap t env m)"
  by (cases a) (auto simp: mutex_lock_def split: pb_pc.splits option.splits)

lemma held_run:
  "sy_held s \<Longrightarrow> (\<forall>i q. sy_pc s \<noteq> P_Publish i q) \<Longrightarrow> sys_run v as s = Some r \<Longrightarrow>
   \<exists>s'. r = Inr s' \<and> sy_icd s' = sy_icd s \<and> sy_world s' = sy_world s \<and> act_keys as = []"
proof (induction as arbitrary: s)
  case (Cons a as)
  from Cons.prems(3) obtain r1 where r1: "sys_step v a s = Some r1" by (auto split: option.splits)
  from held_step[OF Cons.prems(1,2) r1] obtain s1 where
    s1: "r1 = Inr s1" "sy_held s1" "\<forall>i q. sy_pc s1 \<noteq> P_Publish i q" "sy_icd s1 = sy_icd s"
      "sy_world s1 = sy_world s" "\<forall>t env m. a \<noteq> Take_cap t env m" by blast
  from Cons.prems(3) r1 s1(1) have "sys_run v as s1 = Some r" by simp
  from Cons.IH[OF s1(2,3) this] s1 show ?case by (cases a) auto
qed auto

text \<open>The steps of the thread with nothing in between are the pass \<open>pb_pass\<close>.\<close>

lemma pass_steps:
  "\<exists>n. sys_run v (replicate n (Pb_step t env))
      \<lparr>sy_icd = s\<lparr>peerbases := pre @ bs\<rparr>, sy_held = held, sy_pc = P_At (it_at (length pre) (pre @ bs)), sy_world = w\<rparr>
    = map_option (\<lambda>r. and_then r (\<lambda>(bs', held', w').
        Inr (\<lparr>sy_icd = s\<lparr>peerbases := pre @ bs'\<rparr>, sy_held = held', sy_pc = P_At None, sy_world = w'\<rparr>)))
      (pb_pass v env t bs held w)"
proof (induction bs arbitrary: pre held w)
  case Nil
  show ?case by (rule exI[of _ 0]) (simp add: it_at_def)
next
  case (Cons b bs)
  have at: "it_at (length pre) (pre @ b # bs) = Some (length pre)" by (simp add: it_at_def)
  show ?case
  proof (cases held)
    case True
    then show ?thesis by (intro exI[of _ 1]) (simp add: at mutex_lock_def)
  next
    case free: False
    show ?thesis
    proof (cases "aged last_cap IPRP_PB_TEXP t b")
      case True
      from Cons.IH[where pre = pre and held = True and w = w] obtain n where n:
        "sys_run v (replicate n (Pb_step t env)) (\<lparr>sy_icd = s\<lparr>peerbases := pre @ bs\<rparr>, sy_held = True,
            sy_pc = P_At (it_at (length pre) (pre @ bs)), sy_world = w\<rparr>)
          = map_option (\<lambda>r. and_then r (\<lambda>(bs', held', w').
              Inr (\<lparr>sy_icd = s\<lparr>peerbases := pre @ bs'\<rparr>, sy_held = held', sy_pc = P_At None, sy_world = w'\<rparr>)))
            (pb_pass v env t bs True w)" by blast
      with True free show ?thesis
        by (intro exI[of _ "Suc n"]) (simp add: at mutex_lock_def pb_look_def Let_def)
    next
      case fresh: False
      show ?thesis
      proof (cases "pb_entry v env b w")
        case (Inl e)
        with free fresh show ?thesis
          by (intro exI[of _ "Suc (Suc 0)"]) (simp add: at mutex_lock_def pb_look_def pb_publish_def)
      next
        case (Inr r)
        obtain b' w' where r: "r = (b', w')" by fastforce
        from Cons.IH[where pre = "pre @ [b']" and held = False and w = w'] obtain n where n:
          "sys_run v (replicate n (Pb_step t env)) (\<lparr>sy_icd = s\<lparr>peerbases := (pre @ [b']) @ bs\<rparr>, sy_held = False,
              sy_pc = P_At (it_at (length (pre @ [b'])) ((pre @ [b']) @ bs)), sy_world = w'\<rparr>)
            = map_option (\<lambda>r. and_then r (\<lambda>(bs', held', w').
                Inr (\<lparr>sy_icd = s\<lparr>peerbases := (pre @ [b']) @ bs'\<rparr>, sy_held = held', sy_pc = P_At None, sy_world = w'\<rparr>)))
              (pb_pass v env t bs False w')" by blast
        have at': "it_at (Suc (length pre)) (pre @ b # bs) = it_at (Suc (length pre)) (pre @ b' # bs)" by (simp add: it_at_def)
        from n free fresh Inr r show ?thesis
          by (intro exI[of _ "Suc (Suc n)"])
            (cases "pb_pass v env t bs False w'", auto simp: at at' mutex_lock_def pb_look_def pb_publish_def and_then_def
              split: sum.splits)
      qed
    qed
  qed
qed

text \<open>The whole of a run from the start.\<close>

lemma sys_run_serves:
  assumes "inds_ok h" and "\<forall>a \<in> set as. act_ok v h a" and "disk_ok v (pw_fs w)" and "isd_paths w = []"
    and "kept_alive h as Map.empty" and "card (set (act_keys as)) \<le> 128"
  shows "\<exists>s. sys_run v as (sys_init w) = Some (Inr s) \<and> sys_typed v h s
    \<and> receivers_of (bases s) = fold (act_receivers h) as Map.empty
    \<and> isd_paths (sy_world s) = map path_of (filter (\<lambda>b. isd_pid b \<noteq> -1) (bases s))
    \<and> distinct (isd_paths (sy_world s))
    \<and> (\<forall>b \<in> set (bases s). isd_pid b \<noteq> -1 \<longrightarrow> published v h (pw_fs (sy_world s)) b)"
proof -
  from sys_run_served[OF assms(1,2) sys_init_ok(1,2)[OF assms(3,4)], of "set (act_keys as)"] assms(5,6)
    sys_init_ok(3)[OF assms(3,4)] obtain s where
    s: "sys_run v as (sys_init w) = Some (Inr s)" "sys_typed v h s" "served v h s"
      "receivers_of (bases s) = fold (act_receivers h) as Map.empty" "set (map pb_key (bases s)) \<subseteq> set (act_keys as)"
    by (auto simp: sys_init_def)
  have "length (bases s) = card (set (map pb_key (bases s)))"
    using s(2) distinct_card[of "map pb_key (bases s)"] by (simp add: sys_typed_def)
  also have "\<dots> \<le> 128" using card_mono[OF _ s(5)] assms(6) by simp
  finally have few: "length (bases s) \<le> 128" .
  have paths: "isd_paths (sy_world s) = map path_of (filter (\<lambda>b. isd_pid b \<noteq> -1) (bases s))"
    "distinct (map path_of (bases s))" "\<forall>b \<in> set (bases s). isd_pid b \<noteq> -1 \<longrightarrow> published v h (pw_fs (sy_world s)) b"
    using s(3)
  proof (atomize (full), cases rule: servedE)
    case (served k)
    have "i = j" if "i < length (bases s)" "j < length (bases s)" "path_of (bases s ! i) = path_of (bases s ! j)" for i j
      using numbered_paths[OF that(3) _ _ served(3)[OF that(1)] served(3)[OF that(2)]] that few by simp
    then have "distinct (map path_of (bases s))" by (auto simp: distinct_conv_nth)
    with served(5,8) filter_prefix[of "bases s" "\<lambda>b. isd_pid b \<noteq> -1" k] served(7)
    show "isd_paths (sy_world s) = map path_of (filter (\<lambda>b. isd_pid b \<noteq> -1) (bases s)) \<and> distinct (map path_of (bases s))
      \<and> (\<forall>b \<in> set (bases s). isd_pid b \<noteq> -1 \<longrightarrow> published v h (pw_fs (sy_world s)) b)" by simp
  qed
  then have "distinct (isd_paths (sy_world s))" by (simp add: distinct_map_filter)
  with s(1,2,4) paths(1,3) show ?thesis by blast
qed

section \<open>Properties\<close>


lemma example_disk_ok: "disk_ok v (pw_fs example_world)"
  by (cases v) (simp_all add: disk_ok_def example_world_def example_fs_def)

lemma example_acts_ok:
  "act_ok Unicast example_host (Take_cap t example_icd_env example_cap)" "act_ok Unicast example_host (Pb_step t example_pb_env)"
  using example_cap_ok example_ok(1)
  by (simp_all add: act_ok_def example_icd_env_def example_pb_env_def pb_env_ok_def)





text \<open>
  C37. The first entry that expires stops the daemon: when the thread looks at an entry that was silent
  for more than 60 seconds, it deletes it and keeps the lock; after that, in every run, no CAP message
  is ever handled again and no peer base, file or daemon changes.
\<close>

theorem expired_entry_stops_daemon:
  assumes "\<not> sy_held s" and "sy_pc s = P_At (Some i)" and "i < length (bases s)"
    and "t - last_cap (bases s ! i) > IPRP_PB_TEXP"
  shows "\<exists>s'. sys_step v (Pb_step t env) s = Some (Inr s') \<and> bases s' = take i (bases s) @ drop (Suc i) (bases s)
    \<and> (\<forall>as r. sys_run v as s' = Some r \<longrightarrow>
        (\<exists>s''. r = Inr s'' \<and> sy_icd s'' = sy_icd s' \<and> sy_world s'' = sy_world s' \<and> act_keys as = []))"
proof -
  let ?bs = "take i (bases s) @ drop (Suc i) (bases s)"
  define s' where "s' = s\<lparr>sy_icd := (sy_icd s)\<lparr>peerbases := ?bs\<rparr>, sy_held := True, sy_pc := P_At (it_at i ?bs)\<rparr>"
  have "sys_step v (Pb_step t env) s = Some (Inr s')"
    using assms by (simp add: mutex_lock_def pb_look_def aged_def s'_def Let_def)
  moreover have "sy_held s'" "\<forall>i q. sy_pc s' \<noteq> P_Publish i q" "bases s' = ?bs" by (simp_all add: s'_def)
  ultimately show ?thesis using held_run[of s' v] by blast
qed

theorem expired_entry_stops_daemon_witness:
  "\<exists>s'. sys_step Unicast (Pb_step 100 example_pb_env)
        \<lparr>sy_icd = \<lparr>peerbases = [example_base], sender_ifs = [], reboot_counter = 1\<rparr>, sy_held = False,
          sy_pc = P_At (Some 0), sy_world = example_world\<rparr> = Some (Inr s')
    \<and> sys_run Unicast [Take_cap 101 example_icd_env example_cap] s' = None"
proof -
  let ?s = "\<lparr>sy_icd = \<lparr>peerbases = [example_base], sender_ifs = [], reboot_counter = 1\<rparr>, sy_held = False,
    sy_pc = P_At (Some 0), sy_world = example_world\<rparr>"
  from expired_entry_stops_daemon[of ?s 0 100 Unicast example_pb_env] obtain s' where
    s': "sys_step Unicast (Pb_step 100 example_pb_env) ?s = Some (Inr s')"
    "\<forall>as r. sys_run Unicast as s' = Some r \<longrightarrow> act_keys as = []"
    by (auto simp: example_base_def IPRP_PB_TEXP_def simp del: sys_step.simps)
  then have "sys_run Unicast [Take_cap 101 example_icd_env example_cap] s' = None"
    by (metis act_keys.simps(2) list.distinct(1) option.exhaust)
  with s'(1) show ?thesis by blast
qed

text \<open>
  The same happens at the start when a CAP comes before the time thread has sampled the clock: the entry is
  created with time 0, and the first look at it, with the time of day, finds it expired.
\<close>

theorem early_cap_stops_daemon:
  assumes "inds_ok h" and "act_ok v h (Take_cap (time_routine [] 0) env m)"
    and "bits_of (cap_inds m) \<inter> host_inds h \<noteq> {}" and "now > IPRP_PB_TEXP"
  shows "\<exists>s. sys_run v [Take_cap (time_routine [] 0) env m, Pb_step t penv, Pb_step (time_routine [now] 0) penv] (sys_init w)
      = Some (Inr s) \<and> bases s = []
    \<and> (\<forall>as r. sys_run v as s = Some r \<longrightarrow> act_keys as = [])"
proof -
  from assms(2) have c: "cap_event_ok v h (Event 0 (env, m))" "ack_sent env" by (simp_all add: act_ok_def)
  have "distinct (map pb_key (peerbases (sy_icd (sys_init w))))" "\<forall>b \<in> set (peerbases (sy_icd (sys_init w))). base_typed h b"
    by (simp_all add: sys_init_def)
  then obtain bs' cnt' acks where
    r: "handle_cap v env 0 m (sy_icd (sys_init w))
        = Inr ((sy_icd (sys_init w))\<lparr>peerbases := bs', reboot_counter := cnt'\<rparr>, acks)"
      "receivers_of bs' = receiver_cap h 0 m (receivers_of (bases (sys_init w)))" "length bs' \<le> Suc (length (bases (sys_init w)))"
    by (rule handle_cap_total[OF assms(1) c])
  have e: "receivers_of bs' (cap_key m) = Some (bits_of (cap_inds m) \<inter> host_inds h, 0)"
    using r(2) assms(3) by (simp add: receiver_cap_def sys_init_def receivers_of_def)
  then obtain b where b: "bs' = [b]" using r(3) by (cases bs') (auto simp: receivers_of_def sys_init_def)
  with e have "last_cap b = 0" by (simp add: receivers_of_def split: if_splits)
  then have old: "aged last_cap IPRP_PB_TEXP now b" using assms(4) by (simp add: aged_def)
  define s where "s = (sys_init w)\<lparr>sy_icd := (sy_icd (sys_init w))\<lparr>peerbases := [], reboot_counter := cnt'\<rparr>,
    sy_held := True, sy_pc := P_At None\<rparr>"
  have "sys_run v [Take_cap (time_routine [] 0) env m, Pb_step t penv, Pb_step (time_routine [now] 0) penv] (sys_init w)
      = Some (Inr s)"
    using r(1) b old by (simp add: s_def sys_init_def mutex_lock_def it_at_def pb_look_def)
  moreover have "sy_held s" "\<forall>i q. sy_pc s \<noteq> P_Publish i q" "bases s = []" by (simp_all add: s_def)
  ultimately show ?thesis using held_run[of s v] by blast
qed

theorem early_cap_stops_daemon_witness:
  "\<exists>s. sys_run Unicast [Take_cap (time_routine [] 0) example_icd_env example_cap, Pb_step 0 example_pb_env,
      Pb_step (time_routine [1500000000] 0) example_pb_env] (sys_init example_world) = Some (Inr s) \<and> bases s = []"
proof -
  have "0 \<in> bits_of 9" by (simp add: bits_of_def)
  moreover have "0 \<in> host_inds example_host" by (simp add: host_inds_def example_host_def)
  ultimately have "bits_of (cap_inds example_cap) \<inter> host_inds example_host \<noteq> {}" by (auto simp: example_cap_def)
  from early_cap_stops_daemon[OF example_inds_ok example_acts_ok(1) this, of 1500000000 0 example_pb_env example_world]
  show ?thesis by (auto simp: IPRP_PB_TEXP_def)
qed

end
