(* ===== verification/Iprp_Session.thy ===== *)
theory Iprp_Session
  imports Iprp_Transport Iprp_Imd Iprp_Icd_Senders Iprp_Icd_Run
begin

text \<open>
  How a session comes about: the steps of the daemons in the order their messages and files connect
  them.  The monitoring daemon of the receiver publishes an active sender, the control daemon of the
  receiver announces its interfaces in a CAP message, the control daemon of the sender turns it into
  a peer base and publishes that, and the sending daemon reads it.  The lemmas are about the unicast
  variant, in which sessions are established.
\<close>

section \<open>From the active senders to the CAP messages\<close>

lemma list_all2_set1: "list_all2 P xs ys \<Longrightarrow> x \<in> set xs \<Longrightarrow> \<exists>y \<in> set ys. P x y"
  by (induction rule: list_all2_induct) auto

lemma senders_sent_caps:
  assumes "imd_inv Unicast es" and "length es < 2147483648" and "length es * as_size Unicast \<le> mem"
    and "can_write f IPRP_AS_FILE" and "4 + length es * as_size Unicast \<le> room f IPRP_AS_FILE"
    and "length c0 = 4" and "inds_ok h" and "length stack = ctlmsg_size Unicast"
  shows "\<exists>f' ds. imd_as_round Unicast mem t f es = Inr (f', filter (\<lambda>e. t - as_last_seen e \<le> IMD_AS_TEXP) es)
    \<and> icd_as_round Unicast h mem c0 stack t' f' sis = Inr (ds, sis)
    \<and> list_all2 (\<lambda>a d. send_cap Unicast h stack a = Inr d \<and> announces Unicast h a d)
        (filter (\<lambda>e. t - as_last_seen e \<le> IMD_AS_TEXP) es) ds"
proof -
  let ?es = "filter (\<lambda>e. t - as_last_seen e \<le> IMD_AS_TEXP) es"
  from imd_round_file[OF assms(1-6), of t] obtain f' a where
    r: "imd_as_round Unicast mem t f es = Inr (f', ?es)"
      "activesenders_load Unicast mem IPRP_AS_FILE (Some c0) True f' = Inr (0, of_nat (length ?es), Some a)"
      "get_array (get_as Unicast) (as_size Unicast) (length ?es) 0 a = ?es" by blast
  have "length ?es \<le> length es" by simp
  then have "length ?es < 2147483648" using assms(2) by linarith
  from get_active_senders_file[OF _ this] r(2,3)
  have g: "get_active_senders Unicast mem c0 f' = Inr ?es"
    by (simp add: AS_FILE_def IPRP_AS_FILE_def)
  from as_loop_unicast[OF assms(7,8), of t' ?es sis] r(1) g show ?thesis
    by (auto simp: icd_as_round_def)
qed

section \<open>From the CAP message to the peer base\<close>

definition announced :: "host \<Rightarrow> host \<Rightarrow> active_sender \<Rightarrow> u16 \<Rightarrow> icd_base \<Rightarrow> bool" where
  "announced theirs mine a cnt b \<longleftrightarrow>
     ib_link b = \<lparr>src_addr = as_src_addr a, dest_addr = as_dest_addr a, src_port = as_src_port a,
       dest_port = as_dest_port a, snsid = snsid_of (as_src_addr a) (as_src_port a) cnt\<rparr>
     \<and> bits_of (ib_inds b) = host_inds theirs \<inter> host_inds mine
     \<and> length (ib_dest_addr b) = IPRP_MAX_INDS
     \<and> (\<forall>f \<in> set (take (nb_ifaces theirs) (ifaces theirs)). ib_dest_addr b ! unat (ind f) = if_addr f)"

lemma bits_of_all: "inds_ok h \<Longrightarrow> ind_match h (- 1) = Inr m \<Longrightarrow> bits_of m = host_inds h"
proof -
  assume h: "inds_ok h" and m: "ind_match h (- 1) = Inr m"
  from bits_of_match[OF h, of "- 1"] m have "bits_of m = bits_of (- 1) \<inter> host_inds h" by auto
  moreover have "host_inds h \<subseteq> {i. i < 16}" using h by (auto simp: inds_ok_def host_inds_def iprp_consts)
  ultimately show ?thesis by (auto simp: bits_of_def)
qed

lemma create_base_announced:
  assumes "base_mem env = Some b0" and "length (ib_dest_addr b0) = IPRP_MAX_INDS"
    and hr: "inds_ok (cap_receiver m)"
    and dist: "distinct (map ind (take (nb_ifaces (cap_receiver m)) (ifaces (cap_receiver m))))"
  shows "\<exists>b. create_base Unicast env t m x cnt bs = Inr (b, cnt + 1)
    \<and> ib_link b = \<lparr>src_addr = cap_src_addr m, dest_addr = cap_dest_addr m, src_port = cap_src_port m,
        dest_port = cap_dest_port m, snsid = snsid_of (cap_src_addr m) (cap_src_port m) cnt\<rparr>
    \<and> ib_inds b = x \<and> length (ib_dest_addr b) = IPRP_MAX_INDS \<and> isd_pid b = -1 \<and> last_cap b = t
    \<and> (\<forall>f \<in> set (take (nb_ifaces (cap_receiver m)) (ifaces (cap_receiver m))).
        ib_dest_addr b ! unat (ind f) = if_addr f)"
proof -
  let ?fs = "take (nb_ifaces (cap_receiver m)) (ifaces (cap_receiver m))"
  from hr assms(2) have "host_ok (cap_receiver m)" "\<forall>f \<in> set ?fs. unat (ind f) < length (ib_dest_addr b0)"
    by (auto simp: inds_ok_def)
  with set_dests_values[OF this(2) dist] assms(1,2) show ?thesis
    by (auto simp: create_base_def used_ifaces_ok Let_def)
qed

lemma cap_creates_base:
  assumes theirs: "inds_ok theirs" "distinct (map ind (take (nb_ifaces theirs) (ifaces theirs)))"
    and mine: "inds_ok (this_host env)" and common: "host_inds theirs \<inter> host_inds (this_host env) \<noteq> {}"
    and mem: "base_mem env = Some b0" "length (ib_dest_addr b0) = IPRP_MAX_INDS" "elem_mem env"
    and stack: "length stack = ctlmsg_size Unicast"
    and new: "(as_dest_addr a, as_src_port a, as_dest_port a) \<notin> pb_key ` set (peerbases s)"
  shows "\<exists>data s' b. send_cap Unicast theirs stack a = Inr (data, sockaddr_fill (as_src_addr a) IPRP_CTL_PORT)
    \<and> control_loop Unicast [(t, env, Some data)] s = Inr (s', [], True)
    \<and> peerbases s' = peerbases s @ [b]
    \<and> announced theirs (this_host env) a (reboot_counter s) b \<and> isd_pid b = -1 \<and> last_cap b = t"
proof -
  from bits_of_match[OF theirs(1), of "- 1"] obtain x where "ind_match theirs (- 1) = Inr x" .
  then have x: "ind_match theirs (- 1) = Inr x" "bits_of x = host_inds theirs"
    using bits_of_all[OF theirs(1)] by simp_all
  let ?m = "cap_of Unicast theirs a x"
  have ok: "cap_ok Unicast ?m" using theirs(1) by (simp add: cap_ok_def cap_of_def inds_ok_def)
  from bits_of_match[OF mine, of x] x(2) obtain y where
    y: "ind_match (this_host env) x = Inr y" "bits_of y = host_inds theirs \<inter> host_inds (this_host env)" by auto
  then have "y \<noteq> 0" using common by auto
  from create_base_announced[OF mem(1,2), of ?m t y "reboot_counter s" "peerbases s"] theirs obtain b where
    b: "create_base Unicast env t ?m y (reboot_counter s) (peerbases s) = Inr (b, reboot_counter s + 1)"
      "ib_link b = \<lparr>src_addr = as_src_addr a, dest_addr = as_dest_addr a, src_port = as_src_port a,
        dest_port = as_dest_port a, snsid = snsid_of (as_src_addr a) (as_src_port a) (reboot_counter s)\<rparr>"
      "ib_inds b = y" "length (ib_dest_addr b) = IPRP_MAX_INDS" "isd_pid b = -1" "last_cap b = t"
      "\<forall>f \<in> set (take (nb_ifaces theirs) (ifaces theirs)). ib_dest_addr b ! unat (ind f) = if_addr f"
    by (auto simp: cap_of_def)
  have q: "peerbase_query ?m (peerbases s) = None"
    using new unfolding peerbase_query_key find_idx_None by (force simp: cap_of_def cap_key.simps image_iff)
  have i: "cap_inds ?m = x" by (simp add: cap_of_def)
  have "handle_cap Unicast env t ?m s
      = Inr (s\<lparr>peerbases := peerbases s @ [b], reboot_counter := reboot_counter s + 1\<rparr>, [])"
    using q y(1) \<open>y \<noteq> 0\<close> b(1) mem(3) i by (simp add: handle_cap_def cap_update_def Let_def)
  then have "control_loop Unicast [(t, env, Some (put_cap_msg Unicast ?m stack))] s
      = Inr (s\<lparr>peerbases := peerbases s @ [b], reboot_counter := reboot_counter s + 1\<rparr>, [], True)"
    using cap_decode[OF ok stack] by simp
  with x(1) y(2) b(2-7) show ?thesis
    by (auto simp: send_cap_def announced_def)
qed

section \<open>From the peer base to the sending daemon\<close>

lemma create_peerbase_base_ok:
  assumes "inds_ok (pe_host env)" and "pb_entry_ok Unicast env f b"
  shows "base_ok Unicast (create_peerbase Unicast (pe_host env) b)"
  using assms by (auto simp: base_ok_def pb_ok_def create_peerbase_def pb_entry_ok_def inds_ok_def iprp_consts)

lemma published_base_loaded:
  assumes "pb_env_ok Unicast env" and "inds_ok (pe_host env)"
    and "\<forall>b \<in> set bs. pb_entry_ok Unicast env (pw_fs w) b \<and> \<not> aged last_cap IPRP_PB_TEXP t b"
    and "distinct (map path_of bs)" and "length temp = pb_size Unicast"
  obtains bs' w' where "pb_pass Unicast env t bs False w = Some (Inr (bs', False, w'))"
    "isd_paths w' = isd_paths w @ map path_of (filter (\<lambda>b. isd_pid b = -1) bs)"
    "\<forall>b \<in> set bs. isd_pb_round Unicast ok (Some (path_of b)) temp (pw_fs w') pb
      = Inr (\<lparr>isd_base = create_peerbase Unicast (pe_host env) b, isd_loaded = True\<rparr>, [])"
proof -
  from pb_pass_good[OF assms(1,3,4)] obtain bs' w' where
    p: "pb_pass Unicast env t bs False w = Some (Inr (bs', False, w'))"
      "\<forall>b \<in> set bs. files (pw_fs w') (path_of b) = Some (pb_content Unicast env b)"
      "isd_paths w' = isd_paths w @ map path_of (filter (\<lambda>b. isd_pid b = -1) bs)" by blast
  have "isd_pb_round Unicast ok (Some (path_of b)) temp (pw_fs w') pb
      = Inr (\<lparr>isd_base = create_peerbase Unicast (pe_host env) b, isd_loaded = True\<rparr>, [])"
    if "b \<in> set bs" for b
  proof -
    from assms(3) that have ok: "pb_entry_ok Unicast env (pw_fs w) b" by blast
    note c = pb_content_facts[OF assms(1) ok]
    have "put_bytes 0 (take (pb_size Unicast) (pb_content Unicast env b)) temp = pb_content Unicast env b"
      using c(1) assms(5) by (simp add: put_bytes_def)
    then show ?thesis
      using p(2) that c(2) by (simp add: isd_pb_round_def peerbase_load_def fread_def Let_def)
  qed
  with p(1,3) that show ?thesis by blast
qed

text \<open>The daemon that holds the base sends the copies where the receiver announced itself.\<close>

lemma base_directs_copies:
  assumes "inds_ok (pe_host env)" and "pb_entry_ok Unicast env f0 b"
    and "announced theirs (pe_host env) a cnt b"
    and "28 \<le> length p" and "length p < 65536" and "length p + 192 \<le> malloc_room senv"
    and "\<forall>i addr. sendto_ok senv i addr"
  shows "\<exists>s' vd ds. isd_handle_packet Unicast senv t'
        \<lparr>isd_base = create_peerbase Unicast (pe_host env) b, isd_loaded = True\<rparr> (nfq_good p i) s = Inr (s', vd, ds)
      \<and> (\<forall>f \<in> set (take (nb_ifaces theirs) (ifaces theirs)). unat (ind f) \<in> host_inds (pe_host env) \<longrightarrow>
          (\<exists>d \<in> set ds. dg_sock d = unat (ind f) \<and> dg_to d = sockaddr_fill (if_addr f) IPRP_DATA_PORT))
      \<and> dg_sock ` set ds = host_inds theirs \<inter> host_inds (pe_host env)"
proof -
  let ?base = "create_peerbase Unicast (pe_host env) b"
  let ?pb = "\<lparr>isd_base = ?base, isd_loaded = True\<rparr>"
  have "base_ok Unicast ?base" using create_peerbase_base_ok[OF assms(1,2)] .
  then have bok: "base_ok Unicast (isd_base ?pb)" by simp
  let ?fs = "filter (\<lambda>f. bit (ib_inds b) (unat (ind f))) (take (nb_ifaces (pe_host env)) (ifaces (pe_host env)))"
  from isd_handle_good[OF assms(4-6) bok assms(7), of t' i s] obtain new vd where
    h: "isd_handle_packet Unicast senv t' ?pb (nfq_good p i) s
      = Inr (\<lparr>seq_nb = next_seq (seq_nb s), last_allowed_thru = snd (isd_verdict Unicast t' s)\<rparr>, vd,
          map (\<lambda>f. \<lparr>dg_sock = unat (ind f), dg_data = new, dg_to = dest_of Unicast ?base f\<rparr>) ?fs)"
    by (auto simp: create_peerbase_def)
  let ?ds = "map (\<lambda>f. \<lparr>dg_sock = unat (ind f), dg_data = new, dg_to = dest_of Unicast ?base f\<rparr>) ?fs"
  note ann = assms(3)[unfolded announced_def]
  have inds: "bit (ib_inds b) k \<longleftrightarrow> k \<in> host_inds theirs \<and> k \<in> host_inds (pe_host env)" for k
    using ann by (auto simp: bits_of_def)
  have "dg_sock ` set ?ds = {k \<in> host_inds (pe_host env). bit (ib_inds b) k}"
    unfolding host_inds_def by (auto simp: image_image)
  then have socks: "dg_sock ` set ?ds = host_inds theirs \<inter> host_inds (pe_host env)" using inds by auto
  have dest: "dest_of Unicast ?base f = sockaddr_fill (ib_dest_addr b ! unat (ind f)) IPRP_DATA_PORT"
    if "unat (ind f) < 16" for f using that ann by (simp add: dest_of_def create_peerbase_def iprp_consts)
  have "\<exists>d \<in> set ?ds. dg_sock d = unat (ind f) \<and> dg_to d = sockaddr_fill (if_addr f) IPRP_DATA_PORT"
    if f: "f \<in> set (take (nb_ifaces theirs) (ifaces theirs))" "unat (ind f) \<in> host_inds (pe_host env)" for f
  proof -
    from f(2) obtain g where g: "g \<in> set (take (nb_ifaces (pe_host env)) (ifaces (pe_host env)))"
      "unat (ind g) = unat (ind f)" by (auto simp: host_inds_def)
    then have "unat (ind f) < 16" using assms(1) by (fastforce simp: inds_ok_def iprp_consts)
    moreover have "g \<in> set ?fs" using g f inds by (auto simp: host_inds_def)
    moreover have "ib_dest_addr b ! unat (ind f) = if_addr f" using ann f(1) by blast
    ultimately show ?thesis using dest[of g] g(2) by (intro bexI[of _ "_ g"]) auto
  qed
  with h socks show ?thesis by blast
qed

text \<open>The sending daemon turns any packet of the application into a copy for each IND both hosts have, to
  the receiver's address on it, whatever its state.\<close>

definition directs_copies :: "host \<Rightarrow> host \<Rightarrow> isd_env \<Rightarrow> isd_peerbase \<Rightarrow> bool" where
  "directs_copies theirs mine senv pb \<longleftrightarrow> (\<forall>t p i s.
     28 \<le> length p \<longrightarrow> length p < 65536 \<longrightarrow> length p + 192 \<le> malloc_room senv \<longrightarrow>
     (\<exists>s' vd ds. isd_handle_packet Unicast senv t pb (nfq_good p i) s = Inr (s', vd, ds)
        \<and> (\<forall>f \<in> set (take (nb_ifaces theirs) (ifaces theirs)). unat (ind f) \<in> host_inds mine \<longrightarrow>
            (\<exists>d \<in> set ds. dg_sock d = unat (ind f) \<and> dg_to d = sockaddr_fill (if_addr f) IPRP_DATA_PORT))
        \<and> dg_sock ` set ds = host_inds theirs \<inter> host_inds mine))"

section \<open>Many links\<close>

text \<open>The sending daemon of an entry: any packet of the application leaves in at least one copy, and
  every copy on a network whose IND the entry has, to the destination the entry has for it.\<close>

definition sends_for :: "host \<Rightarrow> icd_base \<Rightarrow> isd_env \<Rightarrow> isd_peerbase \<Rightarrow> bool" where
  "sends_for h b senv pb \<longleftrightarrow> (\<forall>t p i s.
     28 \<le> length p \<longrightarrow> length p < 65536 \<longrightarrow> length p + 192 \<le> malloc_room senv \<longrightarrow>
     (\<exists>s' vd ds. isd_handle_packet Unicast senv t pb (nfq_good p i) s = Inr (s', vd, ds) \<and> ds \<noteq> []
        \<and> (\<forall>d \<in> set ds. dg_sock d \<in> bits_of (ib_inds b) \<inter> host_inds h
            \<and> dg_to d = sockaddr_fill (ib_dest_addr b ! dg_sock d) IPRP_DATA_PORT)))"

lemma published_loaded:
  assumes "published Unicast h f b" and "length temp = pb_size Unicast"
  obtains x where "isd_pb_round Unicast ok (Some (path_of b)) temp f pb0
      = Inr (\<lparr>isd_base = create_peerbase Unicast h (b\<lparr>ib_inds := x\<rparr>), isd_loaded = True\<rparr>, [])"
    "bits_of x \<noteq> {}" "bits_of x \<subseteq> bits_of (ib_inds b)"
proof -
  from assms(1) obtain c x where c: "files f (path_of b) = Some c" "length c = pb_size Unicast"
    "get_pb Unicast 0 c = create_peerbase Unicast h (b\<lparr>ib_inds := x\<rparr>)" "bits_of x \<noteq> {}" "bits_of x \<subseteq> bits_of (ib_inds b)"
    unfolding published_def by blast
  have "put_bytes 0 (take (pb_size Unicast) c) temp = c" using c(2) assms(2) by (simp add: put_bytes_def)
  then have "isd_pb_round Unicast ok (Some (path_of b)) temp f pb0
      = Inr (\<lparr>isd_base = create_peerbase Unicast h (b\<lparr>ib_inds := x\<rparr>), isd_loaded = True\<rparr>, [])"
    using c(1,3) by (simp add: isd_pb_round_def peerbase_load_def fread_def Let_def)
  with c(4,5) that show ?thesis by blast
qed

lemma loaded_sends:
  assumes h: "inds_ok h" and b: "base_typed h b" and x: "bits_of x \<noteq> {}" "bits_of x \<subseteq> bits_of (ib_inds b)"
    and snd: "\<forall>i addr. sendto_ok senv i addr"
  shows "sends_for h b senv \<lparr>isd_base = create_peerbase Unicast h (b\<lparr>ib_inds := x\<rparr>), isd_loaded = True\<rparr>"
  unfolding sends_for_def
proof (intro allI impI)
  fix t i s and p :: bytes
  assume p: "28 \<le> length p" "length p < 65536" "length p + 192 \<le> malloc_room senv"
  let ?base = "create_peerbase Unicast h (b\<lparr>ib_inds := x\<rparr>)"
  let ?fs = "filter (\<lambda>f. bit x (unat (ind f))) (take (nb_ifaces h) (ifaces h))"
  have len: "length (ib_dest_addr b) = 16" using b by (simp add: base_typed_def iprp_consts)
  have "base_ok Unicast ?base" using h b len
    by (simp add: base_ok_def pb_ok_def create_peerbase_def base_typed_def inds_ok_def iprp_consts)
  from isd_handle_good[OF p, of Unicast "\<lparr>isd_base = ?base, isd_loaded = True\<rparr>" t i s] this snd obtain s' vd new where
    r: "isd_handle_packet Unicast senv t \<lparr>isd_base = ?base, isd_loaded = True\<rparr> (nfq_good p i) s
      = Inr (s', vd, map (\<lambda>f. \<lparr>dg_sock = unat (ind f), dg_data = new, dg_to = dest_of Unicast ?base f\<rparr>) ?fs)"
    by (auto simp: create_peerbase_def)
  obtain k where "k \<in> bits_of x" using x(1) by auto
  moreover from this x(2) b have "k \<in> host_inds h" by (auto simp: base_typed_def)
  ultimately have ne: "?fs \<noteq> []" by (auto simp: bits_of_def host_inds_def filter_empty_conv)
  have "unat (ind f) \<in> bits_of (ib_inds b) \<inter> host_inds h
      \<and> dest_of Unicast ?base f = sockaddr_fill (ib_dest_addr b ! unat (ind f)) IPRP_DATA_PORT" if "f \<in> set ?fs" for f
  proof -
    from that h have "unat (ind f) < 16" by (auto simp: inds_ok_def iprp_consts)
    with that x(2) len show ?thesis
      by (auto simp: bits_of_def host_inds_def dest_of_def create_peerbase_def iprp_consts)
  qed
  with r ne show "\<exists>s' vd ds. isd_handle_packet Unicast senv t \<lparr>isd_base = ?base, isd_loaded = True\<rparr> (nfq_good p i) s
        = Inr (s', vd, ds) \<and> ds \<noteq> []
      \<and> (\<forall>d \<in> set ds. dg_sock d \<in> bits_of (ib_inds b) \<inter> host_inds h
          \<and> dg_to d = sockaddr_fill (ib_dest_addr b ! dg_sock d) IPRP_DATA_PORT)" by auto
qed

end
