(* ===== verification/Iprp_Isd_Wait.thy ===== *)
theory Iprp_Isd_Wait
  imports Iprp_Isd
begin

text \<open>
  The two threads of the sending daemon over the peer base they share (src/isd/handle.c and
  src/isd/peerbase.c), interleaved at their mutex, condition variable and flag: the handler waits for
  the first base, then makes packets from the cached link without the lock and sends their copies
  under it; the cache thread loads the file, replaces the base under the lock, and sets the flag and
  signals without it.
\<close>

section \<open>State\<close>

text \<open>
  Where the handler is: before the lock of its wait; at the test of the flag; about to wait; blocked on
  the condition; woken, with the mutex to take again; after the test; at the receive; with a new packet;
  with the packet and, in the multicast variant, the group it read; inside the lock before and after the
  copies.
\<close>

datatype isd_handler_pc = W_Lock | W_Test | W_Wait | W_Blocked | W_Woken | W_Leave | W_Ready
  | W_Packet isd_env bytes verdict
  | W_Addressed isd_env bytes verdict "in_addr option"
  | W_Sending isd_env bytes verdict "in_addr option"
  | W_Sent

text \<open>The cache thread, with the base it loaded until that is copied.\<close>

datatype isd_cache_pc = L_Load | L_Lock peerbase | L_Copy peerbase | L_Unlock | L_Sockets | L_Flag | L_Signal | L_Sleep

text \<open>The outgoing interface of each socket, and what was decided and sent for each packet, are the
  state of the system calls.\<close>

record isd_sys =
  iw_pb :: isd_peerbase
  iw_held :: bool
  iw_handler :: isd_handler_pc
  iw_cache :: isd_cache_pc
  iw_state :: isd_state
  iw_ifs :: "nat \<Rightarrow> in_addr option"
  iw_out :: "(verdict \<times> datagram list) list"

text \<open>The start: the base is not loaded, the mutex free.\<close>

definition isd_start :: "peerbase \<Rightarrow> isd_sys" where
  "isd_start b0 = \<lparr>iw_pb = \<lparr>isd_base = b0, isd_loaded = False\<rparr>, iw_held = False, iw_handler = W_Lock,
     iw_cache = L_Load, iw_state = isd_init, iw_ifs = Map.empty, iw_out = []\<rparr>"

section \<open>Steps\<close>

text \<open>The receive and the making of the packet, from the link that is cached.\<close>

definition isd_take ::
  "variant \<Rightarrow> (time_t \<times> isd_env \<times> nfq_packet) recv_outcome \<Rightarrow> isd_sys \<Rightarrow> isd_sys result" where
  "isd_take v r s =
     and_then (get_and_handle (\<lambda>(t, env, p) st.
         and_then (create_iprp_packet v env t (pb_link (isd_base (iw_pb s))) p st) (\<lambda>c. case c of
           None \<Rightarrow> Inl (Err ''Unable to create IPRP packet'')
         | Some (new, st', vd) \<Rightarrow> Inr (st', (env, new, vd)))) r (iw_state s)) (\<lambda>(err, st, out).
     if err = IPRP_ERR then Inl (Err ''Unable to retrieve packet from ISD queue'')
     else Inr (s\<lparr>iw_state := st, iw_handler := (case out of None \<Rightarrow> W_Ready
       | Some (env, new, vd) \<Rightarrow> W_Packet env new vd)\<rparr>))"

text \<open>The copies, sent under the lock with the base cached then; the group was read before.\<close>

definition isd_copies :: "variant \<Rightarrow> isd_env \<Rightarrow> bytes \<Rightarrow> in_addr option \<Rightarrow> peerbase \<Rightarrow> datagram list result" where
  "isd_copies v env new grp base =
     and_then (used_ifaces (pb_host base)) (\<lambda>fs.
     send_copies env (case grp of None \<Rightarrow> copy_dest v base
       | Some a \<Rightarrow> (\<lambda>f. Inr (sockaddr_fill a IPRP_DATA_PORT))) new (pb_inds base) fs)"

definition handler_step ::
  "variant \<Rightarrow> (time_t \<times> isd_env \<times> nfq_packet) recv_outcome \<Rightarrow> isd_sys \<Rightarrow> isd_sys result option" where
  "handler_step v r s = (case iw_handler s of
     W_Lock \<Rightarrow> map_option (\<lambda>held. Inr (s\<lparr>iw_held := held, iw_handler := W_Test\<rparr>)) (mutex_lock (iw_held s))
   | W_Test \<Rightarrow> Some (Inr (s\<lparr>iw_handler := if \<not> isd_loaded (iw_pb s) then W_Wait else W_Leave\<rparr>))
   | W_Wait \<Rightarrow> Some (Inr (s\<lparr>iw_held := False, iw_handler := W_Blocked\<rparr>))
   | W_Blocked \<Rightarrow> None
   | W_Woken \<Rightarrow> map_option (\<lambda>held. Inr (s\<lparr>iw_held := held, iw_handler := W_Test\<rparr>)) (mutex_lock (iw_held s))
   | W_Leave \<Rightarrow> Some (Inr (s\<lparr>iw_held := False, iw_handler := W_Ready\<rparr>))
   | W_Ready \<Rightarrow> Some (isd_take v r s)
   | W_Packet env new vd \<Rightarrow> Some (Inr (s\<lparr>iw_handler := W_Addressed env new vd (case v of
         Unicast \<Rightarrow> None | Multicast \<Rightarrow> Some (dest_addr (pb_link (isd_base (iw_pb s)))))\<rparr>))
   | W_Addressed env new vd grp \<Rightarrow> map_option (\<lambda>held.
       Inr (s\<lparr>iw_held := held, iw_handler := W_Sending env new vd grp\<rparr>)) (mutex_lock (iw_held s))
   | W_Sending env new vd grp \<Rightarrow> Some (and_then (isd_copies v env new grp (isd_base (iw_pb s))) (\<lambda>ds.
       Inr (s\<lparr>iw_handler := W_Sent, iw_out := iw_out s @ [(vd, ds)]\<rparr>)))
   | W_Sent \<Rightarrow> Some (Inr (s\<lparr>iw_held := False, iw_handler := W_Ready\<rparr>)))"

text \<open>A signal wakes the handler if it is blocked, and is lost otherwise.\<close>

definition cond_signal :: "isd_handler_pc \<Rightarrow> isd_handler_pc" where
  "cond_signal u = (if u = W_Blocked then W_Woken else u)"

text \<open>A round of the cache thread; \<open>f\<close> and \<open>temp\<close> are the files and the stack at its load, \<open>ok\<close> what
  \<open>setsockopt\<close> answers.\<close>

definition cache_step ::
  "variant \<Rightarrow> string option \<Rightarrow> (nat \<Rightarrow> in_addr \<Rightarrow> bool) \<Rightarrow> fs \<Rightarrow> bytes \<Rightarrow> isd_sys \<Rightarrow> isd_sys result option" where
  "cache_step v base_path ok f temp s = (case iw_cache s of
     L_Load \<Rightarrow> Some (and_then (peerbase_load v base_path (Some temp) f) (\<lambda>(err, b).
       if err \<noteq> 0 then Inl (Err ''Unable to load peerbase'')
       else Inr (s\<lparr>iw_cache := L_Lock (get_pb v 0 (the b))\<rparr>)))
   | L_Lock b \<Rightarrow> map_option (\<lambda>held. Inr (s\<lparr>iw_held := held, iw_cache := L_Copy b\<rparr>)) (mutex_lock (iw_held s))
   | L_Copy b \<Rightarrow> Some (Inr (s\<lparr>iw_pb := (iw_pb s)\<lparr>isd_base := b\<rparr>, iw_cache := L_Unlock\<rparr>))
   | L_Unlock \<Rightarrow> Some (Inr (s\<lparr>iw_held := False, iw_cache := L_Sockets\<rparr>))
   | L_Sockets \<Rightarrow> Some (case v of
       Unicast \<Rightarrow> Inr (s\<lparr>iw_cache := L_Flag\<rparr>)
     | Multicast \<Rightarrow> and_then (used_ifaces (pb_host (isd_base (iw_pb s)))) (\<lambda>fs.
         and_then (set_outgoing ok fs) (\<lambda>cs. Inr (s\<lparr>iw_ifs := iw_ifs s ++ map_of (rev cs), iw_cache := L_Flag\<rparr>))))
   | L_Flag \<Rightarrow> Some (Inr (s\<lparr>iw_pb := (iw_pb s)\<lparr>isd_loaded := True\<rparr>, iw_cache := L_Signal\<rparr>))
   | L_Signal \<Rightarrow> Some (Inr (s\<lparr>iw_handler := cond_signal (iw_handler s), iw_cache := L_Sleep\<rparr>))
   | L_Sleep \<Rightarrow> Some (Inr (s\<lparr>iw_cache := L_Load\<rparr>)))"

text \<open>A step of either thread, or a wake-up of the handler that nothing signalled, as POSIX allows.
  \<open>None\<close> is a step that waits.\<close>

datatype isd_act = Handler "(time_t \<times> isd_env \<times> nfq_packet) recv_outcome"
  | Cache "nat \<Rightarrow> in_addr \<Rightarrow> bool" fs bytes | Spurious

fun isd_sys_step :: "variant \<Rightarrow> string option \<Rightarrow> isd_act \<Rightarrow> isd_sys \<Rightarrow> isd_sys result option" where
  "isd_sys_step v base_path (Handler r) s = handler_step v r s"
| "isd_sys_step v base_path (Cache ok f temp) s = cache_step v base_path ok f temp s"
| "isd_sys_step v base_path Spurious s = (if iw_handler s = W_Blocked then Some (Inr (s\<lparr>iw_handler := W_Woken\<rparr>)) else None)"

fun isd_sys_run :: "variant \<Rightarrow> string option \<Rightarrow> isd_act list \<Rightarrow> isd_sys \<Rightarrow> isd_sys result option" where
  "isd_sys_run v base_path [] s = Some (Inr s)"
| "isd_sys_run v base_path (a # as) s = (case isd_sys_step v base_path a s of
     None \<Rightarrow> None
   | Some (Inl e) \<Rightarrow> Some (Inl e)
   | Some (Inr s') \<Rightarrow> isd_sys_run v base_path as s')"

section \<open>Uninterrupted runs\<close>

text \<open>
  The steps add up to the handler and the round of the single threads: a packet handled without a step
  of the cache thread in between is \<open>isd_handle_packet\<close> on the cached base, and a round without a step
  of the handler is \<open>isd_pb_round\<close>.
\<close>

lemmas wait_steps = handler_step_def cache_step_def mutex_lock_def

theorem isd_packet_is_uninterrupted_run:
  assumes "iw_handler s = W_Ready" and "\<not> iw_held s"
  shows "isd_sys_run v bp (replicate 5 (Handler (RecvPacket (t, env, p)))) s
    = Some (and_then (isd_handle_packet v env t (iw_pb s) p (iw_state s)) (\<lambda>(st, vd, ds).
        Inr (s\<lparr>iw_state := st, iw_out := iw_out s @ [(vd, ds)]\<rparr>)))"
proof -
  have d: "(\<lambda>f. Inr (sockaddr_fill (dest_addr (pb_link b)) IPRP_DATA_PORT)) = copy_dest Multicast b" for b
    by (auto simp: copy_dest_def)
  show ?thesis
    using assms
    by (cases v; cases "create_iprp_packet v env t (pb_link (isd_base (iw_pb s))) p (iw_state s)")
      (auto simp: numeral_eq_Suc wait_steps isd_take_def get_and_handle_def IPRP_ERR_def isd_handle_packet_def
        isd_copies_def and_then_def d split: option.splits sum.splits)
qed

theorem isd_round_is_uninterrupted_run:
  assumes "iw_cache s = L_Load" and "\<not> iw_held s"
  shows "isd_sys_run v bp (replicate 7 (Cache ok f temp)) s
    = Some (and_then (isd_pb_round v ok bp temp f (iw_pb s)) (\<lambda>(pb, cs).
        Inr (s\<lparr>iw_pb := pb, iw_handler := cond_signal (iw_handler s), iw_cache := L_Sleep,
          iw_ifs := iw_ifs s ++ map_of (rev cs)\<rparr>)))"
proof (cases "peerbase_load v bp (Some temp) f")
  case (Inl e)
  with assms show ?thesis by (simp add: numeral_eq_Suc wait_steps isd_pb_round_def)
next
  case (Inr r)
  obtain err b where r: "r = (err, b)" by (cases r)
  show ?thesis
  proof (cases "err = 0")
    case True
    with assms Inr r show ?thesis
      by (cases v; cases "used_ifaces (pb_host (get_pb v 0 (the b)))")
        (auto simp: numeral_eq_Suc wait_steps isd_pb_round_def and_then_def Let_def split: sum.splits)
  next
    case False
    with assms Inr r show ?thesis by (simp add: numeral_eq_Suc wait_steps isd_pb_round_def)
  qed
qed

section \<open>What the threads keep\<close>

text \<open>A base among \<open>B\<close> that the control daemon of the host \<open>h\<close> published for the link \<open>lk\<close>:
  usable, of this link and this host.\<close>

definition good_base :: "variant \<Rightarrow> link \<Rightarrow> host \<Rightarrow> peerbase set \<Rightarrow> peerbase \<Rightarrow> bool" where
  "good_base v lk h B b \<longleftrightarrow> b \<in> B \<and> base_ok v b \<and> pb_link b = lk \<and> pb_host b = h"

text \<open>The steps that can be taken: packets the handler can serve, and files that hold a published base.\<close>

definition isd_act_ok :: "variant \<Rightarrow> string \<Rightarrow> link \<Rightarrow> host \<Rightarrow> peerbase set \<Rightarrow> isd_act \<Rightarrow> bool" where
  "isd_act_ok v p lk h B a = (case a of
     Handler (RecvError e) \<Rightarrow> e = ENOBUFS
   | Handler RecvEmpty \<Rightarrow> True
   | Handler (RecvPacket (t, env, pk)) \<Rightarrow>
       (\<exists>b i. pk = nfq_good b i \<and> 28 \<le> length b \<and> length b < 65536 \<and> length b + 192 \<le> malloc_room env)
       \<and> sendto_ok env = (\<lambda>_ _. True)
   | Cache ok f temp \<Rightarrow> (\<forall>i addr. ok i addr) \<and> length temp = pb_size v
       \<and> (\<exists>c. files f p = Some c \<and> length c = pb_size v \<and> good_base v lk h B (get_pb v 0 c))
   | Spurious \<Rightarrow> True)"

text \<open>The bases in the files that were loaded.\<close>

definition loaded_bases :: "variant \<Rightarrow> string \<Rightarrow> isd_act list \<Rightarrow> peerbase set" where
  "loaded_bases v p as = {get_pb v 0 c | c. \<exists>ok f temp. Cache ok f temp \<in> set as \<and> files f p = Some c}"

text \<open>The copies of a packet under a base.\<close>

definition base_copies :: "variant \<Rightarrow> peerbase \<Rightarrow> u32 \<Rightarrow> bytes \<Rightarrow> datagram list \<Rightarrow> bool" where
  "base_copies v b n payload ds \<longleftrightarrow> (\<exists>new. iprp_packet_of v (pb_link b) n payload new
     \<and> ds = map (\<lambda>f. \<lparr>dg_sock = unat (ind f), dg_data = new, dg_to = dest_of v b f\<rparr>)
         (filter (\<lambda>f. bit (pb_inds b) (unat (ind f))) (take (nb_ifaces (pb_host b)) (ifaces (pb_host b)))))"

definition ifs_of :: "host \<Rightarrow> nat \<Rightarrow> in_addr option" where
  "ifs_of h = map_of (rev (map (\<lambda>f. (unat (ind f), if_addr f)) (take (nb_ifaces h) (ifaces h))))"

fun in_handler :: "isd_handler_pc \<Rightarrow> bool" where
  "in_handler W_Test = True" | "in_handler W_Wait = True" | "in_handler W_Leave = True"
| "in_handler (W_Sending _ _ _ _) = True" | "in_handler W_Sent = True" | "in_handler _ = False"

fun in_cache :: "isd_cache_pc \<Rightarrow> bool" where
  "in_cache (L_Copy _) = True" | "in_cache L_Unlock = True" | "in_cache _ = False"

text \<open>The handler is past its wait.\<close>

fun past_wait :: "isd_handler_pc \<Rightarrow> bool" where
  "past_wait W_Lock = False" | "past_wait W_Test = False" | "past_wait W_Wait = False"
| "past_wait W_Blocked = False" | "past_wait W_Woken = False" | "past_wait _ = True"

text \<open>A packet in the hand of the handler has the next number, and carries the link.\<close>

definition in_hand :: "variant \<Rightarrow> link \<Rightarrow> u32 \<Rightarrow> isd_handler_pc \<Rightarrow> bool" where
  "in_hand v lk n u = (let
     made = (\<lambda>env new vd. iprp_packet_of v lk n (drop 28 (vd_data vd)) new \<and> sendto_ok env = (\<lambda>_ _. True));
     grp_ok = (\<lambda>grp. grp = (case v of Unicast \<Rightarrow> None | Multicast \<Rightarrow> Some (dest_addr lk)))
   in case u of
     W_Packet env new vd \<Rightarrow> made env new vd
   | W_Addressed env new vd grp \<Rightarrow> made env new vd \<and> grp_ok grp
   | W_Sending env new vd grp \<Rightarrow> made env new vd \<and> grp_ok grp
   | _ \<Rightarrow> True)"

fun pending :: "isd_handler_pc \<Rightarrow> nat" where
  "pending (W_Packet _ _ _) = 1" | "pending (W_Addressed _ _ _ _) = 1" | "pending (W_Sending _ _ _ _) = 1"
| "pending _ = 0"

abbreviation isd_number :: "nat \<Rightarrow> u32" where
  "isd_number k \<equiv> (next_seq ^^ k) 1"

definition cached :: "variant \<Rightarrow> link \<Rightarrow> host \<Rightarrow> peerbase set \<Rightarrow> isd_sys \<Rightarrow> bool" where
  "cached v lk h B s \<longleftrightarrow> good_base v lk h B (isd_base (iw_pb s)) \<and> (v = Multicast \<longrightarrow> iw_ifs s = ifs_of h)"

definition cache_at :: "variant \<Rightarrow> link \<Rightarrow> host \<Rightarrow> peerbase set \<Rightarrow> isd_sys \<Rightarrow> bool" where
  "cache_at v lk h B s = (case iw_cache s of
     L_Load \<Rightarrow> True
   | L_Lock b \<Rightarrow> good_base v lk h B b
   | L_Copy b \<Rightarrow> good_base v lk h B b
   | L_Unlock \<Rightarrow> good_base v lk h B (isd_base (iw_pb s))
   | L_Sockets \<Rightarrow> good_base v lk h B (isd_base (iw_pb s))
   | L_Flag \<Rightarrow> cached v lk h B s
   | L_Signal \<Rightarrow> isd_loaded (iw_pb s)
   | L_Sleep \<Rightarrow> isd_loaded (iw_pb s))"

definition sent_ok :: "variant \<Rightarrow> link \<Rightarrow> host \<Rightarrow> peerbase set \<Rightarrow> (verdict \<times> datagram list) list \<Rightarrow> bool" where
  "sent_ok v lk h B outs \<longleftrightarrow> (\<forall>k < length outs. \<exists>b. good_base v lk h B b
     \<and> base_copies v b (isd_number k) (drop 28 (vd_data (fst (outs ! k)))) (snd (outs ! k)))"

definition iw_inv :: "variant \<Rightarrow> link \<Rightarrow> host \<Rightarrow> peerbase set \<Rightarrow> isd_sys \<Rightarrow> bool" where
  "iw_inv v lk h B s \<longleftrightarrow>
     iw_held s = (in_handler (iw_handler s) \<or> in_cache (iw_cache s))
     \<and> \<not> (in_handler (iw_handler s) \<and> in_cache (iw_cache s))
     \<and> cache_at v lk h B s
     \<and> (isd_loaded (iw_pb s) \<longrightarrow> cached v lk h B s)
     \<and> (past_wait (iw_handler s) \<longrightarrow> isd_loaded (iw_pb s))
     \<and> in_hand v lk (isd_number (length (iw_out s))) (iw_handler s)
     \<and> seq_nb (iw_state s) = isd_number (length (iw_out s) + pending (iw_handler s))
     \<and> iw_ifs s ++ ifs_of h = ifs_of h
     \<and> sent_ok v lk h B (iw_out s)"

lemma iw_inv_start: "iw_inv v lk h B (isd_start b0)"
  by (simp add: iw_inv_def isd_start_def cache_at_def in_hand_def sent_ok_def isd_init_def)

lemma cached_upd [simp]:
  "cached v lk h B (s\<lparr>iw_handler := u\<rparr>) = cached v lk h B s" "cached v lk h B (s\<lparr>iw_cache := l\<rparr>) = cached v lk h B s"
  "cached v lk h B (s\<lparr>iw_held := m\<rparr>) = cached v lk h B s" "cached v lk h B (s\<lparr>iw_out := outs\<rparr>) = cached v lk h B s"
  "cached v lk h B (s\<lparr>iw_state := st\<rparr>) = cached v lk h B s"
  "cached v lk h B (s\<lparr>iw_pb := (iw_pb s)\<lparr>isd_loaded := True\<rparr>\<rparr>) = cached v lk h B s"
  by (simp_all add: cached_def)

lemma cache_at_upd [simp]:
  "cache_at v lk h B (s\<lparr>iw_handler := u\<rparr>) = cache_at v lk h B s" "cache_at v lk h B (s\<lparr>iw_held := m\<rparr>) = cache_at v lk h B s"
  "cache_at v lk h B (s\<lparr>iw_out := outs\<rparr>) = cache_at v lk h B s" "cache_at v lk h B (s\<lparr>iw_state := st\<rparr>) = cache_at v lk h B s"
  by (simp_all add: cache_at_def split: isd_cache_pc.split)

lemma cond_signal_simps [simp]:
  "in_handler (cond_signal u) = in_handler u" "past_wait (cond_signal u) = past_wait u"
  "pending (cond_signal u) = pending u" "in_hand v lk n (cond_signal u) = in_hand v lk n u"
  by (simp_all add: cond_signal_def in_hand_def)

lemmas inv_simps = iw_inv_def handler_step_def cache_step_def mutex_lock_def

lemma map_add_same [simp]: "f ++ f = f"
  by (rule ext) (simp add: map_add_def split: option.split)

lemma set_outgoing_ok:
  "\<forall>f \<in> set fs. unat (ind f) < IPRP_MAX_INDS \<Longrightarrow> \<forall>i a. ok i a \<Longrightarrow>
   set_outgoing ok fs = Inr (map (\<lambda>f. (unat (ind f), if_addr f)) fs)"
  by (induction fs) simp_all

lemma good_base_facts:
  assumes "good_base v lk h B b"
  shows "base_ok v b" "link_ok lk" "host_ok h" "pb_link b = lk" "pb_host b = h"
    "\<forall>f \<in> set (take (nb_ifaces h) (ifaces h)). unat (ind f) < IPRP_MAX_INDS"
  using assms by (auto simp: good_base_def base_ok_def pb_ok_def inds_ok_def)

lemma isd_cache_step_inv:
  assumes "isd_act_ok v p lk h B (Cache ok f temp)" and inv: "iw_inv v lk h B s"
  shows "cache_step v (Some p) ok f temp s = None
    \<or> (\<exists>s'. cache_step v (Some p) ok f temp s = Some (Inr s') \<and> iw_inv v lk h B s')"
proof (cases "iw_cache s")
  case L_Load
  from assms(1) obtain c where "files f p = Some c" "length c = pb_size v" "good_base v lk h B (get_pb v 0 c)"
    and t: "length temp = pb_size v" by (auto simp: isd_act_ok_def)
  then have "peerbase_load v (Some p) (Some temp) f = Inr (0, Some c)"
    by (simp add: peerbase_load_def fread_def put_bytes_def)
  with L_Load inv \<open>good_base v lk h B (get_pb v 0 c)\<close> show ?thesis
    by (simp add: inv_simps cache_at_def)
next
  case L_Sockets
  from assms(1) have ok: "\<forall>i a. ok i a" by (simp add: isd_act_ok_def)
  from inv L_Sockets have g: "good_base v lk h B (isd_base (iw_pb s))" by (simp add: iw_inv_def cache_at_def)
  note G = good_base_facts[OF g]
  from inv have m: "iw_ifs s ++ ifs_of h = ifs_of h" by (simp add: iw_inv_def)
  have "\<exists>s'. cache_step v (Some p) ok f temp s = Some (Inr s') \<and> s' = s\<lparr>iw_cache := L_Flag,
      iw_ifs := (case v of Unicast \<Rightarrow> iw_ifs s | Multicast \<Rightarrow> iw_ifs s ++ ifs_of h)\<rparr>"
    using L_Sockets used_ifaces_ok[OF G(3)] G(5) set_outgoing_ok[OF G(6) ok]
    by (cases v) (simp_all add: cache_step_def ifs_of_def)
  with inv L_Sockets g m show ?thesis by (cases v) (simp_all add: iw_inv_def cache_at_def cached_def)
next
  case (L_Copy b)
  with inv show ?thesis by (simp add: inv_simps cache_at_def cached_def)
qed (use inv in \<open>cases "iw_held s"; simp add: inv_simps cache_at_def\<close>)+

lemma handler_take_inv:
  assumes ok: "isd_act_ok v p lk h B (Handler r)" and inv: "iw_inv v lk h B s" and pc: "iw_handler s = W_Ready"
  shows "\<exists>s'. handler_step v r s = Some (Inr s') \<and> iw_inv v lk h B s'"
proof -
  from inv pc have g: "good_base v lk h B (isd_base (iw_pb s))" by (simp add: iw_inv_def cached_def)
  note G = good_base_facts[OF g]
  show ?thesis
  proof (cases r)
    case (RecvPacket m)
    obtain t env pk where m: "m = (t, env, pk)" by (cases m)
    from ok RecvPacket m obtain b i where b: "pk = nfq_good b i" "28 \<le> length b" "length b < 65536"
      "length b + 192 \<le> malloc_room env" "sendto_ok env = (\<lambda>_ _. True)" by (auto simp: isd_act_ok_def)
    from create_iprp_packet_good[OF b(2-4) G(2), of v t i "iw_state s"] obtain new vd where
      c: "create_iprp_packet v env t lk (nfq_good b i) (iw_state s) = Inr (Some (new,
          \<lparr>seq_nb = next_seq (seq_nb (iw_state s)), last_allowed_thru = snd (isd_verdict v t (iw_state s))\<rparr>, vd))"
      "iprp_packet_of v lk (seq_nb (iw_state s)) (drop 28 b) new" "vd_data vd = b" by blast
    have "handler_step v r s = Some (Inr (s\<lparr>iw_state := \<lparr>seq_nb = next_seq (seq_nb (iw_state s)),
        last_allowed_thru = snd (isd_verdict v t (iw_state s))\<rparr>, iw_handler := W_Packet env new vd\<rparr>))"
      using c(1) G(4) pc RecvPacket m b(1)
      by (simp add: handler_step_def isd_take_def get_and_handle_def IPRP_ERR_def)
    with inv pc c b show ?thesis by (simp add: iw_inv_def in_hand_def)
  qed (use ok inv pc in \<open>simp_all add: inv_simps isd_take_def get_and_handle_def isd_act_ok_def
      IPRP_ERR_def IPRP_ERR_UNKNOWN_def IPRP_ERR_EMPTY_def in_hand_def\<close>)
qed

lemma handler_send_inv:
  assumes inv: "iw_inv v lk h B s" and pc: "iw_handler s = W_Sending env new vd grp"
  shows "\<exists>s'. handler_step v r s = Some (Inr s') \<and> iw_inv v lk h B s'"
proof -
  let ?b = "isd_base (iw_pb s)"
  from inv pc have g: "good_base v lk h B ?b" by (simp add: iw_inv_def cached_def)
  note G = good_base_facts[OF g]
  let ?fs = "take (nb_ifaces h) (ifaces h)"
  let ?ds = "map (\<lambda>f. \<lparr>dg_sock = unat (ind f), dg_data = new, dg_to = dest_of v ?b f\<rparr>)
    (filter (\<lambda>f. bit (pb_inds ?b) (unat (ind f))) ?fs)"
  from inv pc have hand: "iprp_packet_of v lk (isd_number (length (iw_out s))) (drop 28 (vd_data vd)) new"
    "sendto_ok env = (\<lambda>_ _. True)" "grp = (case v of Unicast \<Rightarrow> None | Multicast \<Rightarrow> Some (dest_addr lk))"
    by (simp_all add: iw_inv_def in_hand_def)
  have "\<forall>f \<in> set ?fs. unat (ind f) < 16 \<and> (case grp of None \<Rightarrow> copy_dest v ?b
      | Some a \<Rightarrow> (\<lambda>f. Inr (sockaddr_fill a IPRP_DATA_PORT))) f = Inr (dest_of v ?b f)
      \<and> sendto_ok env (unat (ind f)) (dest_of v ?b f)"
    using G hand(2,3) by (cases v) (auto simp: copy_dest_def dest_of_def base_ok_def pb_ok_def iprp_consts)
  from send_copies_ok[OF this] used_ifaces_ok[OF G(3)] G(5)
  have "isd_copies v env new grp ?b = Inr ?ds" by (simp add: isd_copies_def)
  then have st: "handler_step v r s = Some (Inr (s\<lparr>iw_handler := W_Sent, iw_out := iw_out s @ [(vd, ?ds)]\<rparr>))"
    using pc by (simp add: handler_step_def)
  have "base_copies v ?b (isd_number (length (iw_out s))) (drop 28 (vd_data vd)) ?ds"
    using hand(1) G(4,5) by (auto simp: base_copies_def)
  with inv g have "sent_ok v lk h B (iw_out s @ [(vd, ?ds)])"
    by (fastforce simp: iw_inv_def sent_ok_def nth_append less_Suc_eq)
  with inv pc st show ?thesis by (simp add: iw_inv_def in_hand_def)
qed

lemma isd_handler_step_inv:
  assumes "isd_act_ok v p lk h B (Handler r)" and inv: "iw_inv v lk h B s"
  shows "handler_step v r s = None \<or> (\<exists>s'. handler_step v r s = Some (Inr s') \<and> iw_inv v lk h B s')"
proof (cases "iw_handler s")
  case W_Ready
  from handler_take_inv[OF assms W_Ready] show ?thesis by blast
next
  case (W_Sending env new vd grp)
  from handler_send_inv[OF inv W_Sending] show ?thesis by blast
next
  case (W_Packet env new vd)
  from inv W_Packet have "pb_link (isd_base (iw_pb s)) = lk" by (simp add: iw_inv_def cached_def good_base_def)
  with inv W_Packet show ?thesis by (cases v) (simp_all add: inv_simps in_hand_def)
next
  case W_Woken
  with inv show ?thesis by (cases "iw_held s") (simp_all add: inv_simps in_hand_def)
next
  case W_Lock
  with inv show ?thesis by (cases "iw_held s") (simp_all add: inv_simps in_hand_def)
next
  case (W_Addressed env new vd grp)
  with inv show ?thesis by (cases "iw_held s") (simp_all add: inv_simps in_hand_def)
qed (use inv in \<open>simp_all add: inv_simps in_hand_def\<close>)

lemma isd_sys_step_inv:
  assumes "isd_act_ok v p lk h B a" and "iw_inv v lk h B s"
  shows "isd_sys_step v (Some p) a s = None
    \<or> (\<exists>s'. isd_sys_step v (Some p) a s = Some (Inr s') \<and> iw_inv v lk h B s')"
  using assms isd_handler_step_inv isd_cache_step_inv
  by (cases a) (simp_all add: iw_inv_def in_hand_def)

lemma isd_sys_run_inv:
  "\<forall>a \<in> set as. isd_act_ok v p lk h B a \<Longrightarrow> iw_inv v lk h B s \<Longrightarrow>
   isd_sys_run v (Some p) as s = None \<or> (\<exists>s'. isd_sys_run v (Some p) as s = Some (Inr s') \<and> iw_inv v lk h B s')"
proof (induction as arbitrary: s)
  case (Cons a as)
  from isd_sys_step_inv[OF _ Cons.prems(2), of p a] Cons.prems(1)
  consider "isd_sys_step v (Some p) a s = None"
    | s' where "isd_sys_step v (Some p) a s = Some (Inr s')" "iw_inv v lk h B s'" by auto
  then show ?case using Cons by cases auto
qed simp

lemma isd_sys_run_numbers:
  assumes "\<forall>a \<in> set as. isd_act_ok v p lk h B a"
  shows "isd_sys_run v (Some p) as (isd_start b0) = None
    \<or> (\<exists>s'. isd_sys_run v (Some p) as (isd_start b0) = Some (Inr s')
      \<and> (past_wait (iw_handler s') \<longrightarrow> isd_loaded (iw_pb s') \<and> cached v lk h B s')
      \<and> (\<forall>k < length (iw_out s'). \<exists>b n. good_base v lk h B b \<and> unat n = k mod 4294967295 + 1
          \<and> base_copies v b n (drop 28 (vd_data (fst (iw_out s' ! k)))) (snd (iw_out s' ! k))))"
proof -
  from isd_sys_run_inv[OF assms iw_inv_start] have
    "isd_sys_run v (Some p) as (isd_start b0) = None
      \<or> (\<exists>s'. isd_sys_run v (Some p) as (isd_start b0) = Some (Inr s') \<and> iw_inv v lk h B s')" .
  then show ?thesis
  proof (elim disjE exE conjE)
    fix s' assume r: "isd_sys_run v (Some p) as (isd_start b0) = Some (Inr s')" and inv: "iw_inv v lk h B s'"
    from inv have w: "past_wait (iw_handler s') \<longrightarrow> isd_loaded (iw_pb s') \<and> cached v lk h B s'" by (simp add: iw_inv_def)
    have "\<exists>b n. good_base v lk h B b \<and> unat n = k mod 4294967295 + 1
        \<and> base_copies v b n (drop 28 (vd_data (fst (iw_out s' ! k)))) (snd (iw_out s' ! k))"
      if "k < length (iw_out s')" for k
    proof -
      from inv that obtain b where "good_base v lk h B b"
        "base_copies v b (of_nat (k mod 4294967295 + 1)) (drop 28 (vd_data (fst (iw_out s' ! k)))) (snd (iw_out s' ! k))"
        unfolding next_seq_funpow[symmetric] by (auto simp: iw_inv_def sent_ok_def)
      then show ?thesis using unat_seq by blast
    qed
    with r w show ?thesis by blast
  qed simp
qed

lemma ifs_of_iface:
  assumes "distinct (map ind (take (nb_ifaces h) (ifaces h)))" and "f \<in> set (take (nb_ifaces h) (ifaces h))"
  shows "ifs_of h (unat (ind f)) = Some (if_addr f)"
proof -
  let ?fs = "take (nb_ifaces h) (ifaces h)"
  have "distinct (map unat (map ind ?fs))"
    using assms(1) by (subst distinct_map) (auto simp: inj_on_def unsigned_word_eqI simp del: map_map)
  then have "distinct (map fst (rev (map (\<lambda>f. (unat (ind f), if_addr f)) ?fs)))"
    by (simp add: rev_map[symmetric] comp_def)
  with assms(2) show ?thesis unfolding ifs_of_def by (intro map_of_is_SomeI) auto
qed

section \<open>The wait ends\<close>

text \<open>The mutex is held by one thread at most, whatever the steps do.\<close>

definition one_holder :: "isd_sys \<Rightarrow> bool" where
  "one_holder s \<longleftrightarrow> iw_held s = (in_handler (iw_handler s) \<or> in_cache (iw_cache s))
     \<and> \<not> (in_handler (iw_handler s) \<and> in_cache (iw_cache s))"

text \<open>How far the handler is from the end of its wait, once the flag is set.\<close>

fun wait_rank :: "isd_handler_pc \<Rightarrow> nat" where
  "wait_rank W_Wait = 5" | "wait_rank W_Blocked = 4" | "wait_rank W_Lock = 3" | "wait_rank W_Woken = 3"
| "wait_rank W_Test = 2" | "wait_rank W_Leave = 1" | "wait_rank _ = 0"

fun cache_pos :: "isd_cache_pc \<Rightarrow> nat" where
  "cache_pos L_Load = 0" | "cache_pos (L_Lock _) = 1" | "cache_pos (L_Copy _) = 2" | "cache_pos L_Unlock = 3"
| "cache_pos L_Sockets = 4" | "cache_pos L_Flag = 5" | "cache_pos L_Signal = 6" | "cache_pos L_Sleep = 7"

fun is_cache :: "isd_act \<Rightarrow> bool" where
  "is_cache (Cache _ _ _) = True" | "is_cache _ = False"

fun is_handler :: "isd_act \<Rightarrow> bool" where
  "is_handler (Handler _) = True" | "is_handler _ = False"

definition serving :: "isd_handler_pc \<Rightarrow> bool" where
  "serving u \<longleftrightarrow> past_wait u \<and> u \<noteq> W_Leave"

lemma wait_rank_0: "wait_rank u = 0 \<longleftrightarrow> serving u"
  unfolding serving_def
  by (cases u) simp_all

lemma isd_take_moves:
  "isd_take v r s = Inr s' \<Longrightarrow> serving (iw_handler s') \<and> \<not> in_handler (iw_handler s') \<and> iw_held s' = iw_held s
     \<and> iw_cache s' = iw_cache s \<and> iw_pb s' = iw_pb s"
  by (auto simp: isd_take_def and_then_eq_Inr serving_def split: if_splits option.splits)

lemma cache_moves:
  assumes "cache_step v bp ok f temp s = Some (Inr s')"
  shows "cache_pos (iw_cache s') = Suc (cache_pos (iw_cache s)) mod 8"
    "isd_loaded (iw_pb s') = (isd_loaded (iw_pb s) \<or> cache_pos (iw_cache s) = 5)"
    "one_holder s \<Longrightarrow> one_holder s'"
    "iw_handler s' = (if cache_pos (iw_cache s) = 6 then cond_signal (iw_handler s) else iw_handler s)"
  using assms
  by (cases "iw_cache s"; cases v; auto simp: cache_step_def mutex_lock_def one_holder_def and_then_eq_Inr split: if_splits)+

lemma handler_moves:
  assumes "handler_step v r s = Some (Inr s')"
  shows "iw_cache s' = iw_cache s" "iw_pb s' = iw_pb s" "one_holder s \<Longrightarrow> one_holder s'"
    "serving (iw_handler s) \<Longrightarrow> serving (iw_handler s')"
    "isd_loaded (iw_pb s) \<Longrightarrow> 0 < wait_rank (iw_handler s) \<Longrightarrow> wait_rank (iw_handler s') < wait_rank (iw_handler s)"
  using assms isd_take_moves[of v r s s']
  by (cases "iw_handler s"; auto simp: handler_step_def mutex_lock_def one_holder_def serving_def and_then_eq_Inr split: if_splits)+

text \<open>
  Infinite runs: every step is done.  The cache thread keeps moving (it sleeps a bounded time), and the
  handler moves again and again if it can again and again: whoever asks for a mutex that is free
  infinitely often gets it.
\<close>

definition isd_infinite_run :: "variant \<Rightarrow> string option \<Rightarrow> peerbase \<Rightarrow> (nat \<Rightarrow> isd_act) \<Rightarrow> (nat \<Rightarrow> isd_sys) \<Rightarrow> bool" where
  "isd_infinite_run v bp b0 a r \<longleftrightarrow> r 0 = isd_start b0 \<and> (\<forall>n. isd_sys_step v bp (a n) (r n) = Some (Inr (r (Suc n))))"

definition handler_enabled :: "variant \<Rightarrow> isd_sys \<Rightarrow> bool" where
  "handler_enabled v s \<longleftrightarrow> handler_step v RecvEmpty s \<noteq> None"

definition isd_fair :: "variant \<Rightarrow> (nat \<Rightarrow> isd_act) \<Rightarrow> (nat \<Rightarrow> isd_sys) \<Rightarrow> bool" where
  "isd_fair v a r \<longleftrightarrow> (\<forall>n. \<exists>m\<ge>n. is_cache (a m))
     \<and> ((\<forall>n. \<exists>m\<ge>n. handler_enabled v (r m)) \<longrightarrow> (\<forall>n. \<exists>m\<ge>n. is_handler (a m)))"

text \<open>The cache thread passes every place of its loop again and again.\<close>

lemma infinitely_often_at:
  fixes c :: "nat \<Rightarrow> nat"
  assumes step: "\<And>n. c (Suc n) = (if P n then Suc (c n) mod 8 else c n)" and inf: "\<forall>n. \<exists>m\<ge>n. P m"
    and lt: "c 0 < 8" and j: "j < 8"
  shows "\<exists>m\<ge>n. c m = j \<and> P m"
proof -
  have c: "c m < 8" for m by (induction m) (simp_all add: lt step)
  have nxt: "\<exists>m\<ge>n. P m \<and> c m = c n" for n
  proof -
    from inf obtain m where "m \<ge> n" "P m" by blast
    then show ?thesis
    proof (induction "m - n" arbitrary: n)
      case 0
      then show ?case by auto
    next
      case (Suc d)
      show ?case
      proof (cases "P n")
        case False
        from Suc.hyps(2) have "d = m - Suc n" "Suc n \<le> m" by linarith+
        from Suc.hyps(1)[OF this Suc.prems(2)] obtain k where "k \<ge> Suc n" "P k" "c k = c (Suc n)" by blast
        with False step[of n] show ?thesis by (auto intro!: exI[of _ k])
      qed auto
    qed
  qed
  show ?thesis
  proof (induction "if c n \<le> j then j - c n else j + 8 - c n" arbitrary: n)
    case 0
    then have "c n = j" using c[of n] by (simp split: if_splits)
    with nxt show ?case by blast
  next
    case (Suc d)
    from nxt[of n] obtain m where m: "m \<ge> n" "P m" "c m = c n" by blast
    have "c (Suc m) = (if c n = 7 then 0 else Suc (c n))" using m step[of m] c[of n] by auto
    then have "d = (if c (Suc m) \<le> j then j - c (Suc m) else j + 8 - c (Suc m))"
      using Suc.hyps(2) c[of n] j by (auto split: if_splits)
    from Suc.hyps(1)[OF this] obtain k where "k \<ge> Suc m" "c k = j \<and> P k" by blast
    with m(1) show ?case by (auto intro!: exI[of _ k])
  qed
qed

lemma isd_wait_decreases:
  assumes run: "isd_infinite_run v bp b0 a r" and fair: "isd_fair v a r"
    and loaded: "\<forall>n\<ge>N. isd_loaded (iw_pb (r n))"
    and at: "\<And>j n. j < 8 \<Longrightarrow> \<exists>m\<ge>n. cache_pos (iw_cache (r m)) = j \<and> is_cache (a m)"
    and hold: "\<And>n. one_holder (r n)" and n: "n \<ge> N" and k: "0 < wait_rank (iw_handler (r n))"
  shows "\<exists>m\<ge>n. wait_rank (iw_handler (r m)) < wait_rank (iw_handler (r n))"
proof (rule ccontr)
  let ?k = "\<lambda>m. wait_rank (iw_handler (r m))"
  assume "\<not> (\<exists>m\<ge>n. ?k m < ?k n)"
  then have low: "?k n \<le> ?k m" if "m \<ge> n" for m using that by (simp add: not_less)
  from run have st: "isd_sys_step v bp (a m) (r m) = Some (Inr (r (Suc m)))" for m by (simp add: isd_infinite_run_def)
  have step: "?k (Suc m) \<le> ?k m \<and> (is_handler (a m) \<longrightarrow> ?k (Suc m) < ?k m)
      \<and> (?k m = 4 \<longrightarrow> is_cache (a m) \<longrightarrow> cache_pos (iw_cache (r m)) = 6 \<longrightarrow> ?k (Suc m) < ?k m)"
    if "m \<ge> n" "?k m = ?k n" for m
  proof (cases "a m")
    case (Handler x)
    from loaded n that(1) have "isd_loaded (iw_pb (r m))" by simp
    with st[of m] Handler that k have "?k (Suc m) < ?k m" by (intro handler_moves(5)[of v x "r m"]) simp_all
    then show ?thesis by simp
  next
    case (Cache ok f temp)
    from cache_moves(4)[of v bp ok f temp "r m"] st[of m] Cache show ?thesis
      by (cases "iw_handler (r m)") (auto simp: cond_signal_def)
  next
    case Spurious
    with st[of m] have "r (Suc m) = r m\<lparr>iw_handler := W_Woken\<rparr>" "iw_handler (r m) = W_Blocked"
      by (simp_all split: if_splits)
    with Spurious show ?thesis by simp
  qed
  have same: "?k m = ?k n" if "m \<ge> n" for m
    using that
  proof (induction rule: dec_induct)
    case (step m)
    with low[of "Suc m"] \<open>\<And>m. m \<ge> n \<Longrightarrow> ?k m = ?k n \<Longrightarrow> _\<close>[of m] show ?case by simp
  qed simp
  have quiet: "\<not> is_handler (a m)" if "m \<ge> n" for m
    using step[OF that same[OF that]] same[of "Suc m"] same[OF that] that by auto
  have "?k n \<noteq> 4"
  proof
    assume "?k n = 4"
    from at[of 6 n] obtain m where m: "m \<ge> n" "cache_pos (iw_cache (r m)) = 6" "is_cache (a m)" by auto
    with step[OF m(1) same[OF m(1)]] same[of "Suc m"] same[OF m(1)] \<open>?k n = 4\<close> show False by auto
  qed
  have "\<exists>m\<ge>l. handler_enabled v (r m)" for l
  proof -
    from at[of 0 "max l n"] obtain m where m: "m \<ge> l" "m \<ge> n" "cache_pos (iw_cache (r m)) = 0" by auto
    then have "\<not> in_cache (iw_cache (r m))" by (cases "iw_cache (r m)") simp_all
    with hold[of m] same[OF m(2)] k \<open>?k n \<noteq> 4\<close> have "handler_enabled v (r m)"
      by (cases "iw_handler (r m)") (simp_all add: handler_enabled_def handler_step_def mutex_lock_def one_holder_def)
    with m(1) show ?thesis by blast
  qed
  with fair have "\<forall>n. \<exists>m\<ge>n. is_handler (a m)" by (simp add: isd_fair_def)
  then obtain m where "m \<ge> n" "is_handler (a m)" by blast
  with quiet show False by blast
qed

lemma isd_run_serves:
  assumes run: "isd_infinite_run v bp b0 a r" and fair: "isd_fair v a r"
  obtains n where "\<And>m. m \<ge> n \<Longrightarrow> isd_loaded (iw_pb (r m)) \<and> serving (iw_handler (r m))"
proof -
  from run have st: "isd_sys_step v bp (a m) (r m) = Some (Inr (r (Suc m)))" for m by (simp add: isd_infinite_run_def)
  have start: "r 0 = isd_start b0" using run by (simp add: isd_infinite_run_def)
  have moves: "cache_pos (iw_cache (r (Suc m))) = (if is_cache (a m) then Suc (cache_pos (iw_cache (r m))) mod 8
        else cache_pos (iw_cache (r m)))
      \<and> isd_loaded (iw_pb (r (Suc m))) = (isd_loaded (iw_pb (r m)) \<or> is_cache (a m) \<and> cache_pos (iw_cache (r m)) = 5)
      \<and> (one_holder (r m) \<longrightarrow> one_holder (r (Suc m)))
      \<and> (serving (iw_handler (r m)) \<longrightarrow> serving (iw_handler (r (Suc m))))" for m
  proof (cases "a m")
    case (Handler x)
    with st[of m] have "handler_step v x (r m) = Some (Inr (r (Suc m)))" by simp
    from handler_moves(1-4)[OF this] Handler show ?thesis by simp
  next
    case (Cache ok f temp)
    with st[of m] have "cache_step v bp ok f temp (r m) = Some (Inr (r (Suc m)))" by simp
    from cache_moves[OF this] Cache show ?thesis by (simp add: serving_def cond_signal_def)
  next
    case Spurious
    with st[of m] have "r (Suc m) = r m\<lparr>iw_handler := W_Woken\<rparr>" "iw_handler (r m) = W_Blocked"
      by (simp_all split: if_splits)
    with Spurious show ?thesis by (simp add: one_holder_def serving_def)
  qed
  have hold: "one_holder (r m)" for m
    by (induction m) (use moves start in \<open>simp_all add: one_holder_def isd_start_def\<close>)
  have at: "\<exists>m\<ge>n. cache_pos (iw_cache (r m)) = j \<and> is_cache (a m)" if "j < 8" for j n
    by (rule infinitely_often_at[OF _ _ _ that])
      (use moves fair start in \<open>simp_all add: isd_fair_def isd_start_def\<close>)
  from at[of 5 0] obtain M where "cache_pos (iw_cache (r M)) = 5" "is_cache (a M)" by auto
  then have first: "isd_loaded (iw_pb (r (Suc M)))" using moves by simp
  have "isd_loaded (iw_pb (r n))" if "n \<ge> Suc M" for n
    using that first by (induction rule: dec_induct) (use moves in auto)
  then have loaded: "\<forall>n\<ge>Suc M. isd_loaded (iw_pb (r n))" by blast
  have "\<exists>m\<ge>n. serving (iw_handler (r m))" if "n \<ge> Suc M" for n
    using that
  proof (induction "wait_rank (iw_handler (r n))" arbitrary: n rule: less_induct)
    case less
    show ?case
    proof (cases "wait_rank (iw_handler (r n)) = 0")
      case True
      then show ?thesis using wait_rank_0 by blast
    next
      case False
      with isd_wait_decreases[OF run fair loaded at hold less.prems] obtain m where
        "m \<ge> n" "wait_rank (iw_handler (r m)) < wait_rank (iw_handler (r n))" by auto
      with less.hyps[of m] less.prems show ?thesis by (meson order_trans)
    qed
  qed
  from this[of "Suc M"] obtain n where n: "n \<ge> Suc M" "serving (iw_handler (r n))" by blast
  have "isd_loaded (iw_pb (r m)) \<and> serving (iw_handler (r m))" if "m \<ge> n" for m
  proof
    show "isd_loaded (iw_pb (r m))" using loaded n(1) that by simp
    show "serving (iw_handler (r m))" using that n(2) by (induction rule: dec_induct) (use moves in auto)
  qed
  with that show ?thesis by blast
qed

section \<open>A signal that is lost\<close>

text \<open>
  The flag is set and signalled without the mutex: when both happen between the test of the handler and
  its wait, it blocks with the flag set, and stays blocked until the signal of the next round.
\<close>

theorem isd_wakeup_can_be_lost:
  assumes "files f p = Some c"
  shows "\<exists>s. isd_sys_run Unicast (Some p) (replicate 5 (Cache ok f temp) @ replicate 2 (Handler r)
        @ replicate 2 (Cache ok f temp) @ [Handler r]) (isd_start b0) = Some (Inr s)
    \<and> isd_loaded (iw_pb s) \<and> iw_handler s = W_Blocked \<and> iw_cache s = L_Sleep \<and> (\<forall>r. handler_step v r s = None)"
  using assms by (simp add: numeral_eq_Suc wait_steps isd_start_def peerbase_load_def cond_signal_def)

section \<open>Examples\<close>

definition example_base_fs :: fs where
  "example_base_fs = example_fs\<lparr>files := [''base/0'' \<mapsto> put_pb Unicast 0 example_peerbase (replicate 240 0)]\<rparr>"

definition example_cache :: isd_act where
  "example_cache = Cache (\<lambda>_ _. True) example_base_fs (replicate 240 1)"

definition example_handler :: isd_act where
  "example_handler = Handler (RecvPacket (0, example_isd_env, nfq_good (replicate 30 7) 1))"

lemma example_base_file:
  "files example_base_fs ''base/0'' = Some (put_pb Unicast 0 example_peerbase (replicate 240 0))"
  "length (put_pb Unicast 0 example_peerbase (replicate 240 0)) = 240"
  "get_pb Unicast 0 (put_pb Unicast 0 example_peerbase (replicate 240 0)) = example_peerbase"
  "peerbase_load Unicast (Some ''base/0'') (Some (replicate 240 1)) example_base_fs
    = Inr (0, Some (put_pb Unicast 0 example_peerbase (replicate 240 0)))"
proof -
  have ok: "pb_ok Unicast example_peerbase" using example_base_ok by (simp add: base_ok_def)
  show f: "files example_base_fs ''base/0'' = Some (put_pb Unicast 0 example_peerbase (replicate 240 0))"
    by (simp add: example_base_fs_def)
  show l: "length (put_pb Unicast 0 example_peerbase (replicate 240 0)) = 240"
    using ok by (simp add: mpb.put_length)
  show "get_pb Unicast 0 (put_pb Unicast 0 example_peerbase (replicate 240 0)) = example_peerbase"
    using ok by (simp add: mpb.get_put)
  show "peerbase_load Unicast (Some ''base/0'') (Some (replicate 240 1)) example_base_fs
      = Inr (0, Some (put_pb Unicast 0 example_peerbase (replicate 240 0)))"
    using f l by (simp add: peerbase_load_def fread_def put_bytes_def)
qed

lemma isd_sys_run_append:
  "isd_sys_run v bp (as @ bs) s = (case isd_sys_run v bp as s of
     Some (Inr s') \<Rightarrow> isd_sys_run v bp bs s' | x \<Rightarrow> x)"
  by (induction as arbitrary: s) (auto split: option.splits sum.splits)

lemma example_isd_acts_ok:
  assumes "example_cache \<in> set as" and "\<forall>a \<in> set as. a = example_cache \<or> a = example_handler"
  shows "\<forall>a \<in> set as. isd_act_ok Unicast ''base/0'' (pb_link example_peerbase) (pb_host example_peerbase)
    (loaded_bases Unicast ''base/0'' as) a"
proof -
  have "example_peerbase \<in> loaded_bases Unicast ''base/0'' as"
    using assms(1) example_base_file by (force simp: loaded_bases_def example_cache_def)
  then have "isd_act_ok Unicast ''base/0'' (pb_link example_peerbase) (pb_host example_peerbase)
      (loaded_bases Unicast ''base/0'' as) example_cache"
    using example_base_file example_base_ok by (simp add: isd_act_ok_def example_cache_def good_base_def)
  moreover have "isd_act_ok Unicast ''base/0'' (pb_link example_peerbase) (pb_host example_peerbase)
      (loaded_bases Unicast ''base/0'' as) example_handler"
    by (auto simp: isd_act_ok_def example_handler_def example_isd_env_def)
  ultimately show ?thesis using assms(2) by auto
qed

text \<open>A round, the wait of the handler, and a packet.\<close>

definition example_acts :: "isd_act list" where
  "example_acts = replicate 7 example_cache @ replicate 3 example_handler @ replicate 5 example_handler"

text \<open>The thread that loads, then the handler: it passes its wait and sends one packet.\<close>

lemma round_then_packet:
  fixes t i
  assumes "files f p = Some c" and "length c = 240" and "length temp = 240"
    and "base_ok Unicast (get_pb Unicast 0 c)" and "28 \<le> length d" "length d < 65536" "length d + 192 \<le> malloc_room env"
    and "\<forall>i addr. sendto_ok env i addr"
  defines "h \<equiv> Handler (RecvPacket (t, env, nfq_good d i))"
  shows "\<exists>s. isd_sys_run Unicast (Some p) (replicate 7 (Cache ok f temp) @ replicate 3 h @ replicate 5 h) (isd_start b0)
      = Some (Inr s) \<and> length (iw_out s) = 1"
proof -
  let ?run = "isd_sys_run Unicast (Some p)" and ?b = "\<lparr>isd_base = get_pb Unicast 0 c, isd_loaded = True\<rparr>"
  have l: "peerbase_load Unicast (Some p) (Some temp) f = Inr (0, Some c)"
    using assms(1-3) by (simp add: peerbase_load_def fread_def put_bytes_def Let_def)
  have 1: "?run (replicate 7 (Cache ok f temp)) (isd_start b0) = Some (Inr ((isd_start b0)\<lparr>
      iw_pb := ?b, iw_cache := L_Sleep\<rparr>))"
    using isd_round_is_uninterrupted_run[of "isd_start b0" Unicast "Some p" ok f temp] l
    by (simp add: isd_start_def isd_pb_round_def Let_def cond_signal_def)
  have 2: "?run (replicate 3 h) ((isd_start b0)\<lparr>iw_pb := ?b, iw_cache := L_Sleep\<rparr>)
      = Some (Inr ((isd_start b0)\<lparr>iw_pb := ?b, iw_cache := L_Sleep, iw_handler := W_Ready\<rparr>))"
    by (simp add: numeral_eq_Suc h_def wait_steps isd_start_def)
  from isd_handle_good[of d env Unicast ?b t i isd_init] assms(4-8) obtain st vd ds where
    h: "isd_handle_packet Unicast env t ?b (nfq_good d i) isd_init = Inr (st, vd, ds)" by auto
  have "\<exists>s. ?run (replicate 5 h) ((isd_start b0)\<lparr>iw_pb := ?b, iw_cache := L_Sleep,
      iw_handler := W_Ready\<rparr>) = Some (Inr s) \<and> length (iw_out s) = 1"
    unfolding h_def by (subst isd_packet_is_uninterrupted_run) (simp_all add: isd_start_def h)
  then show ?thesis unfolding isd_sys_run_append by (simp add: 1 2)
qed

lemma example_run:
  "\<exists>s. isd_sys_run Unicast (Some ''base/0'') example_acts (isd_start b0) = Some (Inr s) \<and> length (iw_out s) = 1"
  unfolding example_acts_def example_cache_def example_handler_def
  using example_base_file example_base_ok
  by (intro round_then_packet[where c = "put_pb Unicast 0 example_peerbase (replicate 240 0)"])
    (simp_all add: example_isd_env_def)

section \<open>Properties\<close>

text \<open>
  C5. The sending daemon works from bases it loaded: whatever the memory holds at the start, and however
  its two threads interleave, with any file contents the control daemon published for the link
  \<open>lk\<close> on the host \<open>h\<close> at the loads, no step fails; once the handler is past its wait, the cached base
  is one that was loaded, and in the multicast variant the socket of every IND has its outgoing interface; and
  the packet at position \<open>k\<close> has the number \<open>k mod (2 ^ 32 - 1) + 1\<close>, the link and the
  payload, and one copy per common IND of a base that was loaded, to the addresses of that base,
  although it is made from the link the handler reads without the lock.
\<close>

theorem isd_threads_send_loaded_bases:
  assumes "\<forall>a \<in> set as. isd_act_ok v p lk h (loaded_bases v p as) a"
    and "distinct (map ind (take (nb_ifaces h) (ifaces h)))"
  shows "isd_sys_run v (Some p) as (isd_start b0) = None
    \<or> (\<exists>s'. isd_sys_run v (Some p) as (isd_start b0) = Some (Inr s')
      \<and> (past_wait (iw_handler s') \<longrightarrow> isd_loaded (iw_pb s')
          \<and> good_base v lk h (loaded_bases v p as) (isd_base (iw_pb s'))
          \<and> (v = Multicast \<longrightarrow> (\<forall>f \<in> set (take (nb_ifaces h) (ifaces h)). iw_ifs s' (unat (ind f)) = Some (if_addr f))))
      \<and> (\<forall>k < length (iw_out s'). \<exists>b n. good_base v lk h (loaded_bases v p as) b \<and> unat n = k mod 4294967295 + 1
          \<and> base_copies v b n (drop 28 (vd_data (fst (iw_out s' ! k)))) (snd (iw_out s' ! k))))"
  using isd_sys_run_numbers[OF assms(1), of b0] ifs_of_iface[OF assms(2)] by (auto simp: cached_def)

theorem isd_threads_send_loaded_bases_witness:
  "\<exists>s. isd_sys_run Unicast (Some ''base/0'') example_acts (isd_start example_peerbase) = Some (Inr s)
    \<and> (\<exists>b n. pb_link b = pb_link example_peerbase \<and> unat n = 1
        \<and> base_copies Unicast b n (drop 28 (vd_data (fst (iw_out s ! 0)))) (snd (iw_out s ! 0)))"
proof -
  have "example_cache \<in> set example_acts" "\<forall>a \<in> set example_acts. a = example_cache \<or> a = example_handler"
    by (auto simp: example_acts_def)
  note ok = example_isd_acts_ok[OF this]
  have "distinct (map ind (take (nb_ifaces (pb_host example_peerbase)) (ifaces (pb_host example_peerbase))))"
    by (simp add: example_used)
  from isd_threads_send_loaded_bases[OF ok this, of example_peerbase] example_run[of example_peerbase] obtain s where
    r: "isd_sys_run Unicast (Some ''base/0'') example_acts (isd_start example_peerbase) = Some (Inr s)" "length (iw_out s) = 1"
    and s: "\<forall>k < length (iw_out s). \<exists>b n. good_base Unicast (pb_link example_peerbase) (pb_host example_peerbase)
          (loaded_bases Unicast ''base/0'' example_acts) b \<and> unat n = k mod 4294967295 + 1
          \<and> base_copies Unicast b n (drop 28 (vd_data (fst (iw_out s ! k)))) (snd (iw_out s ! k))" by auto
  from s[rule_format, of 0] r show ?thesis by (auto simp: good_base_def)
qed

text \<open>
  C34. The wait of the handler ends: in every infinite run in which the cache thread keeps moving and the
  handler is not passed over for ever, from some point on the base is loaded and the handler serves
  packets, even when the signal of a round comes between its test of the flag and its wait.
\<close>

theorem isd_wait_ends:
  assumes "isd_infinite_run v bp b0 a r" and "isd_fair v a r"
  shows "\<exists>n. \<forall>m\<ge>n. isd_loaded (iw_pb (r m)) \<and> serving (iw_handler (r m))"
  using isd_run_serves[OF assms] by metis


text \<open>A run for the witness: a round, the wait of the handler, then receives with nothing in between the
  steps of the cache thread.\<close>

definition example_schedule :: "nat \<Rightarrow> isd_act" where
  "example_schedule n = (if n < 7 \<or> 10 \<le> n \<and> odd n then example_cache else Handler RecvEmpty)"

primrec example_states :: "nat \<Rightarrow> isd_sys" where
  "example_states 0 = isd_start example_peerbase"
| "example_states (Suc n) = (case isd_sys_step Unicast (Some ''base/0'') (example_schedule n) (example_states n) of
     Some (Inr s) \<Rightarrow> s | _ \<Rightarrow> example_states n)"

definition example_at :: "nat \<Rightarrow> isd_sys \<Rightarrow> bool" where
  "example_at n s \<longleftrightarrow> one_holder s \<and> (isd_loaded (iw_pb s) \<longleftrightarrow> 5 < n)
     \<and> iw_handler s = (if n \<le> 7 then W_Lock else if n = 8 then W_Test else if n = 9 then W_Leave else W_Ready)
     \<and> (n \<le> 10 \<longrightarrow> cache_pos (iw_cache s) = min n 7)"

lemma example_cache_step:
  assumes "one_holder s" and "\<not> in_handler (iw_handler s)"
  shows "\<exists>s'. isd_sys_step Unicast (Some ''base/0'') example_cache s = Some (Inr s')"
  using assms example_base_file
  by (cases "iw_cache s") (simp_all add: example_cache_def wait_steps one_holder_def)

lemma example_step:
  assumes "example_at n s"
  shows "\<exists>s'. isd_sys_step Unicast (Some ''base/0'') (example_schedule n) s = Some (Inr s') \<and> example_at (Suc n) s'"
proof (cases "n < 7 \<or> 10 \<le> n \<and> odd n")
  case True
  with assms have h: "one_holder s" "\<not> in_handler (iw_handler s)" "cond_signal (iw_handler s) = iw_handler s"
    by (auto simp: example_at_def cond_signal_def)
  from example_cache_step[OF h(1,2)] obtain s' where
    s': "cache_step Unicast (Some ''base/0'') (\<lambda>_ _. True) example_base_fs (replicate 240 1) s = Some (Inr s')"
    by (auto simp: example_cache_def)
  note m = cache_moves[OF this]
  have "example_at (Suc n) s'"
  proof (cases "n < 7")
    case True
    then have "cache_pos (iw_cache s) = n" using assms by (simp add: example_at_def)
    with True m h assms show ?thesis by (simp add: example_at_def) linarith
  next
    case False
    with True have "10 \<le> n" by simp
    with m h assms show ?thesis by (simp add: example_at_def)
  qed
  with s' True show ?thesis by (simp add: example_schedule_def example_cache_def)
next
  case False
  then consider "n = 7" | "n = 8" | "n = 9" | "10 \<le> n" by linarith
  then have "\<exists>s'. handler_step Unicast RecvEmpty s = Some (Inr s') \<and> example_at (Suc n) s'"
  proof cases
    case 1
    then have "iw_cache s = L_Sleep" using assms by (cases "iw_cache s") (auto simp: example_at_def)
    with 1 assms show ?thesis by (simp add: example_at_def wait_steps one_holder_def)
  next
    case 2
    then have "iw_cache s = L_Sleep" using assms by (cases "iw_cache s") (auto simp: example_at_def)
    with 2 assms show ?thesis by (simp add: example_at_def wait_steps one_holder_def)
  next
    case 3
    then have "iw_cache s = L_Sleep" using assms by (cases "iw_cache s") (auto simp: example_at_def)
    with 3 assms show ?thesis by (simp add: example_at_def wait_steps one_holder_def)
  next
    case 4
    with assms show ?thesis
      by (simp add: example_at_def wait_steps one_holder_def isd_take_def get_and_handle_def IPRP_ERR_def IPRP_ERR_EMPTY_def)
  qed
  moreover from False have "example_schedule n = Handler RecvEmpty" by (auto simp: example_schedule_def)
  ultimately show ?thesis by simp
qed

lemma example_infinite_run:
  "isd_infinite_run Unicast (Some ''base/0'') example_peerbase example_schedule example_states"
proof -
  have at: "example_at n (example_states n)" for n
  proof (induction n)
    case 0
    show ?case by (simp add: example_at_def isd_start_def one_holder_def)
  next
    case (Suc n)
    from example_step[OF Suc] show ?case by auto
  qed
  have "isd_sys_step Unicast (Some ''base/0'') (example_schedule n) (example_states n)
      = Some (Inr (example_states (Suc n)))" for n
    using example_step[OF at[of n]] by auto
  then show ?thesis by (simp add: isd_infinite_run_def del: example_states.simps(2))
qed

lemma example_fair: "isd_fair Unicast example_schedule example_states"
proof -
  have "is_cache (example_schedule (2 * n + 11))" "is_handler (example_schedule (2 * n + 10))" for n
    by (simp_all add: example_schedule_def example_cache_def)
  moreover have "n \<le> 2 * n + 11" "n \<le> 2 * n + 10" for n :: nat by simp_all
  ultimately show ?thesis unfolding isd_fair_def by blast
qed

theorem isd_wait_ends_witness:
  "\<exists>n. \<forall>m\<ge>n. isd_loaded (iw_pb (example_states m)) \<and> serving (iw_handler (example_states m))"
  using isd_wait_ends[OF example_infinite_run example_fair] .

end
