(* ===== verification/Iprp_Sender.thy ===== *)
theory Iprp_Sender
  imports Iprp_Session Iprp_Isd_Wait
begin

text \<open>
  The sender over time: the control daemon, whose two threads interleave and write the file of the link
  whenever its peer base changes, and the sending daemon of the link, whose two threads interleave as well
  and read the file at moments of their own (src/icd/control.c, src/icd/peerbase.c, src/isd/isd.c,
  src/isd/peerbase.c).  The steps are those of Iprp\_Icd\_Run and Iprp\_Isd\_Wait; what joins them is that a
  round of the cache thread finds the files of some state of the run of the control daemon.
\<close>

text \<open>A state that the run \<open>as\<close> of the control daemon goes through, and an entry that has a sending
  daemon there.\<close>

definition entry_at :: "variant \<Rightarrow> icd_act list \<Rightarrow> pb_world \<Rightarrow> icd_sys \<Rightarrow> icd_base \<Rightarrow> bool" where
  "entry_at v as w s b \<longleftrightarrow> (\<exists>k. sys_run v (take k as) (sys_init w) = Some (Inr s))
     \<and> b \<in> set (bases s) \<and> isd_pid b \<noteq> -1"

text \<open>The steps of the sending daemon of the path \<open>p\<close> and the link \<open>lk\<close>: packets it can serve, and rounds
  that find the files of such a state.\<close>

definition fed_by :: "variant \<Rightarrow> icd_act list \<Rightarrow> pb_world \<Rightarrow> string \<Rightarrow> link \<Rightarrow> isd_act \<Rightarrow> bool" where
  "fed_by v as w p lk a = (case a of
     Handler (RecvError e) \<Rightarrow> e = ENOBUFS
   | Handler RecvEmpty \<Rightarrow> True
   | Handler (RecvPacket (t, env, pk)) \<Rightarrow>
       (\<exists>b i. pk = nfq_good b i \<and> 28 \<le> length b \<and> length b < 65536 \<and> length b + 192 \<le> malloc_room env)
       \<and> sendto_ok env = (\<lambda>_ _. True)
   | Cache ok f temp \<Rightarrow> (\<forall>i addr. ok i addr) \<and> length temp = pb_size v
       \<and> (\<exists>s b. entry_at v as w s b \<and> f = pw_fs (sy_world s) \<and> ib_link b = lk \<and> path_of b = p)
   | Spurious \<Rightarrow> True)"

text \<open>The copies of the payload that the entry \<open>b\<close> asks for: at least one, each the iPRP packet of the
  number, on a network whose IND the entry has, to the destination it has for it.\<close>

definition entry_copies :: "variant \<Rightarrow> host \<Rightarrow> icd_base \<Rightarrow> u32 \<Rightarrow> bytes \<Rightarrow> datagram list \<Rightarrow> bool" where
  "entry_copies v h b n payload ds \<longleftrightarrow> ds \<noteq> [] \<and> (\<exists>new. iprp_packet_of v (ib_link b) n payload new
     \<and> (\<forall>d \<in> set ds. dg_data d = new \<and> dg_sock d \<in> bits_of (ib_inds b) \<inter> host_inds h
         \<and> dg_to d = sockaddr_fill (case v of Unicast \<Rightarrow> ib_dest_addr b ! dg_sock d
             | Multicast \<Rightarrow> dest_addr (ib_link b)) IPRP_DATA_PORT))"

section \<open>Every state of the run serves its entries\<close>

lemma kept_alive_take: "kept_alive h as r \<Longrightarrow> kept_alive h (take k as) r"
  by (induction as arbitrary: k r) (auto simp: take_Cons' split: nat.split)

lemma act_keys_take: "set (act_keys (take k as)) \<subseteq> set (act_keys as)"
proof (induction as arbitrary: k)
  case (Cons a as)
  then show ?case by (cases k; cases a) (auto dest: subsetD)
qed simp

lemma sys_run_take_serves:
  assumes "inds_ok h" and "\<forall>a \<in> set as. act_ok v h a" and "disk_ok v (pw_fs w)" and "isd_paths w = []"
    and "kept_alive h as Map.empty" and "card (set (act_keys as)) \<le> 128" and "entry_at v as w s b"
  shows "base_typed h b" and "published v h (pw_fs (sy_world s)) b"
proof -
  from assms(7) obtain k where k: "sys_run v (take k as) (sys_init w) = Some (Inr s)" "b \<in> set (bases s)" "isd_pid b \<noteq> -1"
    by (auto simp: entry_at_def)
  have "card (set (act_keys (take k as))) \<le> 128"
    using card_mono[OF finite_set act_keys_take, of k as] assms(6) by simp
  moreover have "\<forall>a \<in> set (take k as). act_ok v h a" using assms(2) by (auto dest: in_set_takeD)
  ultimately obtain s' where "sys_run v (take k as) (sys_init w) = Some (Inr s')" "sys_typed v h s'"
      "\<forall>b \<in> set (bases s'). isd_pid b \<noteq> -1 \<longrightarrow> published v h (pw_fs (sy_world s')) b"
    using sys_run_serves[OF assms(1) _ assms(3,4) kept_alive_take[OF assms(5)], of k] by blast
  with k show "base_typed h b" "published v h (pw_fs (sy_world s)) b" by (auto simp: sys_typed_def)
qed

section \<open>What the sending daemon loads\<close>

text \<open>The bases an entry with a daemon can stand for in its file: its IND set may since have been given
  more bits.\<close>

definition entry_bases :: "variant \<Rightarrow> host \<Rightarrow> icd_act list \<Rightarrow> pb_world \<Rightarrow> peerbase set" where
  "entry_bases v h as w = {create_peerbase v h (b\<lparr>ib_inds := x\<rparr>) | b x s.
     entry_at v as w s b \<and> base_typed h b \<and> bits_of x \<noteq> {} \<and> bits_of x \<subseteq> bits_of (ib_inds b)}"

lemma entry_base_ok:
  assumes "inds_ok h" and "base_typed h b"
  shows "base_ok v (create_peerbase v h (b\<lparr>ib_inds := x\<rparr>))"
  using assms by (cases v) (simp_all add: base_ok_def pb_ok_def create_peerbase_def base_typed_def inds_ok_def iprp_consts)

lemma fed_act_ok:
  assumes h: "inds_ok h" and srv: "\<And>s b. entry_at v as w s b \<Longrightarrow> base_typed h b \<and> published v h (pw_fs (sy_world s)) b"
    and fed: "fed_by v as w p lk a"
  shows "isd_act_ok v p lk h (entry_bases v h as w) a"
proof (cases a)
  case (Cache ok f temp)
  with fed obtain s b where e: "entry_at v as w s b" "f = pw_fs (sy_world s)" "ib_link b = lk" "path_of b = p"
    and t: "\<forall>i addr. ok i addr" "length temp = pb_size v" by (auto simp: fed_by_def)
  from srv[OF e(1)] e obtain c x where c: "base_typed h b" "files f p = Some c" "length c = pb_size v"
      "get_pb v 0 c = create_peerbase v h (b\<lparr>ib_inds := x\<rparr>)" "bits_of x \<noteq> {}" "bits_of x \<subseteq> bits_of (ib_inds b)"
    by (auto simp: published_def)
  have "get_pb v 0 c \<in> entry_bases v h as w" using c e(1) by (auto simp: entry_bases_def)
  then have "good_base v lk h (entry_bases v h as w) (get_pb v 0 c)"
    using entry_base_ok[OF h c(1)] c(4) e(3) by (simp add: good_base_def create_peerbase_def)
  with c t show ?thesis by (simp add: isd_act_ok_def Cache)
qed (use fed in \<open>simp_all add: fed_by_def isd_act_ok_def\<close>)

lemma base_copies_entry:
  assumes h: "inds_ok h" and b: "base_typed h b" and x: "bits_of x \<noteq> {}" "bits_of x \<subseteq> bits_of (ib_inds b)"
    and c: "base_copies v (create_peerbase v h (b\<lparr>ib_inds := x\<rparr>)) n payload ds"
  shows "entry_copies v h b n payload ds"
proof -
  let ?base = "create_peerbase v h (b\<lparr>ib_inds := x\<rparr>)"
  let ?fs = "filter (\<lambda>f. bit x (unat (ind f))) (take (nb_ifaces h) (ifaces h))"
  from c obtain new where new: "iprp_packet_of v (ib_link b) n payload new"
      "ds = map (\<lambda>f. \<lparr>dg_sock = unat (ind f), dg_data = new, dg_to = dest_of v ?base f\<rparr>) ?fs"
    by (auto simp: base_copies_def create_peerbase_def)
  have len: "length (ib_dest_addr b) = 16" using b by (simp add: base_typed_def iprp_consts)
  obtain k where "k \<in> bits_of x" using x(1) by auto
  moreover from this x(2) b have "k \<in> host_inds h" by (auto simp: base_typed_def)
  ultimately have ne: "?fs \<noteq> []" by (auto simp: bits_of_def host_inds_def filter_empty_conv)
  have "unat (ind f) \<in> bits_of (ib_inds b) \<inter> host_inds h
      \<and> dest_of v ?base f = sockaddr_fill (case v of Unicast \<Rightarrow> ib_dest_addr b ! unat (ind f)
          | Multicast \<Rightarrow> dest_addr (ib_link b)) IPRP_DATA_PORT" if "f \<in> set ?fs" for f
  proof -
    from that h have "unat (ind f) < 16" by (auto simp: inds_ok_def iprp_consts)
    with that x(2) len show ?thesis
      by (cases v) (auto simp: bits_of_def host_inds_def dest_of_def create_peerbase_def iprp_consts)
  qed
  with ne have "\<forall>d \<in> set ds. dg_data d = new \<and> dg_sock d \<in> bits_of (ib_inds b) \<inter> host_inds h
      \<and> dg_to d = sockaddr_fill (case v of Unicast \<Rightarrow> ib_dest_addr b ! dg_sock d
          | Multicast \<Rightarrow> dest_addr (ib_link b)) IPRP_DATA_PORT"
    unfolding new(2) set_map by (intro ballI, elim imageE) (simp only: datagram.simps simp_thms)
  with new ne show ?thesis by (auto simp: entry_copies_def)
qed

section \<open>Examples\<close>

definition example_icd_acts :: "icd_act list" where
  "example_icd_acts = Take_cap 5 example_icd_env example_cap # replicate 3 (Pb_step 7 example_pb_env)"

lemma example_icd_acts_ok:
  "\<forall>a \<in> set example_icd_acts. act_ok Unicast example_host a" "disk_ok Unicast (pw_fs example_world)"
  "isd_paths example_world = []" "kept_alive example_host example_icd_acts Map.empty"
  "card (set (act_keys example_icd_acts)) \<le> 128"
  using example_acts_ok example_disk_ok
  by (simp_all add: example_icd_acts_def isd_paths_def example_world_def numeral_eq_Suc receiver_cap_def all_fresh_def
      IPRP_PB_TEXP_def Let_def)

lemma pb_entry_pid: "pb_entry v env b w = Inr (b', w') \<Longrightarrow> isd_pid b' \<noteq> -1"
  by (auto simp: pb_entry_def and_then_def Let_def split: sum.splits if_splits prod.splits)

lemma example_entry:
  obtains s b where "entry_at Unicast example_icd_acts example_world s b"
proof -
  let ?cap = "Take_cap 5 example_icd_env example_cap" and ?pb = "Pb_step 7 example_pb_env"
  note ok = example_icd_acts_ok
  have one: "act_ok Unicast example_host ?cap" "card (set (act_keys [?cap])) \<le> 128"
    "kept_alive example_host [?cap] Map.empty" using example_acts_ok by simp_all
  from sys_run_serves[OF example_inds_ok _ ok(2,3) one(3,2)] one(1) obtain s1 where
    s1: "sys_run Unicast [?cap] (sys_init example_world) = Some (Inr s1)" "sys_typed Unicast example_host s1"
      "receivers_of (bases s1) = receiver_cap example_host 5 example_cap Map.empty" by auto
  have pc: "sy_pc s1 = P_Sleep" "\<not> sy_held s1"
    using s1(1) by (auto simp: sys_init_def mutex_lock_def and_then_def split: sum.splits)
  have "0 \<in> bits_of (cap_inds example_cap) \<inter> host_inds example_host"
    by (simp add: example_cap_def bits_of_def host_inds_def example_host_def)
  then have "receivers_of (bases s1) (cap_key example_cap) \<noteq> None"
    unfolding s1(3) receiver_cap_def Let_def by auto
  then have ne: "bases s1 \<noteq> []" by (auto simp: receivers_of_def)
  have fresh: "\<not> aged last_cap IPRP_PB_TEXP 7 (bases s1 ! 0)"
  proof (rule all_fresh_entries)
    show "all_fresh 7 (receivers_of (bases s1))"
      using s1(3) by (auto simp: receiver_cap_def all_fresh_def IPRP_PB_TEXP_def Let_def)
  qed (use s1(2) ne in \<open>auto simp: sys_typed_def\<close>)
  from sys_run_serves[OF example_inds_ok ok] obtain s where
    s: "sys_run Unicast example_icd_acts (sys_init example_world) = Some (Inr s)" by blast
  then have "sys_run Unicast (replicate 3 ?pb) s1 = Some (Inr s)"
    using s1(1) by (auto simp: example_icd_acts_def split: option.splits sum.splits)
  then obtain b w where b: "pb_entry Unicast example_pb_env (bases s1 ! 0) (sy_world s1) = Inr (b, w)" "bases s = (bases s1)[0 := b]"
    using pc ne fresh
    by (auto simp: numeral_eq_Suc it_at_def pb_look_def pb_publish_def mutex_lock_def and_then_def split: sum.splits)
  have "entry_at Unicast example_icd_acts example_world s b"
    unfolding entry_at_def using s b pb_entry_pid[OF b(1)] ne
    by (intro conjI exI[of _ "length example_icd_acts"]) (auto simp: neq_Nil_conv)
  with that show ?thesis .
qed

section \<open>Properties\<close>

text \<open>
  C4. The sender keeps to what its receivers asked for, over time: while the two threads of its control
  daemon interleave, with every one of at most 128 links kept alive by its CAPs, and the two threads
  of the sending daemon of a link interleave with each other and read the file of the link at whatever
  moments its entry has a daemon, the sending daemon does not fail; and its packet at position \<open>k\<close> has
  the number \<open>k mod (2 ^ 32 - 1) + 1\<close>, the payload of the application, and goes out in at least one copy,
  each on a network common to the hosts and to the address that an entry of the link had at one of those
  moments.
\<close>

theorem sender_follows_entries:
  assumes "inds_ok h" and "\<forall>a \<in> set as. act_ok v h a" and "disk_ok v (pw_fs w)" and "isd_paths w = []"
    and "kept_alive h as Map.empty" and "card (set (act_keys as)) \<le> 128"
    and "\<forall>a \<in> set ds. fed_by v as w p lk a"
  shows "isd_sys_run v (Some p) ds (isd_start b0) = None
    \<or> (\<exists>s'. isd_sys_run v (Some p) ds (isd_start b0) = Some (Inr s')
      \<and> (\<forall>k < length (iw_out s'). \<exists>s b n. entry_at v as w s b \<and> ib_link b = lk \<and> unat n = k mod 4294967295 + 1
          \<and> entry_copies v h b n (drop 28 (vd_data (fst (iw_out s' ! k)))) (snd (iw_out s' ! k))))"
proof -
  let ?B = "entry_bases v h as w"
  have "base_typed h b \<and> published v h (pw_fs (sy_world s)) b" if "entry_at v as w s b" for s b
    using sys_run_take_serves[OF assms(1-6) that] by simp
  from fed_act_ok[OF assms(1) this] assms(7) have "\<forall>a \<in> set ds. isd_act_ok v p lk h ?B a" by blast
  moreover have "\<exists>s b. entry_at v as w s b \<and> ib_link b = lk \<and> entry_copies v h b n payload out"
    if "good_base v lk h ?B pb" "base_copies v pb n payload out" for pb n payload out
    using that base_copies_entry[OF assms(1)] by (fastforce simp: good_base_def entry_bases_def create_peerbase_def)
  ultimately show ?thesis using isd_sys_run_numbers[of ds v p lk h ?B b0] by meson
qed

theorem sender_follows_entries_witness:
  "\<exists>p ds s' s b n. (\<exists>a \<in> set ds. \<exists>ok f temp. a = Cache ok f temp)
    \<and> isd_sys_run Unicast (Some p) ds (isd_start example_peerbase) = Some (Inr s') \<and> length (iw_out s') = 1
    \<and> entry_at Unicast example_icd_acts example_world s b \<and> unat n = 1
    \<and> entry_copies Unicast example_host b n (drop 28 (vd_data (fst (iw_out s' ! 0)))) (snd (iw_out s' ! 0))"
proof -
  let ?as = example_icd_acts and ?w = example_world
  obtain s b where e: "entry_at Unicast ?as ?w s b" by (rule example_entry)
  note srv = sys_run_take_serves[OF example_inds_ok example_icd_acts_ok e]
  from srv(2) obtain c x where c: "files (pw_fs (sy_world s)) (path_of b) = Some c" "length c = 240"
      "get_pb Unicast 0 c = create_peerbase Unicast example_host (b\<lparr>ib_inds := x\<rparr>)" by (auto simp: published_def)
  define h where "h = Handler (RecvPacket (0, example_isd_env, nfq_good (replicate 30 7) 1))"
  define load where "load = Cache (\<lambda>_ _. True) (pw_fs (sy_world s)) (replicate 240 1)"
  let ?ds = "replicate 7 load @ replicate 3 h @ replicate 5 h"
  have "\<exists>s'. isd_sys_run Unicast (Some (path_of b)) ?ds (isd_start example_peerbase) = Some (Inr s') \<and> length (iw_out s') = 1"
    unfolding h_def load_def using c entry_base_ok[OF example_inds_ok srv(1)]
    by (intro round_then_packet[where c = c]) (simp_all add: example_isd_env_def)
  moreover have "fed_by Unicast ?as ?w (path_of b) (ib_link b) load"
    unfolding fed_by_def load_def using e by auto
  moreover have "fed_by Unicast ?as ?w (path_of b) (ib_link b) h"
    unfolding fed_by_def h_def by (auto simp: example_isd_env_def)
  ultimately have "\<exists>s'. isd_sys_run Unicast (Some (path_of b)) ?ds (isd_start example_peerbase) = Some (Inr s')
      \<and> length (iw_out s') = 1 \<and> (\<exists>s b n. entry_at Unicast ?as ?w s b \<and> unat n = 1
      \<and> entry_copies Unicast example_host b n (drop 28 (vd_data (fst (iw_out s' ! 0)))) (snd (iw_out s' ! 0)))"
    using sender_follows_entries[OF example_inds_ok example_icd_acts_ok, of ?ds "path_of b" "ib_link b" example_peerbase]
    by fastforce
  moreover have "load \<in> set ?ds" by simp
  ultimately show ?thesis unfolding load_def by blast
qed

end
