(* ===== verification/Iprp_Icd_Boot.thy ===== *)
theory Iprp_Icd_Boot
  imports Iprp_Icd_Run
begin

text \<open>
  The start of the control daemon (src/icd/icd.c, main): the control thread is created before the peer base
  thread, whose first act is to initialise the list of peer bases (src/icd/peerbase.c).  Until then the list is
  the zeroed global, which works as an empty one.
\<close>

section \<open>Initialisation while messages arrive\<close>

text \<open>\<open>list_init\<close> of the peer base thread: no element, the mutex free.\<close>

definition pb_thread_init :: "icd_sys \<Rightarrow> icd_sys" where
  "pb_thread_init s = s\<lparr>sy_icd := (sy_icd s)\<lparr>peerbases := []\<rparr>, sy_held := False, sy_pc := P_Sleep\<rparr>"

text \<open>The messages handled before it, then the run of both threads.\<close>

definition icd_boot :: "variant \<Rightarrow> (time_t \<times> icd_env \<times> cap_msg) list \<Rightarrow> icd_act list \<Rightarrow> pb_world \<Rightarrow> icd_sys result option" where
  "icd_boot v early as w = (case sys_run v (map (\<lambda>(t, env, m). Take_cap t env m) early) (sys_init w) of
     Some (Inr s) \<Rightarrow> sys_run v as (pb_thread_init s)
   | r \<Rightarrow> r)"

text \<open>What is left of the early messages.\<close>

definition sys_init_from :: "nat \<Rightarrow> pb_world \<Rightarrow> icd_sys" where
  "sys_init_from n w = \<lparr>sy_icd = \<lparr>peerbases = [], sender_ifs = [], reboot_counter = of_nat n\<rparr>, sy_held = False,
     sy_pc = P_Sleep, sy_world = w\<rparr>"

lemma early_caps_run:
  assumes h: "inds_ok h"
  shows "\<forall>a \<in> set early. act_ok v h (case a of (t, env, m) \<Rightarrow> Take_cap t env m) \<Longrightarrow>
   \<not> sy_held s \<Longrightarrow> distinct (map pb_key (bases s)) \<Longrightarrow> \<forall>b \<in> set (bases s). base_typed h b \<Longrightarrow>
   reboot_counter (sy_icd s) = of_nat (length (bases s)) \<Longrightarrow>
   \<exists>bs. sys_run v (map (\<lambda>(t, env, m). Take_cap t env m) early) s
       = Some (Inr (s\<lparr>sy_icd := (sy_icd s)\<lparr>peerbases := bs, reboot_counter := of_nat (length bs)\<rparr>\<rparr>))
     \<and> length bs \<le> length (bases s) + length early \<and> distinct (map pb_key bs)"
proof (induction early arbitrary: s)
  case Nil
  have "s\<lparr>sy_icd := (sy_icd s)\<lparr>peerbases := bases s, reboot_counter := reboot_counter (sy_icd s)\<rparr>\<rparr> = s" by simp
  with Nil show ?case by (intro exI[of _ "bases s"]) simp
next
  case (Cons a early)
  obtain t env m where a: "a = (t, env, m)" by (cases a)
  from Cons.prems(1) a have ok: "cap_event_ok v h (Event t (env, m))" "ack_sent env" by (simp_all add: act_ok_def)
  obtain bs cnt acks where
    r: "handle_cap v env t m (sy_icd s) = Inr ((sy_icd s)\<lparr>peerbases := bs, reboot_counter := cnt\<rparr>, acks)"
      "distinct (map pb_key bs)" "\<forall>b \<in> set bs. base_typed h b"
      "cnt = of_nat (length bs) \<and> length bs \<le> Suc (length (bases s))"
  proof (rule handle_cap_ok[OF h ok Cons.prems(3,4)], goal_cases)
    case (1 bs cnt acks)
    from 1(6) have "cnt = of_nat (length bs) \<and> length bs \<le> Suc (length (bases s))"
      by (elim disjE exE conjE) (simp_all add: Cons.prems(5))
    from 1(1)[OF 1(2-4) this] show ?case .
  qed
  let ?s = "s\<lparr>sy_icd := (sy_icd s)\<lparr>peerbases := bs, reboot_counter := cnt\<rparr>\<rparr>"
  have st: "sys_step v (Take_cap t env m) s = Some (Inr ?s)"
    using r(1) Cons.prems(2) by (simp add: mutex_lock_def)
  from Cons.IH[of ?s] Cons.prems r obtain bs' where
    "sys_run v (map (\<lambda>(t, env, m). Take_cap t env m) early) ?s
       = Some (Inr (?s\<lparr>sy_icd := (sy_icd ?s)\<lparr>peerbases := bs', reboot_counter := of_nat (length bs')\<rparr>\<rparr>))"
    "length bs' \<le> length bs + length early" "distinct (map pb_key bs')" by auto
  with st r(4) a show ?case by (intro exI[of _ bs']) (simp del: sys_step.simps)
qed

text \<open>
  The control daemon forgets the receivers that announce themselves before its peer base thread runs: the
  run that follows is a run from the start, with the number of SNSIDs they used up.
\<close>

theorem icd_forgets_early_caps:
  assumes "inds_ok h" and "\<forall>a \<in> set early. act_ok v h (case a of (t, env, m) \<Rightarrow> Take_cap t env m)"
  shows "\<exists>n \<le> length early. icd_boot v early as w = sys_run v as (sys_init_from n w)"
proof -
  from early_caps_run[OF assms, of "sys_init w"] obtain bs where
    "sys_run v (map (\<lambda>(t, env, m). Take_cap t env m) early) (sys_init w)
      = Some (Inr ((sys_init w)\<lparr>sy_icd := (sy_icd (sys_init w))\<lparr>peerbases := bs, reboot_counter := of_nat (length bs)\<rparr>\<rparr>))"
    "length bs \<le> length early" by (auto simp: sys_init_def)
  then show ?thesis
    by (intro exI[of _ "length bs"]) (simp add: icd_boot_def pb_thread_init_def sys_init_def sys_init_from_def)
qed

theorem icd_forgets_early_caps_witness:
  "\<exists>n \<le> 1. icd_boot Unicast [(5, example_icd_env, example_cap)] [] example_world
     = Some (Inr (sys_init_from n example_world))"
  using icd_forgets_early_caps[OF example_inds_ok, of "[(5, example_icd_env, example_cap)]" Unicast "[]" example_world]
    example_acts_ok(1) by simp

end
