(* ===== verification/Iprp_Receiver.thy ===== *)
theory Iprp_Receiver
  imports Iprp_Session
begin

text \<open>
  The receiver's host over time, in the unicast variant: the packet threads and the rounds of the
  monitoring daemon (src/imd) and the rounds of the active senders routine of the control daemon
  (src/icd/activesenders.c), in any order, with the file between them.  The specification is the table of
  sessions and the set of links that were in it at the last round of the monitoring daemon.
\<close>

section \<open>State and steps\<close>

text \<open>A packet on one of the two queues of the IMD; a round of its active senders routine; a round of the
  ICD, with the memory of its counter and of its message.\<close>

datatype recv_act = Rx time_t imd_msg | Imd_round time_t | Cap_round time_t bytes bytes

record recv_sys =
  rs_senders :: "active_sender list"
  rs_fs :: fs

text \<open>A step, and the CAP messages it sends.\<close>

fun recv_step :: "host \<Rightarrow> nat \<Rightarrow> recv_act \<Rightarrow> recv_sys \<Rightarrow> (recv_sys \<times> (time_t \<times> (bytes \<times> sockaddr_in) list) list) result" where
  "recv_step h mem (Rx t m) s =
     and_then (imd_run Unicast [Event t m] (rs_senders s)) (\<lambda>(es, vds). Inr (s\<lparr>rs_senders := es\<rparr>, []))"
| "recv_step h mem (Imd_round t) s =
     and_then (imd_as_round Unicast mem t (rs_fs s) (rs_senders s)) (\<lambda>(f, es). Inr (\<lparr>rs_senders = es, rs_fs = f\<rparr>, []))"
| "recv_step h mem (Cap_round t c0 stack) s =
     and_then (icd_as_round Unicast h mem c0 stack t (rs_fs s) []) (\<lambda>(ds, sis). Inr (s, [(t, ds)]))"

fun recv_run :: "host \<Rightarrow> nat \<Rightarrow> recv_act list \<Rightarrow> recv_sys \<Rightarrow> (recv_sys \<times> (time_t \<times> (bytes \<times> sockaddr_in) list) list) result" where
  "recv_run h mem [] s = Inr (s, [])"
| "recv_run h mem (a # as) s =
     and_then (recv_step h mem a s) (\<lambda>(s1, out).
     and_then (recv_run h mem as s1) (\<lambda>(s2, outs). Inr (s2, out @ outs)))"

text \<open>The ICD empties the file when it starts; the list of the IMD is empty.\<close>

definition recv_start :: "int \<Rightarrow> fs \<Rightarrow> recv_sys result" where
  "recv_start sock f = and_then (icd_as_start Unicast sock f) (\<lambda>f'. Inr \<lparr>rs_senders = [], rs_fs = f'\<rparr>)"

section \<open>Specification\<close>

fun announced_run :: "recv_act list \<Rightarrow> sessions \<Rightarrow> as_link set \<Rightarrow> (time_t \<times> as_link set) list" where
  "announced_run [] m L = []"
| "announced_run (Rx t msg # as) m L =
     announced_run as (session_packet Unicast t (imd_mkey msg) (fst (snd msg)) m) L"
| "announced_run (Imd_round t # as) m L =
     announced_run as (session_expire t m) (dom (session_expire t m))"
| "announced_run (Cap_round t c0 stack # as) m L = (t, L) # announced_run as m L"

text \<open>CAP messages for exactly the links of a set, one each.\<close>

definition announce_links :: "host \<Rightarrow> as_link set \<Rightarrow> (bytes \<times> sockaddr_in) list \<Rightarrow> bool" where
  "announce_links h L ds \<longleftrightarrow> (\<exists>as. distinct (map as_key as) \<and> as_key ` set as = L \<and> list_all2 (announces Unicast h) as ds)"

definition recv_act_ok :: "recv_act \<Rightarrow> bool" where
  "recv_act_ok a = (case a of
     Rx t m \<Rightarrow> imd_msg_ok m \<and> time_ok t
   | Imd_round t \<Rightarrow> True
   | Cap_round t c0 stack \<Rightarrow> length c0 = 4 \<and> length stack = ctlmsg_size Unicast)"

fun is_rx :: "recv_act \<Rightarrow> bool" where
  "is_rx (Rx t m) = True" | "is_rx _ = False"

section \<open>What the steps keep\<close>

text \<open>The host can hold and write \<open>n\<close> entries.\<close>

definition recv_room :: "nat \<Rightarrow> fs \<Rightarrow> nat \<Rightarrow> bool" where
  "recv_room mem f n \<longleftrightarrow> n < 2147483648 \<and> n * as_size Unicast \<le> mem \<and> can_write f IPRP_AS_FILE
     \<and> 4 + n * as_size Unicast \<le> room f IPRP_AS_FILE"

definition recv_inv :: "nat \<Rightarrow> nat \<Rightarrow> recv_sys \<Rightarrow> as_link set \<Rightarrow> bool" where
  "recv_inv mem n s L \<longleftrightarrow> imd_inv Unicast (rs_senders s) \<and> recv_room mem (rs_fs s) (length (rs_senders s) + n)
     \<and> (\<exists>as. (\<forall>c0. length c0 = 4 \<longrightarrow> get_active_senders Unicast mem c0 (rs_fs s) = Inr as)
          \<and> distinct (map as_key as) \<and> as_key ` set as = L)"

lemma dom_sessions_of: "dom (sessions_of es) = as_key ` set es"
  by (force simp: sessions_of_map dom_map_of_conv_image_fst)

lemma length_dom_sessions: "imd_inv v es \<Longrightarrow> length es = card (dom (sessions_of es))"
  using distinct_card[of "map as_key es"] by (simp add: imd_inv_def dom_sessions_of)

lemma imd_as_round_fs:
  "imd_as_round v mem t f es = Inr (f', es') \<Longrightarrow> can_write f' = can_write f \<and> room f' = room f"
  by (auto simp: imd_as_round_def activesenders_store_def store_counted_def fopen_w_def fwrite_def Let_def
      and_then_eq_Inr split: option.splits if_splits prod.splits)

lemma recv_room_less: "recv_room mem f n \<Longrightarrow> k \<le> n \<Longrightarrow> recv_room mem f k"
proof -
  assume "recv_room mem f n" "k \<le> n"
  moreover from \<open>k \<le> n\<close> have "k * as_size Unicast \<le> n * as_size Unicast" by (rule mult_le_mono1)
  ultimately show ?thesis by (simp add: recv_room_def)
qed

lemma imd_round_listed:
  assumes "imd_inv Unicast es" and r0: "recv_room mem f (length es + n)"
  obtains f' es' where "imd_as_round Unicast mem t f es = Inr (f', es')" "imd_inv Unicast es'"
    "sessions_of es' = session_expire t (sessions_of es)" "length es' \<le> length es"
    "recv_room mem f' (length es' + n)"
    "\<forall>c0. length c0 = 4 \<longrightarrow> get_active_senders Unicast mem c0 f' = Inr es'"
proof -
  let ?es = "filter (\<lambda>e. t - as_last_seen e \<le> IMD_AS_TEXP) es"
  have sw: "sweep (aged as_last_seen IMD_AS_TEXP t) es = ?es" by (simp add: sweep_filter aged_def not_less)
  have r: "recv_room mem f (length es)" using recv_room_less[OF r0] by simp
  have get: "\<exists>f'. imd_as_round Unicast mem t f es = Inr (f', ?es) \<and> get_active_senders Unicast mem c0 f' = Inr ?es"
    if "length c0 = 4" for c0
  proof -
    from imd_round_file[OF assms(1) _ _ _ _ that, of mem f t] r obtain f' a where
      f: "imd_as_round Unicast mem t f es = Inr (f', ?es)"
        "activesenders_load Unicast mem IPRP_AS_FILE (Some c0) True f' = Inr (0, of_nat (length ?es), Some a)"
        "get_array (get_as Unicast) (as_size Unicast) (length ?es) 0 a = ?es"
      by (auto simp: recv_room_def)
    have "length ?es \<le> length es" by simp
    then have "length ?es < 2147483648" using r by (simp add: recv_room_def del: length_filter_le)
    with get_active_senders_file[OF _ this] f show ?thesis by (simp add: AS_FILE_def IPRP_AS_FILE_def)
  qed
  from get[of "[0, 0, 0, 0]"] obtain f' where f: "imd_as_round Unicast mem t f es = Inr (f', ?es)" by auto
  with get have "\<forall>c0. length c0 = 4 \<longrightarrow> get_active_senders Unicast mem c0 f' = Inr ?es" by fastforce
  moreover have "imd_inv Unicast ?es" "sessions_of ?es = session_expire t (sessions_of es)"
    using imd_inv_sweep[OF assms(1), of "aged as_last_seen IMD_AS_TEXP t"] sessions_of_sweep[of es t] assms(1)
    by (simp_all add: sw imd_inv_def)
  moreover have "recv_room mem f (length ?es + n)" using recv_room_less[OF r0, of "length ?es + n"] by simp
  then have "recv_room mem f' (length ?es + n)" using imd_as_round_fs[OF f] by (simp add: recv_room_def)
  ultimately show ?thesis using that f by simp
qed

lemma rx_step:
  assumes "imd_msg_ok m" and "time_ok t" and inv: "recv_inv mem (Suc n) s L"
  shows "\<exists>s'. recv_step h mem (Rx t m) s = Inr (s', []) \<and> recv_inv mem n s' L
    \<and> sessions_of (rs_senders s') = session_packet Unicast t (imd_mkey m) (fst (snd m)) (sessions_of (rs_senders s))"
proof -
  from inv have i: "imd_inv Unicast (rs_senders s)" by (simp add: recv_inv_def)
  from imd_run_session[OF i, of "[Event t m]"] assms(1,2) obtain es vds where
    r: "imd_run Unicast [Event t m] (rs_senders s) = Inr (es, vds)" "imd_inv Unicast es"
      "sessions_of es = session_packet Unicast t (imd_mkey m) (fst (snd m)) (sessions_of (rs_senders s))"
    by (auto simp: Let_def simp del: imd_run.simps)
  have "length es \<le> Suc (length (rs_senders s))"
    unfolding length_dom_sessions[OF i] length_dom_sessions[OF r(2)] r(3)
    by (simp add: session_packet_def card_insert_if dom_sessions_of)
  with inv r have "recv_inv mem n (s\<lparr>rs_senders := es\<rparr>) L"
    by (auto simp: recv_inv_def elim!: recv_room_less)
  with r show ?thesis by (simp del: imd_run.simps)
qed

lemma recv_run_announces:
  assumes h: "inds_ok h"
  shows "\<forall>a \<in> set as. recv_act_ok a \<Longrightarrow> recv_inv mem (length (filter is_rx as)) s L \<Longrightarrow>
   \<exists>s' outs. recv_run h mem as s = Inr (s', outs)
     \<and> list_all2 (\<lambda>(t, ds) (t', L'). t = t' \<and> announce_links h L' ds) outs (announced_run as (sessions_of (rs_senders s)) L)"
proof (induction as arbitrary: s L)
  case (Cons a as)
  show ?case
  proof (cases a)
    case (Rx t m)
    with rx_step[of m t mem "length (filter is_rx as)" s L h] Cons.prems obtain s1 where
      "recv_step h mem a s = Inr (s1, [])" "recv_inv mem (length (filter is_rx as)) s1 L"
      "sessions_of (rs_senders s1) = session_packet Unicast t (imd_mkey m) (fst (snd m)) (sessions_of (rs_senders s))"
      by (auto simp: recv_act_ok_def simp del: recv_step.simps)
    with Cons.IH[of s1 L] Cons.prems(1) Rx show ?thesis by (auto simp del: recv_step.simps)
  next
    case (Imd_round t)
    from Cons.prems(2) Imd_round have
      "imd_inv Unicast (rs_senders s)" "recv_room mem (rs_fs s) (length (rs_senders s) + length (filter is_rx as))"
      by (auto simp: recv_inv_def)
    from imd_round_listed[OF this, of t] obtain f' es' where
      r: "imd_as_round Unicast mem t (rs_fs s) (rs_senders s) = Inr (f', es')" "imd_inv Unicast es'"
        "sessions_of es' = session_expire t (sessions_of (rs_senders s))"
        "recv_room mem f' (length es' + length (filter is_rx as))"
        "\<forall>c0. length c0 = 4 \<longrightarrow> get_active_senders Unicast mem c0 f' = Inr es'" .
    let ?s = "\<lparr>rs_senders = es', rs_fs = f'\<rparr>"
    have "recv_inv mem (length (filter is_rx as)) ?s (dom (session_expire t (sessions_of (rs_senders s))))"
      using r dom_sessions_of[of es'] by (auto simp: recv_inv_def imd_inv_def)
    from Cons.IH[OF _ this] Cons.prems(1) r(1,3) Imd_round show ?thesis by auto
  next
    case (Cap_round t c0 stack)
    with Cons.prems have c: "length c0 = 4" "length stack = ctlmsg_size Unicast" by (auto simp: recv_act_ok_def)
    from Cons.prems(2) c(1) obtain es where
      es: "get_active_senders Unicast mem c0 (rs_fs s) = Inr es" "distinct (map as_key es)" "as_key ` set es = L"
      by (auto simp: recv_inv_def)
    from as_loop_unicast[OF h c(2), of t es "[]"] obtain ds where
      ds: "as_loop Unicast h stack t es [] = Inr (ds, [])"
      "list_all2 (\<lambda>a d. send_cap Unicast h stack a = Inr d \<and> announces Unicast h a d) es ds" by blast
    from ds(2) have "list_all2 (announces Unicast h) es ds" by (auto elim!: list_all2_mono)
    with es(2,3) have "announce_links h L ds" by (auto simp: announce_links_def)
    with Cons.IH[of s L] Cons.prems Cap_round es(1) ds(1) show ?thesis by (auto simp: icd_as_round_def)
  qed
qed simp

lemma recv_start_inv:
  assumes "sock \<noteq> -1" and "recv_room mem f n"
  shows "\<exists>s. recv_start sock f = Inr s \<and> rs_senders s = [] \<and> recv_inv mem n s {}"
proof -
  from assms(2) have w: "can_write f AS_FILE" "4 \<le> room f AS_FILE"
    by (simp_all add: recv_room_def AS_FILE_def IPRP_AS_FILE_def)
  let ?f = "f\<lparr>files := (files f)(AS_FILE \<mapsto> le32 0)\<rparr>"
  have "icd_as_start Unicast sock f = Inr ?f"
    using assms(1) w by (simp add: icd_as_start_def icd_as_init_def activesenders_store_def store_counted_def
        fopen_w_def fwrite_def Let_def)
  moreover have "get_active_senders Unicast mem c0 ?f = Inr []" if "length c0 = 4" for c0
  proof -
    have "files ?f AS_FILE = Some (le32 (of_nat 0) @ [])" by simp
    from load_counted_file[OF this, of "as_size Unicast" mem c0] that
    have "activesenders_load Unicast mem AS_FILE (Some c0) True ?f = Inr (0, of_nat 0, Some [])"
      by (simp add: activesenders_load_def)
    from get_active_senders_file[OF this] show ?thesis by simp
  qed
  ultimately show ?thesis using assms(2) by (simp add: recv_start_def recv_inv_def imd_inv_def recv_room_def)
qed

section \<open>A sender that keeps sending\<close>

text \<open>No round of the IMD finds the link silent for more than the limit; its last packet before was at
  \<open>t0\<close>.\<close>

fun heard_in_time :: "as_link \<Rightarrow> time_t \<Rightarrow> recv_act list \<Rightarrow> bool" where
  "heard_in_time k t0 [] = True"
| "heard_in_time k t0 (Rx t m # as) = heard_in_time k (if imd_mkey m = k then t else t0) as"
| "heard_in_time k t0 (Imd_round t # as) = (t - t0 \<le> IMD_AS_TEXP \<and> heard_in_time k t0 as)"
| "heard_in_time k t0 (Cap_round t c0 stack # as) = heard_in_time k t0 as"

fun cap_times :: "recv_act list \<Rightarrow> time_t list" where
  "cap_times [] = []"
| "cap_times (Cap_round t c0 stack # as) = t # cap_times as"
| "cap_times (a # as) = cap_times as"

lemma map_fst_announced: "map fst (announced_run as m L) = cap_times as"
  by (induction as m L rule: announced_run.induct) simp_all

lemma announced_run_append: "\<exists>m' L'. announced_run (as @ bs) m L = announced_run as m L @ announced_run bs m' L'"
  by (induction as m L rule: announced_run.induct) auto

lemma announced_while_heard:
  "heard_in_time k t0 as \<Longrightarrow> m k = Some (t0, e) \<Longrightarrow> k \<in> L \<Longrightarrow> p \<in> set (announced_run as m L) \<Longrightarrow> k \<in> snd p"
proof (induction as m L arbitrary: t0 e rule: announced_run.induct)
  case (2 t msg as m L)
  let ?m = "session_packet Unicast t (imd_mkey msg) (fst (snd msg)) m"
  obtain e' where "?m k = Some (if imd_mkey msg = k then t else t0, e')"
    using 2(3) by (cases "imd_mkey msg = k") (auto simp: session_packet_def)
  with 2 show ?case by simp
next
  case (3 t as m L)
  then have "session_expire t m k = Some (t0, e)" by (simp add: session_expire_def)
  with 3 show ?case by auto
qed auto

section \<open>Properties\<close>


definition example_cap_round :: "time_t \<Rightarrow> recv_act" where
  "example_cap_round t = Cap_round t [0, 0, 0, 0] (replicate 168 0)"

lemma example_recv_ok:
  "recv_act_ok (Rx 5 (example_imd_msg False))" "recv_act_ok (Imd_round t)" "recv_act_ok (example_cap_round t)"
  "\<not> is_rx (example_cap_round t)" "recv_room 1000 example_fs 1" "cap_times [example_cap_round t] = [t]"
  by (simp_all add: recv_act_ok_def example_cap_round_def example_imd_ok time_ok_def recv_room_def example_fs_def)




end
