(* ===== verification/Iprp_Ird_Si.thy ===== *)
theory Iprp_Ird_Si
  imports Iprp_Files
begin

text \<open>
  The source memberships of the receiving daemon (src/ird/senderifaces.c, multicast only): the
  cached sender interfaces, the comparison with the file of the control daemon, and the requests to
  join or leave a group from a source on an interface.  The kernel that answers the requests is a
  parameter: \<open>opt add m k\<close> is its state after the request, or \<open>None\<close> when it fails.
\<close>

section \<open>Memberships\<close>

text \<open>A membership: group, local interface, source.\<close>

type_synonym member = "in_addr \<times> in_addr \<times> in_addr"
type_synonym 'k socket_opt = "bool \<Rightarrow> member \<Rightarrow> 'k \<Rightarrow> 'k option"

definition membership :: "'k socket_opt \<Rightarrow> in_addr \<Rightarrow> in_addr \<Rightarrow> in_addr \<Rightarrow> bool \<Rightarrow> 'k \<Rightarrow> 'k result" where
  "membership opt grp src local_if add k = (case opt add (grp, local_if, src) k of
     None \<Rightarrow> Inl (Err ''Unable to subscribe to SSM group'') | Some k' \<Rightarrow> Inr k')"

text \<open>The loops run over \<open>int\<close> indices up to the signed count of interfaces.\<close>

definition si_count :: "sender_ifaces \<Rightarrow> nat" where
  "si_count s = nat (sint (si_nb_ifaces s))"

fun find_addr_loop :: "in_addr \<Rightarrow> iface list \<Rightarrow> nat \<Rightarrow> nat \<Rightarrow> bool result" where
  "find_addr_loop a fs i 0 = Inr False"
| "find_addr_loop a fs i (Suc n) =
     (if \<not> i < length fs then Inl OutOfBounds
      else if if_addr (fs ! i) = a then Inr True else find_addr_loop a fs (Suc i) n)"

definition find_addr_in_sender :: "in_addr \<Rightarrow> sender_ifaces \<Rightarrow> bool result" where
  "find_addr_in_sender a s = find_addr_loop a (si_ifaces s) 0 (si_count s)"

text \<open>Request the membership of each interface the test does not leave out.\<close>

fun member_loop ::
  "'k socket_opt \<Rightarrow> bool \<Rightarrow> sender_ifaces \<Rightarrow> (in_addr \<Rightarrow> bool result) \<Rightarrow> nat \<Rightarrow> nat \<Rightarrow> 'k \<Rightarrow> 'k result" where
  "member_loop opt add s skip i 0 k = Inr k"
| "member_loop opt add s skip i (Suc n) k =
     (if \<not> i < length (si_ifaces s) then Inl OutOfBounds
      else let a = if_addr (si_ifaces s ! i)
           in and_then (skip a) (\<lambda>sk.
              if sk then member_loop opt add s skip (Suc i) n k
              else if \<not> i < length (si_host_addr s) then Inl OutOfBounds
              else and_then (membership opt (si_group_addr s) a (si_host_addr s ! i) add k) (\<lambda>k'.
                   member_loop opt add s skip (Suc i) n k')))"

definition add_memberships :: "'k socket_opt \<Rightarrow> sender_ifaces \<Rightarrow> 'k \<Rightarrow> 'k result" where
  "add_memberships opt s k = member_loop opt True s (\<lambda>a. Inr False) 0 (si_count s) k"

definition drop_memberships :: "'k socket_opt \<Rightarrow> sender_ifaces \<Rightarrow> 'k \<Rightarrow> 'k result" where
  "drop_memberships opt s k = member_loop opt False s (\<lambda>a. Inr False) 0 (si_count s) k"

definition update_memberships :: "'k socket_opt \<Rightarrow> sender_ifaces \<Rightarrow> sender_ifaces \<Rightarrow> 'k \<Rightarrow> 'k result" where
  "update_memberships opt old new k =
     and_then (member_loop opt False old (\<lambda>a. find_addr_in_sender a new) 0 (si_count old) k) (\<lambda>k1.
     member_loop opt True new (\<lambda>a. find_addr_in_sender a old) 0 (si_count new) k1)"

section \<open>The routine\<close>

definition find_si_in_array :: "sender_ifaces \<Rightarrow> sender_ifaces list \<Rightarrow> nat option" where
  "find_si_in_array s arr =
     find_idx (\<lambda>x. si_sender_addr s = si_sender_addr x \<and> si_group_addr s = si_group_addr x) arr"

definition find_si_in_list :: "sender_ifaces \<Rightarrow> sender_ifaces list \<Rightarrow> bool" where
  "find_si_in_list s xs =
     (find_idx (\<lambda>x. si_sender_addr x = si_sender_addr s \<and> si_group_addr x = si_group_addr s) xs \<noteq> None)"

text \<open>The cached entry of a sender that is still in the file stays as it is.\<close>

fun drop_phase ::
  "'k socket_opt \<Rightarrow> sender_ifaces list \<Rightarrow> sender_ifaces list \<Rightarrow> 'k \<Rightarrow> (sender_ifaces list \<times> 'k) result" where
  "drop_phase opt new [] k = Inr ([], k)"
| "drop_phase opt new (s # ss) k = (case find_si_in_array s new of
     None \<Rightarrow> and_then (drop_memberships opt s k) (\<lambda>k'. drop_phase opt new ss k')
   | Some i \<Rightarrow> and_then (update_memberships opt s (new ! i) k) (\<lambda>k'.
        and_then (drop_phase opt new ss k') (\<lambda>(ss', k''). Inr (s # ss', k''))))"

text \<open>\<open>mem\<close> is whether the copy of the entry and \<open>node\<close> whether its list element can be
  allocated; the first is not tested.\<close>

fun add_phase ::
  "'k socket_opt \<Rightarrow> bool \<Rightarrow> bool \<Rightarrow> sender_ifaces list \<Rightarrow> sender_ifaces list \<Rightarrow> 'k \<Rightarrow> (sender_ifaces list \<times> 'k) result" where
  "add_phase opt mem node [] xs k = Inr (xs, k)"
| "add_phase opt mem node (s # ss) xs k =
     (if \<not> find_si_in_list s xs
      then if \<not> mem then Inl NullDeref
           else if \<not> node then Inl (Err ''Unable to allocate list element'')
           else and_then (add_memberships opt s k) (\<lambda>k'. add_phase opt mem node ss (xs @ [s]) k')
      else add_phase opt mem node ss xs k)"

text \<open>The entries of the file; the counter starts as stack memory.\<close>

definition read_senders :: "nat \<Rightarrow> string \<Rightarrow> bytes \<Rightarrow> fs \<Rightarrow> sender_ifaces list result" where
  "read_senders mem path count0 f =
     and_then (senderifaces_load mem path (Some count0) True f) (\<lambda>(err, count, senders).
     if err \<noteq> 0 then Inl (Err ''Unable to retrieve sender interfaces'')
     else if sint count \<le> 0 then Inr []
     else (case senders of
         None \<Rightarrow> Inl NullDeref
       | Some a \<Rightarrow> Inr (get_array get_si si_size (unat count) 0 a)))"

definition ird_si_round ::
  "'k socket_opt \<Rightarrow> nat \<Rightarrow> bool \<Rightarrow> bool \<Rightarrow> bytes \<Rightarrow> fs \<Rightarrow> sender_ifaces list \<Rightarrow> 'k
   \<Rightarrow> (sender_ifaces list \<times> 'k) result" where
  "ird_si_round opt mem alloc node count0 f xs k =
     and_then (read_senders mem ''files/senderifaces.iprp'' count0 f) (\<lambda>new.
     and_then (drop_phase opt new xs k) (\<lambda>(xs1, k1).
     add_phase opt alloc node new xs1 k1))"

text \<open>The thread: the socket, the empty list, and rounds, each with its memory and the files it finds.  The
  result is the state after each round.\<close>

type_synonym si_tick = "nat \<times> bool \<times> bool \<times> bytes \<times> fs"

fun ird_si_rounds ::
  "'k socket_opt \<Rightarrow> si_tick list \<Rightarrow> sender_ifaces list \<Rightarrow> 'k \<Rightarrow> (sender_ifaces list \<times> 'k) list result" where
  "ird_si_rounds opt [] xs k = Inr []"
| "ird_si_rounds opt ((mem, alloc, node, count0, f) # rs) xs k =
     and_then (ird_si_round opt mem alloc node count0 f xs k) (\<lambda>(xs1, k1).
     and_then (ird_si_rounds opt rs xs1 k1) (\<lambda>ss. Inr ((xs1, k1) # ss)))"

definition ird_si_routine ::
  "'k socket_opt \<Rightarrow> int \<Rightarrow> si_tick list \<Rightarrow> 'k \<Rightarrow> (sender_ifaces list \<times> 'k) list result" where
  "ird_si_routine opt sock rs k =
     (if sock = -1 then Inl (Err ''Unable to create socket'') else ird_si_rounds opt rs [] k)"

section \<open>The kernel\<close>

text \<open>
  What the kernel promises (ip(7)): a join of a membership that is held, or a leave of one that is
  not, fails; otherwise exactly that membership changes.
\<close>

definition ssm_kernel :: "'k socket_opt \<Rightarrow> ('k \<Rightarrow> member set) \<Rightarrow> bool" where
  "ssm_kernel opt held \<longleftrightarrow> (\<forall>m k.
     (if m \<in> held k then opt True m k = None
      else \<exists>k'. opt True m k = Some k' \<and> held k' = insert m (held k))
     \<and> (if m \<in> held k then \<exists>k'. opt False m k = Some k' \<and> held k' = held k - {m}
        else opt False m k = None))"

definition set_opt :: "member set socket_opt" where
  "set_opt add m k = (if add then if m \<in> k then None else Some (insert m k)
     else if m \<in> k then Some (k - {m}) else None)"

lemma set_opt_kernel: "ssm_kernel set_opt id"
  by (auto simp: ssm_kernel_def set_opt_def)

section \<open>Facts\<close>

text \<open>An entry whose count fits its arrays, and the memberships it stands for.\<close>

definition si_fits :: "sender_ifaces \<Rightarrow> bool" where
  "si_fits s \<longleftrightarrow> si_count s \<le> length (si_ifaces s) \<and> si_count s \<le> length (si_host_addr s)"

definition triple :: "sender_ifaces \<Rightarrow> nat \<Rightarrow> member" where
  "triple s i = (si_group_addr s, si_host_addr s ! i, if_addr (si_ifaces s ! i))"

definition triples :: "sender_ifaces \<Rightarrow> member list" where
  "triples s = map (triple s) [0..<si_count s]"

fun si_id :: "sender_ifaces \<Rightarrow> in_addr \<times> in_addr" where
  "si_id s = (si_sender_addr s, si_group_addr s)"

declare si_id.simps [simp del]

lemma ex_interval_Suc:
  "(\<exists>j \<ge> i. j < i + Suc n \<and> P j) \<longleftrightarrow> P i \<or> (\<exists>j \<ge> Suc i. j < Suc i + n \<and> P j)"
proof
  assume "\<exists>j \<ge> i. j < i + Suc n \<and> P j"
  then obtain j where "i \<le> j" "j < i + Suc n" "P j" by blast
  then show "P i \<or> (\<exists>j \<ge> Suc i. j < Suc i + n \<and> P j)" by (cases "j = i") auto
next
  assume "P i \<or> (\<exists>j \<ge> Suc i. j < Suc i + n \<and> P j)"
  then show "\<exists>j \<ge> i. j < i + Suc n \<and> P j"
  proof
    assume "P i"
    then show ?thesis by (intro exI[of _ i]) simp
  next
    assume "\<exists>j \<ge> Suc i. j < Suc i + n \<and> P j"
    then obtain j where "Suc i \<le> j" "j < Suc i + n" "P j" by blast
    then show ?thesis by (intro exI[of _ j]) simp
  qed
qed

lemma find_addr_loop_found:
  "i + n \<le> length fs \<Longrightarrow> find_addr_loop a fs i n = Inr (\<exists>j \<ge> i. j < i + n \<and> if_addr (fs ! j) = a)"
proof (induction n arbitrary: i)
  case (Suc n)
  show ?case unfolding ex_interval_Suc using Suc by simp
qed simp

lemma find_addr_in_sender_found:
  "si_fits s \<Longrightarrow> find_addr_in_sender a s = Inr (\<exists>j < si_count s. if_addr (si_ifaces s ! j) = a)"
  by (simp add: find_addr_in_sender_def si_fits_def find_addr_loop_found)

lemma member_loop_skip:
  "i + n \<le> length (si_ifaces s) \<Longrightarrow> \<forall>j. i \<le> j \<and> j < i + n \<longrightarrow> skip (if_addr (si_ifaces s ! j)) = Inr True \<Longrightarrow>
   member_loop opt add s skip i n k = Inr k"
  by (induction n arbitrary: i) (auto simp: Let_def)

lemma member_loop_add:
  assumes "ssm_kernel opt held"
  shows "i + n \<le> length (si_ifaces s) \<Longrightarrow> i + n \<le> length (si_host_addr s) \<Longrightarrow>
    distinct (map (triple s) [i..<i + n]) \<Longrightarrow> set (map (triple s) [i..<i + n]) \<inter> held k = {} \<Longrightarrow>
    \<exists>k'. member_loop opt True s (\<lambda>a. Inr False) i n k = Inr k'
      \<and> held k' = held k \<union> set (map (triple s) [i..<i + n])"
proof (induction n arbitrary: i k)
  case (Suc n)
  have u: "[i..<i + Suc n] = i # [Suc i..<Suc i + n]" using upt_conv_Cons[of i "i + Suc n"] by simp
  have "triple s i \<notin> held k" using Suc.prems(4) unfolding u by auto
  then obtain k1 where k1: "opt True (triple s i) k = Some k1" "held k1 = insert (triple s i) (held k)"
    using assms unfolding ssm_kernel_def by metis
  have "set (map (triple s) [Suc i..<Suc i + n]) \<inter> held k1 = {}"
    using Suc.prems(3,4) k1(2) unfolding u by auto
  with Suc.IH[of "Suc i" k1] Suc.prems(1-3) obtain k' where
    "member_loop opt True s (\<lambda>a. Inr False) (Suc i) n k1 = Inr k'"
    "held k' = held k1 \<union> set (map (triple s) [Suc i..<Suc i + n])" unfolding u by auto
  with k1 Suc.prems(1,2) show ?case unfolding u by (auto simp: membership_def triple_def Let_def)
qed simp

lemma member_loop_drop:
  assumes "ssm_kernel opt held"
  shows "i + n \<le> length (si_ifaces s) \<Longrightarrow> i + n \<le> length (si_host_addr s) \<Longrightarrow>
    distinct (map (triple s) [i..<i + n]) \<Longrightarrow> set (map (triple s) [i..<i + n]) \<subseteq> held k \<Longrightarrow>
    \<exists>k'. member_loop opt False s (\<lambda>a. Inr False) i n k = Inr k'
      \<and> held k' = held k - set (map (triple s) [i..<i + n])"
proof (induction n arbitrary: i k)
  case (Suc n)
  have u: "[i..<i + Suc n] = i # [Suc i..<Suc i + n]" using upt_conv_Cons[of i "i + Suc n"] by simp
  have "triple s i \<in> held k" using Suc.prems(4) unfolding u by auto
  then obtain k1 where k1: "opt False (triple s i) k = Some k1" "held k1 = held k - {triple s i}"
    using assms unfolding ssm_kernel_def by metis
  have "set (map (triple s) [Suc i..<Suc i + n]) \<subseteq> held k1"
    using Suc.prems(3,4) k1(2) unfolding u by auto
  with Suc.IH[of "Suc i" k1] Suc.prems(1-3) obtain k' where
    "member_loop opt False s (\<lambda>a. Inr False) (Suc i) n k1 = Inr k'"
    "held k' = held k1 - set (map (triple s) [Suc i..<Suc i + n])" unfolding u by auto
  with k1 Suc.prems(1,2) show ?case unfolding u by (auto simp: membership_def triple_def Let_def)
qed simp

lemma add_memberships_ok:
  "ssm_kernel opt held \<Longrightarrow> si_fits s \<Longrightarrow> distinct (triples s) \<Longrightarrow> set (triples s) \<inter> held k = {} \<Longrightarrow>
   \<exists>k'. add_memberships opt s k = Inr k' \<and> held k' = held k \<union> set (triples s)"
  using member_loop_add[of opt held 0 "si_count s" s k]
  by (simp add: add_memberships_def si_fits_def triples_def)

lemma drop_memberships_ok:
  "ssm_kernel opt held \<Longrightarrow> si_fits s \<Longrightarrow> distinct (triples s) \<Longrightarrow> set (triples s) \<subseteq> held k \<Longrightarrow>
   \<exists>k'. drop_memberships opt s k = Inr k' \<and> held k' = held k - set (triples s)"
  using member_loop_drop[of opt held 0 "si_count s" s k]
  by (simp add: drop_memberships_def si_fits_def triples_def)

text \<open>An entry that did not change requests nothing.\<close>

lemma update_memberships_same:
  assumes "si_fits s" and "si_fits s'" and "triples s = triples s'"
  shows "update_memberships opt s s' k = Inr k"
proof -
  have n: "si_count s = si_count s'" using arg_cong[OF assms(3), of length] by (simp add: triples_def)
  have t: "if_addr (si_ifaces s ! j) = if_addr (si_ifaces s' ! j)" if "j < si_count s" for j
    using arg_cong[OF assms(3), of "\<lambda>xs. xs ! j"] that n by (simp add: triples_def triple_def)
  have "find_addr_in_sender (if_addr (si_ifaces s ! j)) s' = Inr True" if "j < si_count s" for j
    using find_addr_in_sender_found[OF assms(2)] t[OF that] that n by auto
  moreover have "find_addr_in_sender (if_addr (si_ifaces s' ! j)) s = Inr True" if "j < si_count s'" for j
    using find_addr_in_sender_found[OF assms(1)] t[of j] that n by auto
  ultimately show ?thesis using assms(1,2)
    by (simp add: update_memberships_def member_loop_skip si_fits_def)
qed

lemma find_si_in_array_id: "find_si_in_array s arr = find_idx (\<lambda>x. si_id x = si_id s) arr"
proof -
  have "(\<lambda>x. si_sender_addr s = si_sender_addr x \<and> si_group_addr s = si_group_addr x) = (\<lambda>x. si_id x = si_id s)"
    by (auto simp: si_id.simps fun_eq_iff)
  then show ?thesis by (simp add: find_si_in_array_def)
qed

lemma find_si_in_list_id: "find_si_in_list s xs \<longleftrightarrow> si_id s \<in> si_id ` set xs"
proof -
  have "(\<lambda>x. si_sender_addr x = si_sender_addr s \<and> si_group_addr x = si_group_addr s) = (\<lambda>x. si_id x = si_id s)"
    by (auto simp: si_id.simps fun_eq_iff)
  then have "find_si_in_list s xs \<longleftrightarrow> find_idx (\<lambda>x. si_id x = si_id s) xs \<noteq> None"
    by (simp add: find_si_in_list_def)
  also have "\<dots> \<longleftrightarrow> (\<exists>x \<in> set xs. si_id x = si_id s)"
    unfolding find_idx_None by simp
  also have "\<dots> \<longleftrightarrow> si_id s \<in> si_id ` set xs" unfolding image_iff by (rule bex_cong) auto
  finally show ?thesis .
qed

section \<open>The phases of a round\<close>

definition all_triples :: "sender_ifaces list \<Rightarrow> member list" where
  "all_triples xs = concat (map triples xs)"

lemma all_triples_simps [simp]:
  "all_triples [] = []" "all_triples (x # xs) = triples x @ all_triples xs"
  "all_triples (xs @ ys) = all_triples xs @ all_triples ys"
  by (simp_all add: all_triples_def)

text \<open>Entries of the file and of the cache agree where they name the same sender and group.\<close>

definition agree :: "sender_ifaces list \<Rightarrow> sender_ifaces list \<Rightarrow> bool" where
  "agree xs ys \<longleftrightarrow> (\<forall>x \<in> set xs. \<forall>y \<in> set ys. si_id x = si_id y \<longrightarrow> triples x = triples y)"

lemma drop_phase_ok:
  assumes K: "ssm_kernel opt held"
  shows "\<forall>x \<in> set xs \<union> set new. si_fits x \<Longrightarrow> agree xs new \<Longrightarrow> distinct (all_triples xs) \<Longrightarrow>
    set (all_triples xs) \<subseteq> held k \<Longrightarrow>
    \<exists>k'. drop_phase opt new xs k = Inr (filter (\<lambda>x. si_id x \<in> si_id ` set new) xs, k')
      \<and> held k' = held k - set (all_triples (filter (\<lambda>x. si_id x \<notin> si_id ` set new) xs))"
proof (induction xs arbitrary: k)
  case Nil
  then show ?case by simp
next
  case (Cons x xs)
  have ag: "agree xs new" using Cons.prems(2) by (simp add: agree_def)
  show ?case
  proof (cases "find_si_in_array x new")
    case None
    then have no: "si_id x \<notin> si_id ` set new"
      by (auto simp: find_si_in_array_id find_idx_None)
    from drop_memberships_ok[OF K, of x k] Cons.prems obtain k1 where
      k1: "drop_memberships opt x k = Inr k1" "held k1 = held k - set (triples x)" by auto
    have "set (all_triples xs) \<subseteq> held k1" using Cons.prems(3,4) k1(2) by auto
    with Cons.IH[OF _ ag, of k1] Cons.prems(1,3) obtain k' where
      "drop_phase opt new xs k1 = Inr (filter (\<lambda>x. si_id x \<in> si_id ` set new) xs, k')"
      "held k' = held k1 - set (all_triples (filter (\<lambda>x. si_id x \<notin> si_id ` set new) xs))" by auto
    with None no k1 show ?thesis by auto
  next
    case (Some i)
    from find_idx_Some[OF Some[unfolded find_si_in_array_id]] have
      i: "new ! i \<in> set new" "si_id (new ! i) = si_id x" by auto
    then have yes: "si_id x \<in> si_id ` set new" by (metis imageI)
    have "triples x = triples (new ! i)" using Cons.prems(2) i by (simp add: agree_def)
    with Cons.prems(1) i(1) have u: "update_memberships opt x (new ! i) k = Inr k"
      by (intro update_memberships_same) auto
    from Cons.IH[OF _ ag, of k] Cons.prems(1,3,4) obtain k' where
      "drop_phase opt new xs k = Inr (filter (\<lambda>x. si_id x \<in> si_id ` set new) xs, k')"
      "held k' = held k - set (all_triples (filter (\<lambda>x. si_id x \<notin> si_id ` set new) xs))" by auto
    with Some yes u show ?thesis by auto
  qed
qed

lemma add_phase_ok:
  assumes K: "ssm_kernel opt held"
  shows "\<forall>y \<in> set ys. si_fits y \<Longrightarrow> distinct (map si_id ys) \<Longrightarrow>
    distinct (all_triples (filter (\<lambda>y. si_id y \<notin> si_id ` set xs) ys)) \<Longrightarrow>
    set (all_triples (filter (\<lambda>y. si_id y \<notin> si_id ` set xs) ys)) \<inter> held k = {} \<Longrightarrow>
    \<exists>k'. add_phase opt True True ys xs k = Inr (xs @ filter (\<lambda>y. si_id y \<notin> si_id ` set xs) ys, k')
      \<and> held k' = held k \<union> set (all_triples (filter (\<lambda>y. si_id y \<notin> si_id ` set xs) ys))"
proof (induction ys arbitrary: xs k)
  case Nil
  then show ?case by simp
next
  case (Cons y ys)
  show ?case
  proof (cases "si_id y \<in> si_id ` set xs")
    case True
    with Cons show ?thesis by (auto simp: find_si_in_list_id)
  next
    case False
    then have e: "filter (\<lambda>z. si_id z \<notin> si_id ` set xs) (y # ys)
        = y # filter (\<lambda>z. si_id z \<notin> si_id ` set xs) ys" by simp
    have f: "filter (\<lambda>z. si_id z \<notin> si_id ` set (xs @ [y])) ys = filter (\<lambda>z. si_id z \<notin> si_id ` set xs) ys"
      using Cons.prems(2) by (intro filter_cong) (force simp: image_iff)+
    from add_memberships_ok[OF K, of y k] Cons.prems(1,3,4) obtain k1 where
      k1: "add_memberships opt y k = Inr k1" "held k1 = held k \<union> set (triples y)" unfolding e by auto
    have "distinct (all_triples (filter (\<lambda>z. si_id z \<notin> si_id ` set (xs @ [y])) ys))"
      "set (all_triples (filter (\<lambda>z. si_id z \<notin> si_id ` set (xs @ [y])) ys)) \<inter> held k1 = {}"
      using Cons.prems(3,4) k1(2) unfolding e f by auto
    with Cons.IH[of "xs @ [y]" k1] Cons.prems(1,2) obtain k' where
      "add_phase opt True True ys (xs @ [y]) k1
        = Inr ((xs @ [y]) @ filter (\<lambda>z. si_id z \<notin> si_id ` set (xs @ [y])) ys, k')"
      "held k' = held k1 \<union> set (all_triples (filter (\<lambda>z. si_id z \<notin> si_id ` set (xs @ [y])) ys))" by auto
    with False k1 show ?thesis unfolding e f by (auto simp: find_si_in_list_id)
  qed
qed

lemma set_all_triples: "set (all_triples xs) = (\<Union>x \<in> set xs. set (triples x))"
  by (simp add: all_triples_def)

lemma distinct_all_triples_filter: "distinct (all_triples xs) \<Longrightarrow> distinct (all_triples (filter P xs))"
  by (induction xs) (auto simp: set_all_triples)

lemma distinct_all_triples_disjoint:
  "distinct (all_triples xs) \<Longrightarrow> x \<in> set xs \<Longrightarrow> y \<in> set xs \<Longrightarrow> x \<noteq> y \<Longrightarrow> set (triples x) \<inter> set (triples y) = {}"
  by (induction xs) (auto simp: set_all_triples)

text \<open>The kept entries and the new ones: they have the memberships of the file, without overlap.\<close>

lemma kept_fresh:
  fixes xs new :: "sender_ifaces list"
  defines "kept \<equiv> filter (\<lambda>x. si_id x \<in> si_id ` set new) xs"
  defines "fresh \<equiv> filter (\<lambda>y. si_id y \<notin> si_id ` set kept) new"
  assumes "agree xs new"
  shows "set (all_triples kept) \<union> set (all_triples fresh) = set (all_triples new)"
    and "distinct (all_triples new) \<Longrightarrow> set (all_triples fresh) \<inter> set (all_triples kept) = {}"
proof -
  have old: "\<exists>y \<in> set new. si_id y = si_id x \<and> triples y = triples x" if "x \<in> set kept" for x
    using that assms(3) unfolding agree_def kept_def by fastforce
  have "\<exists>x \<in> set kept. si_id x = si_id y \<and> triples x = triples y" if "y \<in> set new" "y \<notin> set fresh" for y
    using that assms(3) unfolding agree_def fresh_def kept_def by force
  then have new: "m \<in> set (all_triples new) \<Longrightarrow> m \<in> set (all_triples kept) \<or> m \<in> set (all_triples fresh)" for m
    unfolding set_all_triples by fastforce
  have "m \<in> set (all_triples kept) \<Longrightarrow> m \<in> set (all_triples new)" for m
    using old unfolding set_all_triples by fastforce
  moreover have "m \<in> set (all_triples fresh) \<Longrightarrow> m \<in> set (all_triples new)" for m
    unfolding set_all_triples fresh_def by auto
  ultimately show "set (all_triples kept) \<union> set (all_triples fresh) = set (all_triples new)"
    using new by blast
  assume dist: "distinct (all_triples new)"
  show "set (all_triples fresh) \<inter> set (all_triples kept) = {}"
  proof (rule ccontr)
    assume "set (all_triples fresh) \<inter> set (all_triples kept) \<noteq> {}"
    then obtain m x y where m: "m \<in> set (triples y)" "y \<in> set fresh" "x \<in> set kept" "m \<in> set (triples x)"
      unfolding set_all_triples by blast
    from old[OF m(3)] obtain z where z: "z \<in> set new" "si_id z = si_id x" "triples z = triples x" by blast
    have "z \<noteq> y" using m(2,3) z(2) by (auto simp: fresh_def)
    with distinct_all_triples_disjoint[OF dist z(1), of y] m z(3) show False by (auto simp: fresh_def)
  qed
qed

lemma kept_fresh_ids:
  "si_id ` set (filter (\<lambda>x. si_id x \<in> si_id ` set new) xs
      @ filter (\<lambda>y. si_id y \<notin> si_id ` set (filter (\<lambda>x. si_id x \<in> si_id ` set new) xs)) new) = si_id ` set new"
  (is "si_id ` set (?kept @ ?fresh) = _")
proof
  show "si_id ` set new \<subseteq> si_id ` set (?kept @ ?fresh)"
  proof
    fix i assume "i \<in> si_id ` set new"
    then obtain y where "y \<in> set new" "i = si_id y" by blast
    then show "i \<in> si_id ` set (?kept @ ?fresh)"
      by (cases "si_id y \<in> si_id ` set ?kept") (auto intro: imageI)
  qed
qed auto

lemma si_round_follows:
  assumes "ssm_kernel opt held" and "read_senders mem ''files/senderifaces.iprp'' c0 f = Inr new"
    and "\<forall>x \<in> set xs \<union> set new. si_fits x" and "agree xs new"
    and "distinct (all_triples xs)" and "held k = set (all_triples xs)"
    and "distinct (map si_id new)" and "distinct (all_triples new)"
  shows "\<exists>xs' k'. ird_si_round opt mem True True c0 f xs k = Inr (xs', k')
    \<and> si_id ` set xs' = si_id ` set new \<and> held k' = set (all_triples new)
    \<and> set xs' \<subseteq> set xs \<union> set new \<and> distinct (all_triples xs') \<and> held k' = set (all_triples xs')"
proof -
  let ?kept = "filter (\<lambda>x. si_id x \<in> si_id ` set new) xs"
  let ?gone = "filter (\<lambda>x. si_id x \<notin> si_id ` set new) xs"
  let ?fresh = "filter (\<lambda>y. si_id y \<notin> si_id ` set ?kept) new"
  from drop_phase_ok[OF assms(1,3,4,5), of k] assms(6) obtain k1 where
    d: "drop_phase opt new xs k = Inr (?kept, k1)" "held k1 = set (all_triples xs) - set (all_triples ?gone)" by auto
  have "set (all_triples ?kept) \<inter> set (all_triples ?gone) = {}"
    using distinct_all_triples_disjoint[OF assms(5)] by (fastforce simp: set_all_triples)
  then have h1: "held k1 = set (all_triples ?kept)" unfolding d(2) by (auto simp: set_all_triples)
  from kept_fresh(2)[OF assms(4,8)] h1 have disj: "set (all_triples ?fresh) \<inter> held k1 = {}" by simp
  have fits: "\<forall>y \<in> set new. si_fits y" using assms(3) by simp
  from add_phase_ok[OF assms(1) fits assms(7) distinct_all_triples_filter[OF assms(8)] disj] obtain k2 where
    a: "add_phase opt True True new ?kept k1 = Inr (?kept @ ?fresh, k2)"
    "held k2 = held k1 \<union> set (all_triples ?fresh)" by blast
  have "held k2 = set (all_triples new)" using kept_fresh(1)[OF assms(4)] unfolding a(2) h1 .
  moreover have "si_id ` set (?kept @ ?fresh) = si_id ` set new" by (rule kept_fresh_ids)
  moreover have "distinct (all_triples (?kept @ ?fresh))"
    using distinct_all_triples_filter[OF assms(5)] distinct_all_triples_filter[OF assms(8)] kept_fresh(2)[OF assms(4,8)]
    by auto
  moreover have "set (all_triples (?kept @ ?fresh)) = set (all_triples new)" using kept_fresh(1)[OF assms(4)] by simp
  moreover have "ird_si_round opt mem True True c0 f xs k = Inr (?kept @ ?fresh, k2)"
    using d(1) a(1) assms(2) unfolding ird_si_round_def by simp
  ultimately show ?thesis by (intro exI[of _ "?kept @ ?fresh"] exI[of _ k2]) auto
qed

text \<open>What a run of the thread finds: memory, and files with these entries.\<close>

definition finds :: "si_tick \<Rightarrow> sender_ifaces list \<Rightarrow> bool" where
  "finds r new \<longleftrightarrow> (case r of (mem, alloc, node, c0, f) \<Rightarrow>
     alloc \<and> node \<and> read_senders mem ''files/senderifaces.iprp'' c0 f = Inr new)"

lemma si_rounds_follow:
  assumes K: "ssm_kernel opt held"
  shows "list_all2 finds rs news \<Longrightarrow> \<forall>x \<in> set xs \<union> set (concat news). si_fits x \<Longrightarrow>
    agree (xs @ concat news) (xs @ concat news) \<Longrightarrow>
    \<forall>new \<in> set news. distinct (map si_id new) \<and> distinct (all_triples new) \<Longrightarrow>
    distinct (all_triples xs) \<Longrightarrow> held k = set (all_triples xs) \<Longrightarrow>
    \<exists>ss. ird_si_rounds opt rs xs k = Inr ss
      \<and> list_all2 (\<lambda>(xs', k') new. si_id ` set xs' = si_id ` set new \<and> held k' = set (all_triples new)) ss news"
proof (induction rs arbitrary: news xs k)
  case (Cons r rs)
  from Cons.prems(1) obtain new news' where n: "news = new # news'" "finds r new" "list_all2 finds rs news'"
    by (auto simp: list_all2_Cons1)
  obtain mem c0 f where r: "r = (mem, True, True, c0, f)" "read_senders mem ''files/senderifaces.iprp'' c0 f = Inr new"
    using n(2) by (auto simp: finds_def)
  have "agree xs new" using Cons.prems(3) n(1) by (auto simp: agree_def)
  moreover have "\<forall>x \<in> set xs \<union> set new. si_fits x" "distinct (map si_id new)" "distinct (all_triples new)"
    using Cons.prems(2,4) n(1) by auto
  ultimately obtain xs1 k1 where s: "ird_si_round opt mem True True c0 f xs k = Inr (xs1, k1)"
    "si_id ` set xs1 = si_id ` set new" "held k1 = set (all_triples new)"
    "set xs1 \<subseteq> set xs \<union> set new" "distinct (all_triples xs1)" "held k1 = set (all_triples xs1)"
    using si_round_follows[OF K r(2), of xs k] Cons.prems(5,6) by blast
  have "\<forall>x \<in> set xs1 \<union> set (concat news'). si_fits x" using Cons.prems(2) n(1) s(4) by auto
  moreover have "agree (xs1 @ concat news') (xs1 @ concat news')"
    using Cons.prems(3) n(1) s(4) unfolding agree_def by (simp only: n(1) set_append concat.simps) blast
  ultimately obtain ss where "ird_si_rounds opt rs xs1 k1 = Inr ss"
    "list_all2 (\<lambda>(xs', k') new. si_id ` set xs' = si_id ` set new \<and> held k' = set (all_triples new)) ss news'"
    using Cons.IH[OF n(3), of xs1 k1] Cons.prems(4) n(1) s(5,6) by auto
  with s(1-3) n(1) r(1) show ?case by simp
qed simp

section \<open>Properties\<close>

text \<open>
  The memberships follow the file: when the cached entries and the file agree on the senders
  they share, and the kernel holds exactly the memberships of the cache, a round ends with the
  entries of the file cached, in some order, and the kernel holding exactly the memberships of the file.
\<close>

theorem ird_memberships_follow_file:
  assumes "ssm_kernel opt held" and "read_senders mem ''files/senderifaces.iprp'' c0 f = Inr new"
    and "\<forall>x \<in> set xs \<union> set new. si_fits x" and "agree xs new"
    and "distinct (all_triples xs)" and "held k = set (all_triples xs)"
    and "distinct (map si_id new)" and "distinct (all_triples new)"
  shows "\<exists>xs' k'. ird_si_round opt mem True True c0 f xs k = Inr (xs', k')
    \<and> si_id ` set xs' = si_id ` set new \<and> held k' = set (all_triples new)"
  using si_round_follows[OF assms] by blast

definition si_a :: sender_ifaces where
  "si_a = \<lparr>si_sender_addr = 1, si_group_addr = 9, si_nb_ifaces = 1,
     si_ifaces = replicate 16 \<lparr>ind = 1, if_addr = 4\<rparr>, si_host_addr = replicate 16 7, si_last_seen = 0\<rparr>"

definition si_b :: sender_ifaces where
  "si_b = \<lparr>si_sender_addr = 1, si_group_addr = 9, si_nb_ifaces = 2,
     si_ifaces = \<lparr>ind = 1, if_addr = 4\<rparr> # \<lparr>ind = 2, if_addr = 5\<rparr> # replicate 14 \<lparr>ind = 0, if_addr = 0\<rparr>,
     si_host_addr = replicate 16 7, si_last_seen = 0\<rparr>"

lemma sint_small_count: "sint (1 :: u32) = 1" "sint (2 :: u32) = 2"
  by simp_all

lemma si_ab:
  "si_count si_a = 1" "si_count si_b = 2" "si_fits si_a" "si_fits si_b" "triples si_a = [(9, 7, 4)]"
  "triples si_b = [(9, 7, 4), (9, 7, 5)]"
  by (simp_all add: si_count_def si_a_def si_b_def si_fits_def triples_def triple_def sint_small_count upt_rec
      del: sint_numeral signed_numeral)

lemma read_senders_file:
  assumes "list_all si_ok xs" and "length xs < 2147483648" and "length xs * si_size \<le> mem" and "length c0 = 4"
  shows "\<exists>f. read_senders mem p c0 f = Inr xs"
proof -
  let ?f = "example_fs\<lparr>room := (\<lambda>_. 4 + length xs * si_size)\<rparr>"
  from msi.counted_round_trip[OF assms(1-3), of ?f p c0 "''Unable to open sender interfaces file''"
      "''Unable to open sender interfaces file''"] assms(4) obtain f a where
    "senderifaces_load mem p (Some c0) True f = Inr (0, of_nat (length xs), Some a)"
    "get_array get_si si_size (length xs) 0 a = xs"
    by (auto simp: senderifaces_load_def example_fs_def)
  then have "read_senders mem p c0 f = Inr xs"
    using sint_of_nat_u32[OF assms(2)] assms(2)
    by (cases "xs = []") (simp_all add: read_senders_def unat_of_nat_u32)
  then show ?thesis ..
qed

theorem ird_memberships_follow_file_witness:
  "\<exists>f xs' k'. ird_si_round set_opt 1000 True True [0, 0, 0, 0] f [] {} = Inr (xs', k') \<and> k' = {(9, 7, 4)}"
proof -
  have "si_ok si_a" by (simp add: si_ok_def si_a_def time_ok_def iprp_consts)
  with read_senders_file[of "[si_a]" 1000 "[0, 0, 0, 0]" "''files/senderifaces.iprp''"] obtain f where
    "read_senders 1000 ''files/senderifaces.iprp'' [0, 0, 0, 0] f = Inr [si_a]"
    by (auto simp: si_size_def)
  from ird_memberships_follow_file[OF set_opt_kernel this, of "[]" "{}"] si_ab
  show ?thesis by (auto simp: agree_def)
qed



text \<open>
  A changed entry ends the daemon: when the file brings a new interface of a cached sender,
  the round joins its membership but leaves the cached entry as it was, so the next round on the same
  file asks for the membership again, the request fails and the process exits.
\<close>

theorem ird_changed_entry_exits:
  assumes "ssm_kernel opt held" and "read_senders mem ''files/senderifaces.iprp'' c0 f = Inr [b]"
    and "si_id a = si_id b" and "si_fits a" and "si_fits b"
    and "triples b = triples a @ [m]" and "distinct (triples b)" and "held k = set (triples a)"
    and "snd (snd m) \<notin> (\<lambda>t. snd (snd t)) ` set (triples a)"
  shows "\<exists>k'. ird_si_round opt mem True True c0 f [a] k = Inr ([a], k') \<and> m \<in> held k'
    \<and> ird_si_round opt mem True True c0 f [a] k' = Inl (Err ''Unable to subscribe to SSM group'')"
proof -
  have n: "si_count b = Suc (si_count a)" using arg_cong[OF assms(6), of length] by (simp add: triples_def)
  have tb: "triple b j = triple a j" if "j < si_count a" for j
    using arg_cong[OF assms(6), of "\<lambda>xs. xs ! j"] that n by (simp add: triples_def nth_append)
  have tm: "triple b (si_count a) = m"
    using arg_cong[OF assms(6), of "\<lambda>xs. xs ! si_count a"] n by (simp add: triples_def nth_append)
  have addr: "if_addr (si_ifaces b ! j) = if_addr (si_ifaces a ! j)" if "j < si_count a" for j
    using tb[OF that] by (simp add: triple_def)
  have new: "if_addr (si_ifaces a ! j) \<noteq> if_addr (si_ifaces b ! si_count a)" if "j < si_count a" for j
  proof
    assume e: "if_addr (si_ifaces a ! j) = if_addr (si_ifaces b ! si_count a)"
    have "triple a j \<in> set (triples a)" using that by (simp add: triples_def)
    moreover have "snd (snd (triple a j)) = snd (snd m)" using e tm[symmetric] by (simp add: triple_def)
    ultimately show False using assms(9) by (metis imageI)
  qed
  have "member_loop opt False a (\<lambda>x. find_addr_in_sender x b) 0 (si_count a) k1 = Inr k1" for k1
  proof (rule member_loop_skip)
    show "\<forall>j. 0 \<le> j \<and> j < 0 + si_count a \<longrightarrow> find_addr_in_sender (if_addr (si_ifaces a ! j)) b = Inr True"
    proof (intro allI impI)
      fix j assume "0 \<le> j \<and> j < 0 + si_count a"
      then have "\<exists>i < si_count b. if_addr (si_ifaces b ! i) = if_addr (si_ifaces a ! j)"
        using addr[of j] n by (intro exI[of _ j]) simp
      then show "find_addr_in_sender (if_addr (si_ifaces a ! j)) b = Inr True"
        using find_addr_in_sender_found[OF assms(5)] by simp
    qed
  qed (use assms(4) in \<open>simp add: si_fits_def\<close>)
  moreover have loop: "member_loop opt True b (\<lambda>x. find_addr_in_sender x a) i (Suc j) k1
      = membership opt (si_group_addr b) (if_addr (si_ifaces b ! si_count a)) (si_host_addr b ! si_count a) True k1"
    if "i + j = si_count a" for i j k1
    using that
  proof (induction j arbitrary: i)
    case 0
    have "find_addr_in_sender (if_addr (si_ifaces b ! si_count a)) a = Inr False"
      using find_addr_in_sender_found[OF assms(4)] new by auto
    with 0 assms(5) n show ?case
      by (auto simp: si_fits_def Let_def and_then_def split: sum.splits)
  next
    case (Suc j)
    have "find_addr_in_sender (if_addr (si_ifaces b ! i)) a = Inr True"
    proof -
      have "\<exists>l < si_count a. if_addr (si_ifaces a ! l) = if_addr (si_ifaces b ! i)"
        using addr[of i] Suc.prems by (intro exI[of _ i]) simp
      then show ?thesis using find_addr_in_sender_found[OF assms(4)] by simp
    qed
    moreover have "i < length (si_ifaces b)" using assms(5) n Suc.prems by (simp add: si_fits_def)
    moreover have "Suc i + j = si_count a" using Suc.prems by simp
    ultimately show ?case using Suc.IH[of "Suc i"] by (subst member_loop.simps) (simp only: Let_def, simp)
  qed
  ultimately have u: "update_memberships opt a b k1
      = membership opt (si_group_addr b) (if_addr (si_ifaces b ! si_count a)) (si_host_addr b ! si_count a) True k1" for k1
    using loop[of 0 "si_count a" k1] n by (simp add: update_memberships_def)
  have mt: "(si_group_addr b, si_host_addr b ! si_count a, if_addr (si_ifaces b ! si_count a)) = m"
    using tm by (simp add: triple_def)
  have fa: "find_si_in_array a [b] = Some 0" "find_si_in_list b [a]"
    using assms(3) by (simp_all add: find_si_in_array_id find_si_in_list_id)
  have rd: "ird_si_round opt mem True True c0 f [a] k1 = and_then (membership opt (si_group_addr b)
      (if_addr (si_ifaces b ! si_count a)) (si_host_addr b ! si_count a) True k1) (\<lambda>k2. Inr ([a], k2))" for k1
    using fa u assms(2) by (auto simp: ird_si_round_def and_then_def split: sum.splits)
  have "m \<notin> held k" using assms(6-8) by auto
  then obtain k' where k': "opt True m k = Some k'" "held k' = insert m (held k)"
    using assms(1) unfolding ssm_kernel_def by metis
  have "opt True m k' = None" using assms(1) k'(2) unfolding ssm_kernel_def by (metis insertI1)
  with k' show ?thesis unfolding rd by (simp add: membership_def mt)
qed

theorem ird_changed_entry_exits_witness:
  "\<exists>f k'. ird_si_round set_opt 1000 True True [0, 0, 0, 0] f [si_a] {(9, 7, 4)} = Inr ([si_a], k')
    \<and> ird_si_round set_opt 1000 True True [0, 0, 0, 0] f [si_a] k' = Inl (Err ''Unable to subscribe to SSM group'')"
proof -
  have "si_ok si_b" by (simp add: si_ok_def si_b_def time_ok_def iprp_consts)
  with read_senders_file[of "[si_b]" 1000 "[0, 0, 0, 0]" "''files/senderifaces.iprp''"] obtain f where
    f: "read_senders 1000 ''files/senderifaces.iprp'' [0, 0, 0, 0] f = Inr [si_b]"
    by (auto simp: si_size_def)
  have "si_id si_a = si_id si_b" by (simp add: si_a_def si_b_def si_id.simps)
  from ird_changed_entry_exits[OF set_opt_kernel f this, of "(9, 7, 5)" "{(9, 7, 4)}"] si_ab
  show ?thesis by auto
qed

end
