(* ===== verification/Iprp_Multicast.thy ===== *)
theory Iprp_Multicast
  imports Iprp_Icd_Senders Iprp_Ird_Si
begin

text \<open>
  The multicast variant from a CAP message to the memberships of the receiver: the control daemon of
  the sender answers a CAP with an ACK, the control daemon of the receiver turns the ACK into an entry
  of its sender interfaces and publishes it, and the receiving daemon joins the group by it.
\<close>

section \<open>From the CAP to the ACK\<close>

text \<open>The interfaces of a host that are in use.\<close>

definition used :: "host \<Rightarrow> iface list" where
  "used h = take (nb_ifaces h) (ifaces h)"

definition ack_of :: "host \<Rightarrow> cap_msg \<Rightarrow> ack_msg" where
  "ack_of h m = \<lparr>ack_host = h, ack_group_addr = cap_dest_addr m, ack_src_addr = cap_src_addr m\<rparr>"

lemma cap_answered:
  assumes "inds_ok (this_host env)" and "bits_of (cap_inds m) \<inter> host_inds (this_host env) \<noteq> {}"
    and "base_mem env = Some b0" and "elem_mem env" and "ack_sent env"
    and "cap_key m \<notin> pb_key ` set (peerbases s)"
    and "cap_receiver m = no_host" and "length stack = ctlmsg_size Multicast"
  shows "\<exists>s'. control_loop Multicast [(t, env, Some (put_cap_msg Multicast m stack))] s
      = Inr (s', [(sockaddr_fill (cap_dest_addr m) IPRP_CTL_PORT, ack_of (this_host env) m)], True)
    \<and> length (peerbases s') = Suc (length (peerbases s))"
proof -
  from bits_of_match[OF assms(1), of "cap_inds m"] obtain x where
    x: "ind_match (this_host env) (cap_inds m) = Inr x" "bits_of x = bits_of (cap_inds m) \<inter> host_inds (this_host env)" .
  with assms(2) have "x \<noteq> 0" using bits_of_empty[of x] by auto
  moreover have "peerbase_query m (peerbases s) = None"
    using assms(6) by (force simp: peerbase_query_key find_idx_None image_iff)
  moreover have "ctl_decode Multicast (put_cap_msg Multicast m stack) = Some (Cap m)"
    using assms(7,8) by (intro cap_decode) (simp_all add: cap_ok_def)
  ultimately show ?thesis
    using x(1) assms(3-5) by (simp add: handle_cap_def cap_update_def create_base_def Let_def send_ack_def ack_of_def)
qed

section \<open>From the ACK to the file\<close>

lemma si_copy_lengths:
  "si_copy mine i fs s = Inr s' \<Longrightarrow>
   length (si_ifaces s') = length (si_ifaces s) \<and> length (si_host_addr s') = length (si_host_addr s)"
proof (induction fs arbitrary: i s)
  case (Cons f fs)
  then show ?case
    by (cases "find_idx (\<lambda>g. ind f = ind g) mine") (fastforce split: if_splits)+
qed simp

lemma ack_entry:
  assumes mine: "host_ok (this_host env)" and theirs: "host_ok h" and mem: "si_mem env = Some m0" "si_ok m0" "elem_mem env"
    and t: "time_ok t" and none: "sender_ifs s = []" and stack: "length stack = ctlmsg_size Multicast"
  shows "\<exists>e. control_loop Multicast [(t, env, Some (put_ack_msg (ack_of h m) stack))] s = Inr (s\<lparr>sender_ifs := [e]\<rparr>, [], True)
    \<and> si_ok e \<and> si_last_seen e = t \<and> si_key e = (cap_dest_addr m, cap_src_addr m)
    \<and> si_nb_ifaces e = of_nat (nb_ifaces h) \<and> si_matches (this_host env) h e"
proof -
  let ?a = "ack_of h m"
  have a: "ack_ok ?a" using theirs by (simp add: ack_ok_def ack_of_def)
  have "ack_key ?a \<notin> si_key ` set (sender_ifs s)" using none by simp
  from ack_creates_entry[OF mine a mem this, of t] none obtain e where
    e: "handle_ack env t ?a s = Inr (s\<lparr>sender_ifs := [e]\<rparr>)" "si_key e = ack_key ?a"
      "si_nb_ifaces e = of_nat (nb_ifaces (ack_host ?a))" "si_last_seen e = t" "si_matches (this_host env) (ack_host ?a) e"
    by auto
  from e(1) none obtain d where "si_copy (take (nb_ifaces (this_host env)) (ifaces (this_host env))) 0 (take (nb_ifaces h) (ifaces h))
      (m0\<lparr>si_sender_addr := cap_src_addr m, si_group_addr := cap_dest_addr m, si_nb_ifaces := of_nat (nb_ifaces h)\<rparr>) = Inr d"
    and d: "e = d\<lparr>si_last_seen := t\<rparr>"
    using mem used_ifaces_ok[OF mine] used_ifaces_ok[OF theirs]
    by (auto simp: handle_ack_def ack_update_def in_sender_ifaces_def create_sender_ifaces_def and_then_eq_Inr ack_of_def
        dest!: arg_cong[of _ _ sender_ifs])
  then have "si_ok e"
    using si_copy_lengths mem(2) t d by (fastforce simp: si_ok_def)
  moreover have "ctl_decode Multicast (put_ack_msg ?a stack) = Some (Ack ?a)" by (rule ack_decode[OF a stack])
  ultimately show ?thesis using e by (auto simp: ack_of_def ack_key.simps)
qed

text \<open>A round of the control daemon with entries that are not aged, as the receiving daemon reads it.\<close>

lemma published_senders:
  assumes "list_all si_ok es" and "length es < 2147483648" and "length es * si_size \<le> mem"
    and "can_write f SI_FILE" and "4 + length es * si_size \<le> room f SI_FILE" and "length c0 = 4"
    and "\<forall>e \<in> set es. t - si_last_seen e \<le> ICD_SI_TEXP"
  shows "\<exists>f'. icd_si_round mem t f es = Inr (f', es) \<and> read_senders mem SI_FILE c0 f' = Inr es"
proof -
  have "filter (\<lambda>e. t - si_last_seen e \<le> ICD_SI_TEXP) es = es" using assms(7) by simp
  with icd_si_round_publishes[OF assms(1-6), of t] obtain f' a where
    f': "icd_si_round mem t f es = Inr (f', es)"
      "senderifaces_load mem SI_FILE (Some c0) True f' = Inr (0, of_nat (length es), Some a)"
      "get_array get_si si_size (length es) 0 a = es" by auto
  moreover have "read_senders mem SI_FILE c0 f' = Inr es"
    using f' sint_of_nat_u32[OF assms(2)] assms(2)
    by (cases "es = []") (simp_all add: read_senders_def unat_of_nat_u32)
  ultimately show ?thesis by blast
qed

section \<open>From the file to the memberships\<close>

lemma entry_triples:
  assumes "host_ok h" and "si_ok e" and "si_nb_ifaces e = of_nat (nb_ifaces h)" and "si_matches mine h e"
    and "ind ` set (used h) \<subseteq> ind ` set (used mine)" and "distinct (map ind (used mine))"
    and "distinct (map if_addr (used h))"
  shows "si_fits e" and "distinct (triples e)"
    and "set (triples e) = {(si_group_addr e, if_addr g, if_addr f) | f g. f \<in> set (used h) \<and> g \<in> set (used mine) \<and> ind f = ind g}"
proof -
  have n: "nb_ifaces h \<le> 16" "length (ifaces h) = 16" "length (used h) = nb_ifaces h" using host_okD[OF assms(1)] by (auto simp: used_def)
  then have c: "si_count e = nb_ifaces h" using assms(3) sint_of_nat_u32[of "nb_ifaces h"] by (simp add: si_count_def)
  then show "si_fits e" using assms(2) n by (simp add: si_fits_def si_ok_def iprp_consts)
  have u: "si_ifaces e ! j = used h ! j" "\<exists>g \<in> set (used mine). ind g = ind (used h ! j) \<and> si_host_addr e ! j = if_addr g"
    if "j < nb_ifaces h" for j
  proof -
    have h: "used h ! j = ifaces h ! j" using that by (simp add: used_def)
    with that assms(4) show "si_ifaces e ! j = used h ! j" by (simp add: si_matches_def)
    have "ind (used h ! j) \<in> ind ` set (used mine)" using assms(5) that n(3) by (auto dest: nth_mem)
    with h that assms(4) show "\<exists>g \<in> set (used mine). ind g = ind (used h ! j) \<and> si_host_addr e ! j = if_addr g"
      by (simp add: si_matches_def used_def)
  qed
  have "map (\<lambda>m. snd (snd m)) (triples e) = map if_addr (used h)"
    using u(1) n(3) by (intro nth_equalityI) (simp_all add: triples_def triple_def c)
  with assms(7) show "distinct (triples e)" by (metis distinct_map)
  show "set (triples e) = {(si_group_addr e, if_addr g, if_addr f) | f g. f \<in> set (used h) \<and> g \<in> set (used mine) \<and> ind f = ind g}"
  proof (intro set_eqI iffI)
    fix x assume "x \<in> set (triples e)"
    then obtain j where j: "j < nb_ifaces h" "x = triple e j" by (auto simp: triples_def c)
    from u(2)[OF j(1)] obtain g where "g \<in> set (used mine)" "ind (used h ! j) = ind g" "si_host_addr e ! j = if_addr g"
      by auto
    moreover have "used h ! j \<in> set (used h)" using j(1) n(3) by simp
    ultimately show "x \<in> {(si_group_addr e, if_addr g, if_addr f) | f g. f \<in> set (used h) \<and> g \<in> set (used mine) \<and> ind f = ind g}"
      using u(1)[OF j(1)] j(2) unfolding mem_Collect_eq by (intro exI[of _ "used h ! j"] exI[of _ g]) (simp add: triple_def)
  next
    fix x assume "x \<in> {(si_group_addr e, if_addr g, if_addr f) | f g. f \<in> set (used h) \<and> g \<in> set (used mine) \<and> ind f = ind g}"
    then obtain f g where x: "x = (si_group_addr e, if_addr g, if_addr f)" "f \<in> set (used h)" "g \<in> set (used mine)" "ind f = ind g"
      by blast
    from x(2) n(3) obtain j where j: "j < nb_ifaces h" "used h ! j = f" by (auto simp: in_set_conv_nth)
    from u(2)[OF j(1)] obtain g' where g': "g' \<in> set (used mine)" "ind g' = ind f" "si_host_addr e ! j = if_addr g'"
      using j(2) by auto
    with x(3,4) assms(6) have "g' = g" by (auto simp: distinct_map inj_on_def)
    with g' u(1)[OF j(1)] j x(1) c show "x \<in> set (triples e)" by (auto simp: triples_def triple_def intro!: image_eqI[of _ _ j])
  qed
qed

lemma first_round_joins:
  assumes "ssm_kernel opt held" and "read_senders mem ''files/senderifaces.iprp'' c0 f = Inr [e]"
    and "si_fits e" and "distinct (triples e)" and "held k = {}"
  shows "\<exists>k'. ird_si_round opt mem True True c0 f [] k = Inr ([e], k') \<and> held k' = set (triples e)"
  using add_memberships_ok[OF assms(1,3,4), of k] assms(2,5)
  by (auto simp: ird_si_round_def find_si_in_list_def)

section \<open>Property\<close>



end
