(* ===== verification/Iprp_Icd_Ports.thy ===== *)
theory Iprp_Icd_Ports
  imports Iprp_Format
begin

text \<open>
  The monitored ports of the control daemon (src/icd/ports.c): reading the ports file with
  \<open>fscanf\<close>, the periodic reconciliation of the cached list with the file, the iptables
  rules, and the start and stop of the receiving and monitoring daemons.
\<close>

section \<open>Reading the file\<close>

definition is_space :: "char \<Rightarrow> bool" where
  "is_space c \<longleftrightarrow> c \<in> {CHR 0x09, CHR 0x0A, CHR 0x0B, CHR 0x0C, CHR 0x0D, CHR 0x20}"

definition is_digit :: "char \<Rightarrow> bool" where
  "is_digit c \<longleftrightarrow> c \<in> set ''0123456789''"

text \<open>
  \<open>fscanf\<close> with \<open>%hu\<close>: white space is skipped; the end of the file is EOF; a sign
  may precede the digits; the value saturates at the largest \<open>unsigned long\<close>, is negated
  there after a minus sign and cut to 16 bits.  Without digits nothing is stored.
\<close>

datatype scan = ScanEOF | ScanNone string | ScanPort u16 string

definition scan_value :: "bool \<Rightarrow> string \<Rightarrow> u16" where
  "scan_value neg ds =
     (let m = num_val 10 ds;
          u = (of_nat (min m 18446744073709551615) :: u64)
      in ucast (if neg then - u else u))"

definition fscanf_hu :: "string \<Rightarrow> scan" where
  "fscanf_hu s = (case dropWhile is_space s of
     [] \<Rightarrow> ScanEOF
   | c # cs \<Rightarrow>
       let sign = (c = CHR ''+'' \<or> c = CHR ''-'');
           body = (if sign then cs else c # cs);
           ds = takeWhile is_digit body
       in if sign \<and> body = [] then ScanEOF
          else if ds = [] then ScanNone body
          else ScanPort (scan_value (c = CHR ''-'') ds) (dropWhile is_digit body))"

text \<open>The loop from index \<open>i\<close>, with \<open>n\<close> entries of the table to go; an entry nothing is
  stored in keeps what the stack held (\<open>junk\<close>).\<close>

fun read_ports :: "(nat \<Rightarrow> u16) \<Rightarrow> nat \<Rightarrow> nat \<Rightarrow> string \<Rightarrow> u16 list" where
  "read_ports junk i 0 s = []"
| "read_ports junk i (Suc n) s = (case fscanf_hu s of
     ScanEOF \<Rightarrow> []
   | ScanNone s' \<Rightarrow> junk i # read_ports junk (Suc i) n s'
   | ScanPort p s' \<Rightarrow> p # read_ports junk (Suc i) n s')"

section \<open>State\<close>

text \<open>
  The routine's variables (\<open>open_files\<close> are the descriptors in use), the commands given
  to the shell, and the arguments of the daemons started; processes are their ids.
\<close>

record ports_state =
  monitored :: "u16 list"
  receiver_active :: bool
  ird_pid :: int
  imd_pid :: int
  open_files :: nat
  shell :: "string list"
  started :: "string list list"

text \<open>The environment of a round: the content of the file (\<open>None\<close> when there is none), the
  limit of descriptors, the stack, whether the table and the list elements can be allocated and
  \<open>system\<close> works, and the ids the two calls of \<open>fork\<close> give.\<close>

record ports_env =
  ports_file :: "string option"
  max_files :: nat
  stack_ports :: "nat \<Rightarrow> u16"
  table_mem :: bool
  port_mem :: bool
  system_ok :: bool
  fork_ird :: int
  fork_imd :: int

record recv_queues =
  q_ird :: u16
  q_imd :: u16
  q_ird_imd :: u16

text \<open>The file is opened and not closed; the allocation of the table is not tested.\<close>

definition get_monitored_ports :: "ports_env \<Rightarrow> ports_state \<Rightarrow> (u16 list \<times> ports_state) result" where
  "get_monitored_ports env s = (case ports_file env of
     None \<Rightarrow> Inl (Err ''Unable to open ports file'')
   | Some content \<Rightarrow>
       if open_files s < max_files env
       then let ports = read_ports (stack_ports env) 0 IPRP_MAX_MONITORED_PORTS content
            in if table_mem env \<or> ports = [] then Inr (ports, s\<lparr>open_files := Suc (open_files s)\<rparr>)
               else Inl NullDeref
       else Inl (Err ''Unable to open ports file''))"

fun find_port_in_array :: "u16 \<Rightarrow> u16 list \<Rightarrow> bool" where
  "find_port_in_array p [] = False"
| "find_port_in_array p (x # xs) = (if p = x then True else find_port_in_array p xs)"

fun find_port_in_list :: "u16 \<Rightarrow> u16 list \<Rightarrow> bool" where
  "find_port_in_list p [] = False"
| "find_port_in_list p (x # xs) = (if p = x then True else find_port_in_list p xs)"

section \<open>Commands\<close>

definition rule_text :: "u16 \<Rightarrow> u16 \<Rightarrow> bool \<Rightarrow> string" where
  "rule_text port queue_num create =
     ''sudo iptables -t mangle -'' @ (if create then ''A'' else ''D'') @ '' PREROUTING -p udp --dport ''
     @ fmt_d (int (unat port)) @ '' -j NFQUEUE --queue-num '' @ fmt_d (int (unat queue_num))"

definition iptables_rule :: "u16 \<Rightarrow> u16 \<Rightarrow> bool \<Rightarrow> ports_state \<Rightarrow> ports_state" where
  "iptables_rule port queue_num create s = s\<lparr>shell := shell s @ [snprintf 100 (rule_text port queue_num create)]\<rparr>"

text \<open>The child of \<open>ird_launch\<close> creates the rule of the data port and becomes the daemon;
  the result is the id.\<close>

definition ird_launch :: "int \<Rightarrow> u16 \<Rightarrow> u16 \<Rightarrow> ports_state \<Rightarrow> int \<times> ports_state" where
  "ird_launch pid queue_num imd_queue_num s =
     (if pid = -1 then (-1, s)
      else let s1 = iptables_rule IPRP_DATA_PORT queue_num True s
           in (pid, s1\<lparr>started := started s1
                @ [[''ird'', fmt_d (int (unat queue_num)), fmt_d (int (unat imd_queue_num))]]\<rparr>))"

definition imd_launch :: "int \<Rightarrow> u16 \<Rightarrow> u16 \<Rightarrow> ports_state \<Rightarrow> int \<times> ports_state" where
  "imd_launch pid queue_num ird_queue_num s =
     (if pid = -1 then (-1, s)
      else (pid, s\<lparr>started := started s
             @ [[''imd'', fmt_d (int (unat queue_num)), fmt_d (int (unat ird_queue_num))]]\<rparr>))"

definition proc_shutdown :: "bool \<Rightarrow> int \<Rightarrow> ports_state \<Rightarrow> ports_state result" where
  "proc_shutdown sys pid s =
     (if sys then Inr (s\<lparr>shell := shell s @ [snprintf 16 (''kill -9 '' @ fmt_d pid)]\<rparr>)
      else Inl (Err ''Unable to shutdown process''))"

section \<open>The routine\<close>

text \<open>Close the ports that are no longer in the file, from the iterator on.\<close>

fun close_ports :: "u16 \<Rightarrow> u16 list \<Rightarrow> u16 list \<Rightarrow> ports_state \<Rightarrow> u16 list \<times> ports_state" where
  "close_ports q new [] s = ([], s)"
| "close_ports q new (p # ps) s =
     (if \<not> find_port_in_array p new
      then close_ports q new ps (iptables_rule p q False s)
      else let (ps', s') = close_ports q new ps s in (p # ps', s'))"

text \<open>Open the ports that are new.\<close>

fun open_ports :: "bool \<Rightarrow> u16 \<Rightarrow> u16 list \<Rightarrow> ports_state \<Rightarrow> ports_state result" where
  "open_ports mem q [] s = Inr s"
| "open_ports mem q (p # ps) s =
     (if \<not> find_port_in_list p (monitored s)
      then if mem then open_ports mem q ps (iptables_rule p q True (s\<lparr>monitored := monitored s @ [p]\<rparr>))
           else Inl (Err ''Unable to allocate list element'')
      else open_ports mem q ps s)"

text \<open>Start or stop the receiving daemons.\<close>

definition update_receiver :: "ports_env \<Rightarrow> recv_queues \<Rightarrow> ports_state \<Rightarrow> ports_state result" where
  "update_receiver env q s =
     (if receiver_active s \<and> monitored s = []
      then and_then (proc_shutdown (system_ok env) (ird_pid s) s) (\<lambda>s1.
           and_then (proc_shutdown (system_ok env) (imd_pid s) s1) (\<lambda>s2.
           Inr (s2\<lparr>receiver_active := False\<rparr>)))
      else if \<not> receiver_active s \<and> monitored s \<noteq> []
      then let (pid, s1) = ird_launch (fork_ird env) (q_ird q) (q_ird_imd q) s;
               s2 = s1\<lparr>ird_pid := pid\<rparr>
           in if pid = -1 then Inl (Err ''Unable to create receiver deamon'')
              else let (pid', s3) = imd_launch (fork_imd env) (q_imd q) (q_ird_imd q) s2;
                       s4 = s3\<lparr>imd_pid := pid'\<rparr>
                   in if pid' = -1 then Inl (Err ''Unable to create monitoring deamon'')
                      else Inr (s4\<lparr>receiver_active := True\<rparr>)
      else Inr s)"

definition ports_round :: "recv_queues \<Rightarrow> ports_env \<Rightarrow> ports_state \<Rightarrow> ports_state result" where
  "ports_round q env s =
     and_then (get_monitored_ports env s) (\<lambda>(new, s1).
     let (kept, s2) = close_ports (q_imd q) new (monitored s1) s1
     in and_then (open_ports (port_mem env) (q_imd q) new (s2\<lparr>monitored := kept\<rparr>)) (\<lambda>s3.
        update_receiver env q s3))"

fun ports_routine :: "recv_queues \<Rightarrow> ports_env list \<Rightarrow> ports_state \<Rightarrow> ports_state result" where
  "ports_routine q [] s = Inr s"
| "ports_routine q (env # envs) s = and_then (ports_round q env s) (ports_routine q envs)"

definition ports_init :: ports_state where
  "ports_init = \<lparr>monitored = [], receiver_active = False, ird_pid = 0, imd_pid = 0, open_files = 3, shell = [],
     started = []\<rparr>"

section \<open>The commands are not cut, and determine their rule\<close>

lemma rule_length: "length (rule_text p q c) \<le> 99"
  using length_dec_u16[of p] length_dec_u16[of q] by (simp add: rule_text_def fmt_d_def)

lemma rule_not_cut: "snprintf 100 (rule_text p q c) = rule_text p q c"
  using rule_length[of p q c] by (simp add: snprintf_def)

lemma digit_not_space: "n < 10 \<Longrightarrow> digit n \<noteq> CHR '' ''"
proof -
  assume "n < 10"
  then have "digit n \<in> set ''0123456789abcdef''" unfolding digit_def by (intro nth_mem) simp
  then show ?thesis by auto
qed

lemma dec_no_space: "c \<in> set (dec n) \<Longrightarrow> c \<noteq> CHR '' ''"
proof (induction n rule: dec.induct)
  case (1 n)
  show ?case
  proof (cases "n < 10")
    case True
    with 1(2) digit_not_space show ?thesis by (subst (asm) dec.simps) auto
  next
    case False
    with 1 digit_not_space[of "n mod 10"] show ?thesis by (subst (asm) (2) dec.simps) auto
  qed
qed

lemma takeWhile_dec: "takeWhile (\<lambda>c. c \<noteq> CHR '' '') (dec n @ CHR '' '' # s) = dec n"
  by (simp add: takeWhile_append dec_no_space)

lemma rule_text_inject:
  assumes "rule_text p q c = rule_text p' q' c'"
  shows "p = p' \<and> q = q' \<and> c = c'"
proof -
  have c: "c = c'" using assms by (cases c; cases c') (simp_all add: rule_text_def)
  let ?r = "\<lambda>p q. dec (unat (p :: u16)) @ '' -j NFQUEUE --queue-num '' @ dec (unat (q :: u16))"
  have e: "?r p q = ?r p' q'" using assms c by (simp add: rule_text_def fmt_d_def)
  then have "takeWhile (\<lambda>c. c \<noteq> CHR '' '') (?r p q) = takeWhile (\<lambda>c. c \<noteq> CHR '' '') (?r p' q')" by simp
  then have d: "dec (unat p) = dec (unat p')" by (simp add: takeWhile_dec)
  with e have "dec (unat q) = dec (unat q')" by simp
  with d c show ?thesis by (simp add: dec_inject word_unat_eq_iff)
qed

section \<open>What a round does\<close>

lemma find_port_simps [simp]:
  "find_port_in_array p xs \<longleftrightarrow> p \<in> set xs" "find_port_in_list p xs \<longleftrightarrow> p \<in> set xs"
  by (induction xs) auto

text \<open>The ports of the file that are not in the list, each once.\<close>

fun fresh_ports :: "u16 list \<Rightarrow> u16 list \<Rightarrow> u16 list" where
  "fresh_ports old [] = []"
| "fresh_ports old (p # ps) = (if p \<in> set old then fresh_ports old ps else p # fresh_ports (old @ [p]) ps)"

lemma fresh_ports_set:
  "set (fresh_ports old ps) = set ps - set old"
  "distinct (fresh_ports old ps)"
  by (induction old ps rule: fresh_ports.induct) auto

lemma close_ports_result:
  "close_ports q new ps s = (filter (\<lambda>p. p \<in> set new) ps,
     s\<lparr>shell := shell s @ map (\<lambda>p. rule_text p q False) (filter (\<lambda>p. p \<notin> set new) ps)\<rparr>)"
  by (induction q new ps s rule: close_ports.induct) (simp_all add: iptables_rule_def rule_not_cut)

lemma open_ports_files: "open_ports mem q ps s = Inr s' \<Longrightarrow> open_files s' = open_files s"
  by (induction mem q ps s rule: open_ports.induct) (auto simp: iptables_rule_def split: if_splits)

lemma open_ports_result:
  "open_ports True q ps s = Inr (s\<lparr>monitored := monitored s @ fresh_ports (monitored s) ps,
     shell := shell s @ map (\<lambda>p. rule_text p q True) (fresh_ports (monitored s) ps)\<rparr>)"
  by (induction "True" q ps s rule: open_ports.induct) (simp_all add: iptables_rule_def rule_not_cut)

text \<open>The commands of a round, in order.\<close>

definition round_monitored :: "u16 list \<Rightarrow> u16 list \<Rightarrow> u16 list" where
  "round_monitored new old = (let kept = filter (\<lambda>p. p \<in> set new) old in kept @ fresh_ports kept new)"

definition round_commands :: "u16 \<Rightarrow> u16 list \<Rightarrow> u16 list \<Rightarrow> string list" where
  "round_commands q new old =
     map (\<lambda>p. rule_text p q False) (filter (\<lambda>p. p \<notin> set new) old)
     @ map (\<lambda>p. rule_text p q True) (fresh_ports (filter (\<lambda>p. p \<in> set new) old) new)"

lemma round_monitored_set:
  "set (round_monitored new old) = set new" "distinct old \<Longrightarrow> distinct (round_monitored new old)"
  by (auto simp: round_monitored_def Let_def fresh_ports_set)

definition ports_env_ok :: "ports_env \<Rightarrow> bool" where
  "ports_env_ok env \<longleftrightarrow> ports_file env \<noteq> None \<and> fork_ird env \<noteq> -1 \<and> fork_imd env \<noteq> -1
     \<and> table_mem env \<and> port_mem env \<and> system_ok env"

definition receiver_args :: "recv_queues \<Rightarrow> string list list" where
  "receiver_args q =
     [[''ird'', fmt_d (int (unat (q_ird q))), fmt_d (int (unat (q_ird_imd q)))],
      [''imd'', fmt_d (int (unat (q_imd q))), fmt_d (int (unat (q_ird_imd q)))]]"

definition ports_read :: "ports_env \<Rightarrow> u16 list" where
  "ports_read env = read_ports (stack_ports env) 0 IPRP_MAX_MONITORED_PORTS (the (ports_file env))"

lemma ports_round_result:
  assumes "ports_env_ok env" and "open_files s < max_files env"
  shows "\<exists>s' extra. ports_round q env s = Inr s'
    \<and> monitored s' = round_monitored (ports_read env) (monitored s)
    \<and> shell s' = shell s @ round_commands (q_imd q) (ports_read env) (monitored s) @ extra
    \<and> (receiver_active s = (monitored s \<noteq> []) \<longrightarrow> receiver_active s' = (monitored s' \<noteq> []))
    \<and> started s' = started s @ (if \<not> receiver_active s \<and> monitored s' \<noteq> [] then receiver_args q else [])
    \<and> open_files s' = Suc (open_files s)
    \<and> set extra \<subseteq> {rule_text IPRP_DATA_PORT (q_ird q) True} \<union> {c. \<exists>pid. c = snprintf 16 (''kill -9 '' @ fmt_d pid)}"
proof -
  let ?new = "ports_read env" and ?q = "q_imd q"
  let ?s3 = "s\<lparr>open_files := Suc (open_files s), monitored := round_monitored ?new (monitored s),
      shell := shell s @ round_commands ?q ?new (monitored s)\<rparr>"
  obtain content where c: "ports_file env = Some content" using assms(1) by (auto simp: ports_env_ok_def)
  from assms(1) have f: "fork_ird env \<noteq> -1" "fork_imd env \<noteq> -1" "table_mem env" "port_mem env" "system_ok env"
    by (auto simp: ports_env_ok_def)
  have r: "ports_round q env s = update_receiver env q ?s3"
    using c f assms(2) by (simp add: ports_round_def get_monitored_ports_def close_ports_result open_ports_result
        ports_read_def round_monitored_def round_commands_def Let_def)
  show ?thesis
  proof (cases "receiver_active s \<and> monitored ?s3 = []")
    case True
    let ?k = "[snprintf 16 (''kill -9 '' @ fmt_d (ird_pid s)), snprintf 16 (''kill -9 '' @ fmt_d (imd_pid s))]"
    let ?s4 = "?s3\<lparr>shell := shell ?s3 @ ?k, receiver_active := False\<rparr>"
    have "update_receiver env q ?s3 = Inr ?s4"
      using True f by (simp add: update_receiver_def proc_shutdown_def)
    with r True show ?thesis
      by (intro exI[of _ ?s4] exI[of _ ?k]) auto
  next
    case no: False
    show ?thesis
    proof (cases "\<not> receiver_active s \<and> monitored ?s3 \<noteq> []")
      case True
      let ?s4 = "?s3\<lparr>shell := shell ?s3 @ [rule_text IPRP_DATA_PORT (q_ird q) True], 
          started := started s @ receiver_args q, ird_pid := fork_ird env,
          imd_pid := fork_imd env, receiver_active := True\<rparr>"
      have "update_receiver env q ?s3 = Inr ?s4"
        using True f by (simp add: update_receiver_def ird_launch_def imd_launch_def receiver_args_def iptables_rule_def rule_not_cut Let_def)
      with r True show ?thesis
        by (intro exI[of _ ?s4] exI[of _ "[rule_text IPRP_DATA_PORT (q_ird q) True]"]) auto
    next
      case False
      with no have "update_receiver env q ?s3 = Inr ?s3" by (auto simp: update_receiver_def)
      with r no False show ?thesis by (intro exI[of _ ?s3] exI[of _ "[]"]) auto
    qed
  qed
qed

text \<open>
  The invariant: the list has no duplicates, the receiving daemons run exactly while it is not
  empty, and every port in it was redirected once more than its redirection was removed, every other
  port equally often.
\<close>

definition ports_inv :: "recv_queues \<Rightarrow> ports_state \<Rightarrow> bool" where
  "ports_inv q s \<longleftrightarrow> distinct (monitored s) \<and> receiver_active s = (monitored s \<noteq> [])
     \<and> (\<forall>p. count_list (shell s) (rule_text p (q_imd q) True)
          = count_list (shell s) (rule_text p (q_imd q) False) + (if p \<in> set (monitored s) then 1 else 0))"

lemma count_list_notin: "x \<notin> set xs \<Longrightarrow> count_list xs x = 0"
  by (induction xs) auto

lemma count_rules:
  "distinct ps \<Longrightarrow> count_list (map (\<lambda>p. rule_text p q c) ps) (rule_text p q c') = (if c = c' \<and> p \<in> set ps then 1 else 0)"
  by (induction ps) (auto dest: rule_text_inject)

lemma kill_not_rule: "snprintf 16 (''kill -9 '' @ fmt_d pid) \<noteq> rule_text p q c"
  by (simp add: snprintf_def rule_text_def)

lemma count_round:
  assumes "distinct old"
  shows "count_list (round_commands q new old) (rule_text p q True) = (if p \<in> set new - set old then 1 else 0)"
    and "count_list (round_commands q new old) (rule_text p q False) = (if p \<in> set old - set new then 1 else 0)"
  using assms by (auto simp: round_commands_def count_rules fresh_ports_set)

lemma ports_inv_round:
  assumes "ports_env_ok env" and "open_files s < max_files env" and "ports_inv q s" and "q_ird q \<noteq> q_imd q"
  shows "\<exists>s'. ports_round q env s = Inr s' \<and> ports_inv q s' \<and> set (monitored s') = set (ports_read env)
    \<and> open_files s' = Suc (open_files s)"
proof -
  from ports_round_result[OF assms(1,2), of q] obtain s' extra where
    r: "ports_round q env s = Inr s'" "monitored s' = round_monitored (ports_read env) (monitored s)"
    "shell s' = shell s @ round_commands (q_imd q) (ports_read env) (monitored s) @ extra"
    "receiver_active s = (monitored s \<noteq> []) \<longrightarrow> receiver_active s' = (monitored s' \<noteq> [])"
    "open_files s' = Suc (open_files s)"
    "set extra \<subseteq> {rule_text IPRP_DATA_PORT (q_ird q) True} \<union> {c. \<exists>pid. c = snprintf 16 (''kill -9 '' @ fmt_d pid)}"
    by blast
  have d: "distinct (monitored s)" using assms(3) by (simp add: ports_inv_def)
  have "rule_text p (q_imd q) c \<notin> set extra" for p c
  proof
    assume "rule_text p (q_imd q) c \<in> set extra"
    with r(6) have "rule_text p (q_imd q) c = rule_text IPRP_DATA_PORT (q_ird q) True
        \<or> (\<exists>pid. rule_text p (q_imd q) c = snprintf 16 (''kill -9 '' @ fmt_d pid))" by blast
    then show False using rule_text_inject assms(4) kill_not_rule by metis
  qed
  then have x: "count_list extra (rule_text p (q_imd q) c) = 0" for p c by (intro count_list_notin)
  have "count_list (shell s') (rule_text p (q_imd q) True)
      = count_list (shell s') (rule_text p (q_imd q) False) + (if p \<in> set (monitored s') then 1 else 0)" for p
  proof -
    have "count_list (shell s) (rule_text p (q_imd q) True)
      = count_list (shell s) (rule_text p (q_imd q) False) + (if p \<in> set (monitored s) then 1 else 0)"
      using assms(3) by (simp add: ports_inv_def)
    then show ?thesis
      by (auto simp: r(2,3) x count_round[OF d] round_monitored_set)
  qed
  with r assms(3) d show ?thesis by (auto simp: ports_inv_def round_monitored_set)
qed

lemma ports_routine_inv:
  "\<forall>env \<in> set envs. ports_env_ok env \<and> open_files s + length envs \<le> max_files env \<Longrightarrow>
   ports_inv q s \<Longrightarrow> q_ird q \<noteq> q_imd q \<Longrightarrow>
   \<exists>s'. ports_routine q envs s = Inr s' \<and> ports_inv q s' \<and> open_files s' = open_files s + length envs
     \<and> (envs \<noteq> [] \<longrightarrow> set (monitored s') = set (ports_read (last envs)))"
proof (induction envs arbitrary: s)
  case Nil
  then show ?case by simp
next
  case (Cons env envs)
  from ports_inv_round[of env s q] Cons.prems obtain s1 where
    s1: "ports_round q env s = Inr s1" "ports_inv q s1" "set (monitored s1) = set (ports_read env)"
    "open_files s1 = Suc (open_files s)" by auto
  from Cons.IH[OF _ s1(2) Cons.prems(3)] Cons.prems(1) s1 show ?case by (cases envs) auto
qed

section \<open>Reading a file of ports\<close>

lemma digit_is_digit: "n < 10 \<Longrightarrow> is_digit (digit n)"
proof -
  assume n: "n < 10"
  have l: "length ''0123456789'' = 10" by simp
  have "digit n = ''0123456789'' ! n"
    using n nth_append[of "''0123456789''" "''abcdef''" n] by (simp add: digit_def)
  then show ?thesis unfolding is_digit_def using nth_mem[of n "''0123456789''"] n l by (simp only:)
qed

lemma dec_digits: "c \<in> set (dec n) \<Longrightarrow> is_digit c"
proof (induction n rule: dec.induct)
  case (1 n)
  show ?case
  proof (cases "n < 10")
    case True
    with 1(2) digit_is_digit show ?thesis by (subst (asm) dec.simps) auto
  next
    case False
    with 1 digit_is_digit[of "n mod 10"] show ?thesis by (subst (asm) (2) dec.simps) auto
  qed
qed

lemma dec_nonempty: "dec n \<noteq> []"
  by (subst dec.simps) simp

lemma digit_not_space_sign: "is_digit c \<Longrightarrow> \<not> is_space c \<and> c \<noteq> CHR ''+'' \<and> c \<noteq> CHR ''-''"
  by (auto simp: is_digit_def is_space_def)

lemma newline_space: "is_space (CHR 0x0A)" "\<not> is_digit (CHR 0x0A)"
  by (auto simp: is_digit_def is_space_def)

lemma scan_value_dec: "scan_value False (dec (unat (p :: u16))) = p"
proof -
  have "unat p < 65536" by (rule unat_u16)
  then have "min (unat p) 18446744073709551615 = unat p" by simp
  then show ?thesis
    by (simp add: scan_value_def num_val_dec Let_def word_unat_eq_iff unsigned_ucast_eq take_bit_eq_mod
        unsigned_of_nat)
qed

lemma scan_port_line:
  "fscanf_hu (dec (unat p) @ CHR 0x0A # s) = ScanPort p (CHR 0x0A # s)"
proof -
  obtain c cs where d: "dec (unat p) = c # cs" using dec_nonempty[of "unat p"] by (cases "dec (unat p)") auto
  then have all: "\<forall>x \<in> set (c # cs). is_digit x" using dec_digits[of _ "unat p"] by auto
  then have c: "\<not> is_space c" "c \<noteq> CHR ''+''" "c \<noteq> CHR ''-''" using digit_not_space_sign[of c] by auto
  have tw: "takeWhile is_digit (c # cs @ CHR 0x0A # s) = c # cs"
    "dropWhile is_digit (c # cs @ CHR 0x0A # s) = CHR 0x0A # s"
    using all newline_space by (auto simp: takeWhile_append dropWhile_append)
  have v: "scan_value False (c # cs) = p" using scan_value_dec[of p] d by simp
  show ?thesis unfolding d fscanf_hu_def using c tw v by (simp add: Let_def)
qed

lemma scan_skips_newline: "fscanf_hu (CHR 0x0A # s) = fscanf_hu s"
  by (simp add: fscanf_hu_def newline_space)

definition ports_text :: "u16 list \<Rightarrow> string" where
  "ports_text ps = concat (map (\<lambda>p. dec (unat p) @ [CHR 0x0A]) ps)"

lemma read_ports_newline: "read_ports junk i n (CHR 0x0A # s) = read_ports junk i n s"
  by (cases n) (simp_all add: scan_skips_newline)

lemma read_ports_text: "read_ports junk i n (ports_text ps) = take n ps"
proof (induction ps arbitrary: i n)
  case Nil
  show ?case by (cases n) (simp_all add: ports_text_def fscanf_hu_def)
next
  case (Cons p ps)
  show ?case
  proof (cases n)
    case (Suc m)
    have "ports_text (p # ps) = dec (unat p) @ CHR 0x0A # ports_text ps" by (simp add: ports_text_def)
    then show ?thesis using Suc Cons by (simp add: scan_port_line read_ports_newline)
  qed simp
qed

section \<open>Properties\<close>


definition example_ports_env :: "string \<Rightarrow> ports_env" where
  "example_ports_env txt = \<lparr>ports_file = Some txt, max_files = 1024, stack_ports = (\<lambda>i. of_nat (7 * i)),
     table_mem = True, port_mem = True, system_ok = True,
     fork_ird = 200, fork_imd = 201\<rparr>"

definition example_queues :: recv_queues where
  "example_queues = \<lparr>q_ird = 10, q_imd = 11, q_ird_imd = 12\<rparr>"


text \<open>
  A file that does not begin with a number monitors 16 ports nobody asked for:
  \<open>fscanf\<close> stores nothing and stays where it is, the loop only looks for the end of the file,
  and every entry of the table is what the stack held.
\<close>

theorem ports_bad_text_reads_stack:
  assumes "\<not> is_space c" and "\<not> is_digit c" and "c \<noteq> CHR ''+''" and "c \<noteq> CHR ''-''"
    and "open_files s < max_files env" and "ports_file env = Some (c # cs)"
    and "table_mem env"
  shows "\<exists>s'. get_monitored_ports env s = Inr (map (stack_ports env) [0..<16], s')"
proof -
  have "fscanf_hu (c # cs) = ScanNone (c # cs)" using assms(1-4) by (simp add: fscanf_hu_def Let_def)
  then have "read_ports junk i n (c # cs) = map junk [i..<i + n]" for junk i n
  proof (induction n arbitrary: i)
    case (Suc n)
    then show ?case by (simp add: upt_conv_Cons del: upt_Suc)
  qed simp
  with assms(5,6,7) show ?thesis by (simp add: get_monitored_ports_def iprp_consts)
qed

theorem ports_bad_text_reads_stack_witness:
  "\<exists>s'. get_monitored_ports (example_ports_env ''port 53'') ports_init
     = Inr (map (stack_ports (example_ports_env ''port 53'')) [0..<16], s')"
  by (rule ports_bad_text_reads_stack[of "CHR ''p''" _ _ "''ort 53''"])
    (simp_all add: is_space_def is_digit_def example_ports_env_def ports_init_def)

text \<open>
  The ports routine exhausts its descriptors: each round opens the ports file and none
  closes it, so with a limit of \<open>L\<close> the daemon exits after at most \<open>L\<close> rounds, whatever
  the file contains.
\<close>

lemma ports_routine_leaks:
  "ports_routine q envs s = Inr s' \<Longrightarrow> k < length envs \<Longrightarrow> open_files s + k < max_files (envs ! k)"
proof (induction envs arbitrary: s k)
  case (Cons env envs)
  from Cons.prems(1) obtain s1 where s1: "ports_round q env s = Inr s1" "ports_routine q envs s1 = Inr s'"
    by (auto simp: and_then_eq_Inr)
  then obtain new s0 where g: "get_monitored_ports env s = Inr (new, s0)"
    by (auto simp: ports_round_def and_then_eq_Inr)
  then have f: "open_files s < max_files env" "open_files s0 = Suc (open_files s)" "monitored s0 = monitored s"
    by (auto simp: get_monitored_ports_def Let_def split: option.splits if_splits)
  from s1(1) g have "open_files s1 = open_files s0"
    by (auto simp: ports_round_def close_ports_result and_then_eq_Inr update_receiver_def ird_launch_def
        imd_launch_def proc_shutdown_def iptables_rule_def Let_def split: if_splits dest!: open_ports_files)
  with Cons.IH[OF s1(2), of "k - 1"] Cons.prems(2) f show ?case by (cases k) simp_all
qed simp

theorem ports_file_never_closed:
  assumes "\<forall>env \<in> set envs. max_files env \<le> L" and "L < length envs"
  shows "\<exists>e. ports_routine q envs ports_init = Inl e"
proof (cases "ports_routine q envs ports_init")
  case (Inr s')
  from ports_routine_leaks[OF this assms(2)] have "L < max_files (envs ! L)" by simp
  with assms show ?thesis by (metis leD nth_mem)
qed auto

theorem ports_file_never_closed_witness:
  "\<exists>e. ports_routine example_queues
      (replicate 6 ((example_ports_env (ports_text [53]))\<lparr>max_files := 5\<rparr>)) ports_init = Inl e"
  by (rule ports_file_never_closed[of _ 5]) simp_all

end
