(* ===== verification/Iprp_Daemons.thy ===== *)
theory Iprp_Daemons
  imports Iprp_Icd_Ports Iprp_Isd
begin

text \<open>
  The start of the four daemons (src/icd/icd.c, src/ird/ird.c, src/imd/imd.c, src/isd/isd.c): the
  reading of the arguments, the description of the local host, the numbers of the queues, and the
  threads.  The numbers travel as text: the control daemon prints them for the daemons it starts,
  which read them back.
\<close>

section \<open>Arguments\<close>

text \<open>\<open>argv[i]\<close>: a NULL pointer after the last argument, nothing behind it.\<close>

definition argument :: "string list \<Rightarrow> nat \<Rightarrow> string option result" where
  "argument argv i = (if i < length argv then Inr (Some (argv ! i))
     else if i = length argv then Inr None else Inl OutOfBounds)"

text \<open>\<open>atoi\<close>: the value saturates at the limits of \<open>long\<close> and is cut to an \<open>int\<close>.\<close>

definition atoi :: "string \<Rightarrow> int" where
  "atoi s =
     (let cs = dropWhile is_space s;
          body = (if cs \<noteq> [] \<and> (hd cs = CHR ''+'' \<or> hd cs = CHR ''-'') then tl cs else cs);
          m = int (num_val 10 (takeWhile is_digit body));
          n = (if cs \<noteq> [] \<and> hd cs = CHR ''-'' then - m else m)
      in sint (word_of_int (max (- 9223372036854775808) (min 9223372036854775807 n)) :: u32))"

definition atoi_arg :: "string list \<Rightarrow> nat \<Rightarrow> int result" where
  "atoi_arg argv i = and_then (argument argv i) (\<lambda>a.
     case a of None \<Rightarrow> Inl NullDeref | Some s \<Rightarrow> Inr (atoi s))"

text \<open>\<open>inet_pton\<close>: four decimal numbers up to 255 without leading zeros.\<close>

fun split_dots :: "string \<Rightarrow> string list" where
  "split_dots [] = [[]]"
| "split_dots (c # cs) = (if c = CHR ''.'' then [] # split_dots cs
     else (case split_dots cs of [] \<Rightarrow> [[c]] | w # ws \<Rightarrow> (c # w) # ws))"

definition octet :: "string \<Rightarrow> u8 option" where
  "octet s = (if s \<noteq> [] \<and> list_all is_digit s \<and> (hd s = CHR ''0'' \<longrightarrow> length s = 1) \<and> num_val 10 s \<le> 255
     then Some (of_nat (num_val 10 s)) else None)"

definition inet_pton :: "string \<Rightarrow> in_addr option" where
  "inet_pton s = (case map octet (split_dots s) of
     [Some p, Some q, Some r, Some t] \<Rightarrow> Some (of_le32 [p, q, r, t]) | _ \<Rightarrow> None)"

section \<open>Threads\<close>

text \<open>\<open>ok\<close> is whether the thread of a routine can be created; a failure ends the process.\<close>

fun launch :: "(string \<Rightarrow> bool) \<Rightarrow> (string \<times> string) list \<Rightarrow> string list result" where
  "launch ok [] = Inr []"
| "launch ok ((routine, msg) # ts) =
     (if ok routine then and_then (launch ok ts) (\<lambda>rs. Inr (routine # rs)) else Inl (Err msg))"

section \<open>The control daemon (icd.c)\<close>

text \<open>The loop over the interfaces: \<open>this\<close> is zeroed memory, and the result of
  \<open>inet_pton\<close> is not looked at.\<close>

fun setup_ifaces :: "nat \<Rightarrow> string list \<Rightarrow> iface list \<Rightarrow> iface list" where
  "setup_ifaces i [] fs = fs"
| "setup_ifaces i (a # as) fs =
     setup_ifaces (Suc i) as (fs[i := \<lparr>ind = of_nat i, if_addr =
       (case inet_pton a of None \<Rightarrow> if_addr (fs ! i) | Some x \<Rightarrow> x)\<rparr>])"

text \<open>The loop that draws the queue numbers until they differ; the fuel bounds the rounds.\<close>

fun draw_queues :: "nat \<Rightarrow> (nat \<Rightarrow> nat) \<Rightarrow> nat \<Rightarrow> recv_queues option" where
  "draw_queues 0 rnd k = None"
| "draw_queues (Suc n) rnd k =
     (let q = \<lparr>q_ird = of_nat (rnd k mod 65535), q_imd = of_nat (rnd (k + 1) mod 65535),
               q_ird_imd = of_nat (rnd (k + 2) mod 65535)\<rparr>
      in if q_ird q = q_imd q \<or> q_ird q = q_ird_imd q \<or> q_imd q = q_ird_imd q
         then draw_queues n rnd (k + 3) else Some q)"

definition icd_threads :: "variant \<Rightarrow> (string \<times> string) list" where
  "icd_threads v =
     [(''time_routine'', ''Unable to setup time thread''),
      (''ports_routine'', ''Unable to setup ports thread''),
      (''control_routine'', ''Unable to setup control thread''),
      (''as_routine'', ''Unable to setup active senders thread''),
      (''pb_routine'', ''Unable to setup peerbase thread'')]
     @ (case v of Unicast \<Rightarrow> [] | Multicast \<Rightarrow> [(''si_routine'', ''Unable to setup sender interfaces thread'')])"

text \<open>
  What \<open>main\<close> comes to: the status it returns, or the daemon with the host, the queue numbers and
  the threads it launched.  The count of interfaces is a \<open>size_t\<close>, so a negative number of
  interfaces is a huge one.
\<close>

datatype 'a start = Exit nat | Launched 'a

definition EXIT_FAILURE :: nat where "EXIT_FAILURE = 1"

definition icd_main ::
  "variant \<Rightarrow> (string \<Rightarrow> bool) \<Rightarrow> nat \<Rightarrow> (nat \<Rightarrow> nat) \<Rightarrow> string list
   \<Rightarrow> (host \<times> recv_queues \<times> string list) start result option" where
  "icd_main v ok fuel rnd argv =
     (if length argv < 2 then Some (Inr (Exit EXIT_FAILURE))
      else
       let nb = unat (word_of_int (atoi (argv ! 1)) :: u64)
       in if nb < 1 \<or> nb > IPRP_MAX_INDS \<or> length argv \<noteq> nb + 2 then Some (Inr (Exit EXIT_FAILURE))
          else
           let h = \<lparr>nb_ifaces = nb, ifaces = setup_ifaces 0 (drop 2 argv)
                      (replicate IPRP_MAX_IFACE \<lparr>ind = 0, if_addr = 0\<rparr>)\<rparr>
           in map_option (\<lambda>q. and_then (launch ok (icd_threads v)) (\<lambda>ts. Inr (Launched (h, q, ts))))
                (draw_queues fuel rnd 0))"

section \<open>The receiving and monitoring daemons (ird.c, imd.c)\<close>

definition ird_threads :: "variant \<Rightarrow> (string \<times> string) list" where
  "ird_threads v =
     [(''time_routine'', ''Unable to setup time thread''),
      (''handle_routine'', ''Unable to setup receive thread'')]
     @ (case v of Unicast \<Rightarrow> [] | Multicast \<Rightarrow> [(''si_routine'', ''Unable to setup sender interfaces thread'')])"

text \<open>The queue to read, the queue to forward to, and the threads.\<close>

definition ird_main :: "variant \<Rightarrow> (string \<Rightarrow> bool) \<Rightarrow> string list \<Rightarrow> (int \<times> int \<times> string list) result" where
  "ird_main v ok argv =
     and_then (atoi_arg argv 1) (\<lambda>queue. and_then (atoi_arg argv 2) (\<lambda>imd_queue.
     and_then (launch ok (ird_threads v)) (\<lambda>ts. Inr (queue, imd_queue, ts))))"

definition imd_threads :: "(string \<times> string) list" where
  "imd_threads =
     [(''time_routine'', ''Unable to setup monitoring thread''),
      (''handle_routine'', ''Unable to setup monitoring thread''),
      (''ird_handle_routine'', ''Unable to setup IRD monitoring thread''),
      (''as_routine'', ''Unable to setup active senders thread'')]"

text \<open>The queues of the two packet threads, and the threads; the list of active senders is empty.\<close>

definition imd_main ::
  "(string \<Rightarrow> bool) \<Rightarrow> string list \<Rightarrow> (int \<times> int \<times> 'a list \<times> string list) result" where
  "imd_main ok argv =
     and_then (atoi_arg argv 1) (\<lambda>queue. and_then (atoi_arg argv 2) (\<lambda>ird_queue.
     and_then (launch ok imd_threads) (\<lambda>ts. Inr (queue, ird_queue, [], ts))))"

section \<open>The sending daemon (isd.c)\<close>

definition isd_threads :: "(string \<times> string) list" where
  "isd_threads =
     [(''time_routine'', ''Unable to setup time thread''),
      (''pb_routine'', ''Unable to setup peerbase thread''),
      (''handle_routine'', ''Unable to setup handle thread'')]"

definition isd_main ::
  "variant \<Rightarrow> (nat \<Rightarrow> int) \<Rightarrow> (string \<Rightarrow> bool) \<Rightarrow> string list
   \<Rightarrow> (int \<times> string option \<times> (int \<times> sock_opt list) list \<times> string list) result" where
  "isd_main v sock ok argv =
     and_then (atoi_arg argv 1) (\<lambda>queue. and_then (argument argv 2) (\<lambda>base_path.
     and_then (isd_sockets v sock) (\<lambda>ss.
     and_then (launch ok isd_threads) (\<lambda>ts. Inr (queue, base_path, ss, ts)))))"

section \<open>Numbers and addresses as text\<close>

lemma takeWhile_dec_digits: "takeWhile is_digit (dec n) = dec n"
  by (simp add: takeWhile_eq_all_conv dec_digits)

lemma sint_word_of_int_u32:
  "- 2147483648 \<le> i \<Longrightarrow> i < 2147483648 \<Longrightarrow> sint (word_of_int i :: u32) = i"
  by (simp add: sint_sbintrunc' signed_take_bit_int_eq_self)

lemma sint_range_u32: "- 2147483648 \<le> sint (w :: u32) \<and> sint w < 2147483648"
  using sint_greater_eq[of w] sint_less[of w] by simp

lemma unat_mod_u64: "unat (word_of_int i :: u64) = nat (i mod 18446744073709551616)"
  by (simp add: nat_uint_eq[symmetric] uint_word_of_int)

lemma unat_word_of_int_u64: "0 \<le> i \<Longrightarrow> i < 2147483648 \<Longrightarrow> unat (word_of_int i :: u64) = nat i"
  by (simp add: unat_mod_u64)

lemma unat_word_of_int_neg: "i < 0 \<Longrightarrow> - 2147483648 \<le> i \<Longrightarrow> 16 < unat (word_of_int i :: u64)"
proof -
  assume i: "i < 0" "- 2147483648 \<le> i"
  then have "i mod 18446744073709551616 = (i + 18446744073709551616) mod 18446744073709551616" by simp
  also have "\<dots> = i + 18446744073709551616" using i by (intro mod_pos_pos_trivial) simp_all
  finally show ?thesis using i by (simp add: unat_mod_u64)
qed

lemma hd_dec: "is_digit (hd (dec n))"
  using dec_digits[of "hd (dec n)" n] dec_nonempty[of n] by (simp add: hd_in_set)

lemma atoi_dec:
  assumes "n < 2147483648"
  shows "atoi (dec n) = int n"
proof -
  obtain c cs where c: "dec n = c # cs" using dec_nonempty[of n] by (cases "dec n") auto
  then have "\<not> is_space c \<and> c \<noteq> CHR ''+'' \<and> c \<noteq> CHR ''-''"
    using hd_dec[of n] digit_not_space_sign by simp
  then have "atoi (dec n) = sint (word_of_int (max (- 9223372036854775808) (min 9223372036854775807
      (int (num_val 10 (takeWhile is_digit (dec n)))))) :: u32)"
    using c by (simp add: atoi_def)
  also have "\<dots> = int n"
    using assms by (simp only: takeWhile_dec_digits num_val_dec) (simp add: sint_of_nat_u32)
  finally show ?thesis .
qed

lemma atoi_queue: "atoi (fmt_d (int (unat (q :: u16)))) = int (unat q)"
  using unat_u16[of q] by (simp add: fmt_d_def atoi_dec)

lemma atoi_uint: "atoi (fmt_d (uint (q :: u16))) = uint q"
  using atoi_queue[of q] by simp

lemma split_dots_word: "CHR ''.'' \<notin> set w \<Longrightarrow> split_dots w = [w]"
  by (induction w) auto

lemma split_dots_append: "CHR ''.'' \<notin> set w \<Longrightarrow> split_dots (w @ CHR ''.'' # s) = w # split_dots s"
  by (induction w) auto

lemma dec_no_dot: "CHR ''.'' \<notin> set (dec n)"
  using dec_digits[of "CHR ''.''" n] by (auto simp: is_digit_def)

lemma dec_leading_zero: "hd (dec n) = CHR ''0'' \<Longrightarrow> length (dec n) = 1"
proof (induction n rule: dec.induct)
  case (1 n)
  show ?case
  proof (cases "n < 10")
    case True
    then show ?thesis by (subst dec.simps) simp
  next
    case False
    then have d: "dec n = dec (n div 10) @ [digit (n mod 10)]" by (subst dec.simps) simp
    with 1(2) dec_nonempty have h: "hd (dec (n div 10)) = CHR ''0''" by (simp add: hd_append)
    have "length (dec (n div 10)) = 1" using 1(1)[OF False h] .
    then obtain c where "dec (n div 10) = [c]" by (cases "dec (n div 10)") auto
    with h have "dec (n div 10) = ''0''" by simp
    then have "n div 10 = 0" using num_val_dec[of "n div 10"] by (simp add: num_val_def digit_val_def)
    with False show ?thesis by simp
  qed
qed

lemma octet_dec: "octet (dec (unat (b :: u8))) = Some b"
proof -
  have "unat b < 2 ^ 8" using unsigned_less[of b] by simp
  then have "unat b \<le> 255" by simp
  with dec_leading_zero[of "unat b"] show ?thesis
    by (auto simp: octet_def dec_nonempty list_all_iff dec_digits num_val_dec)
qed

lemma inet_pton_ntop: "inet_pton (inet_ntop a) = Some a"
proof -
  obtain p q r t where l: "le32 a = [p, q, r, t]" by (simp add: le32_def)
  then have "split_dots (inet_ntop a) = [dec (unat p), dec (unat q), dec (unat r), dec (unat t)]"
    by (simp add: inet_ntop_def split_dots_append split_dots_word dec_no_dot)
  then have "inet_pton (inet_ntop a) = Some (of_le32 [p, q, r, t])"
    by (simp add: inet_pton_def octet_dec)
  with l show ?thesis by (metis of_le32_le32)
qed

lemma setup_ifaces_addrs:
  "i + length as \<le> length fs \<Longrightarrow> setup_ifaces i (map inet_ntop as) fs
     = take i fs @ map (\<lambda>j. \<lparr>ind = of_nat (i + j), if_addr = as ! j\<rparr>) [0..<length as] @ drop (i + length as) fs"
proof (induction as arbitrary: i fs)
  case (Cons a as)
  then have "setup_ifaces i (map inet_ntop (a # as)) fs
      = setup_ifaces (Suc i) (map inet_ntop as) (fs[i := \<lparr>ind = of_nat i, if_addr = a\<rparr>])"
    by (simp add: inet_pton_ntop)
  also have "\<dots> = take (Suc i) (fs[i := \<lparr>ind = of_nat i, if_addr = a\<rparr>])
      @ map (\<lambda>j. \<lparr>ind = of_nat (Suc i + j), if_addr = as ! j\<rparr>) [0..<length as]
      @ drop (Suc i + length as) (fs[i := \<lparr>ind = of_nat i, if_addr = a\<rparr>])"
    using Cons by (intro Cons.IH) simp
  also have "take (Suc i) (fs[i := \<lparr>ind = of_nat i, if_addr = a\<rparr>]) = take i fs @ [\<lparr>ind = of_nat i, if_addr = a\<rparr>]"
    using Cons.prems by (simp add: take_Suc_conv_app_nth)
  finally show ?case using Cons.prems by (simp add: upt_conv_Cons map_Suc_upt[symmetric] del: upt_Suc)
qed simp

lemma launch_all: "\<forall>r. ok r \<Longrightarrow> launch ok ts = Inr (map fst ts)"
  by (induction ts) auto

lemma of_nat_u16_inject: "a < 65536 \<Longrightarrow> b < 65536 \<Longrightarrow> (of_nat a :: u16) = of_nat b \<longleftrightarrow> a = b"
  by (auto simp: of_nat_eq_iff word_of_nat_eq_iff take_bit_nat_eq_self)

section \<open>Properties\<close>

lemma draw_queues_distinct:
  "draw_queues n rnd k = Some q \<Longrightarrow> q_ird q \<noteq> q_imd q \<and> q_ird q \<noteq> q_ird_imd q \<and> q_imd q \<noteq> q_ird_imd q"
  by (induction n rnd k rule: draw_queues.induct) (auto simp: Let_def split: if_splits)

lemma draw_queues_returns:
  "distinct (map (\<lambda>i. rnd (k + 3 * j + i) mod 65535) [0..<3]) \<Longrightarrow> \<exists>q. draw_queues (Suc j) rnd k = Some q"
proof (induction j arbitrary: k)
  case 0
  then show ?case by (simp add: of_nat_u16_inject upt_rec Let_def numeral_2_eq_2)
next
  case (Suc j)
  from Suc.prems Suc.IH[of "k + 3"] have "\<exists>q. draw_queues (Suc j) rnd (k + 3) = Some q"
    by (simp add: algebra_simps)
  then show ?case by (subst draw_queues.simps) (auto simp: Let_def)
qed

lemma draw_queues_more: "draw_queues n rnd k = Some q \<Longrightarrow> n \<le> m \<Longrightarrow> draw_queues m rnd k = Some q"
proof (induction n arbitrary: k m)
  case (Suc n)
  then show ?case by (cases m) (auto simp: Let_def split: if_splits)
qed simp

definition arg_host :: "in_addr list \<Rightarrow> host" where
  "arg_host as = \<lparr>nb_ifaces = length as, ifaces = map (\<lambda>j. \<lparr>ind = of_nat j, if_addr = as ! j\<rparr>) [0..<length as]
     @ replicate (16 - length as) \<lparr>ind = 0, if_addr = 0\<rparr>\<rparr>"

lemma arg_host_inds:
  assumes "length as \<le> 16"
  shows "inds_ok (arg_host as)"
proof -
  have "unat (of_nat j :: u8) < 16" if "j < length as" for j
    using that assms by (simp add: unat_of_nat)
  with assms show ?thesis by (auto simp: arg_host_def inds_ok_def host_ok_def iprp_consts)
qed

text \<open>
  C29. The control daemon describes the host its arguments name: started with the number of
  interfaces (1 to 16) and their addresses in dotted form, and with random numbers of which some
  three in a row differ, it launches its threads with a host whose interface \<open>i\<close> has IND \<open>i\<close>
  and address \<open>i\<close>, and with three different queue numbers.
\<close>

theorem icd_arguments_give_host:
  assumes "1 \<le> length as" and "length as \<le> 16" and "\<forall>r. ok r"
    and "distinct (map (\<lambda>i. rnd (3 * j + i) mod 65535) [0..<3])" and "j < fuel"
  shows "\<exists>q. icd_main v ok fuel rnd (prog # dec (length as) # map inet_ntop as)
      = Some (Inr (Launched (arg_host as, q, map fst (icd_threads v))))
    \<and> inds_ok (arg_host as)
    \<and> q_ird q \<noteq> q_imd q \<and> q_ird q \<noteq> q_ird_imd q \<and> q_imd q \<noteq> q_ird_imd q"
proof -
  from draw_queues_returns[of rnd 0 j] assms(4) obtain q0 where "draw_queues (Suc j) rnd 0 = Some q0" by auto
  then have q: "draw_queues fuel rnd 0 = Some q0" using draw_queues_more assms(5) Suc_leI by blast
  have "unat (word_of_int (atoi (dec (length as))) :: u64) = length as"
    using assms(2) by (simp add: atoi_dec unat_of_nat)
  then have "icd_main v ok fuel rnd (prog # dec (length as) # map inet_ntop as)
      = Some (Inr (Launched (\<lparr>nb_ifaces = length as, ifaces = setup_ifaces 0 (map inet_ntop as)
          (replicate 16 \<lparr>ind = 0, if_addr = 0\<rparr>)\<rparr>, q0, map fst (icd_threads v))))"
    using assms(1,2) q by (auto simp: icd_main_def launch_all[OF assms(3)] iprp_consts Let_def)
  also have "setup_ifaces 0 (map inet_ntop as) (replicate 16 \<lparr>ind = 0, if_addr = 0\<rparr>) = ifaces (arg_host as)"
    using assms(2) by (simp add: setup_ifaces_addrs arg_host_def)
  finally show ?thesis
    using draw_queues_distinct[OF q] arg_host_inds[OF assms(2)] by (auto simp: arg_host_def)
qed

theorem icd_arguments_give_host_witness:
  "\<exists>q. icd_main Multicast (\<lambda>_. True) 9 (\<lambda>i. i) (''icd'' # dec (length [0x0A00000A, 0x0B00000A])
        # map inet_ntop [0x0A00000A, 0x0B00000A])
      = Some (Inr (Launched (arg_host [0x0A00000A, 0x0B00000A], q, map fst (icd_threads Multicast))))
    \<and> q_ird q \<noteq> q_imd q"
  using icd_arguments_give_host[of "[0x0A00000A, 0x0B00000A]" "\<lambda>_. True" "\<lambda>i. i" 0 9 Multicast "''icd''"]
  by (auto simp: upt_rec)

text \<open>
  The control daemon refuses every other argument list before it touches anything: without
  arguments, with a number of interfaces that is not between 1 and 16 (negative numbers included), or
  with more or fewer addresses than the number says, it returns EXIT\_FAILURE.
\<close>

theorem icd_refuses_bad_arguments:
  assumes "length argv < 2 \<or> atoi (argv ! 1) < 1 \<or> 16 < atoi (argv ! 1)
    \<or> int (length argv) \<noteq> atoi (argv ! 1) + 2"
  shows "icd_main v ok fuel rnd argv = Some (Inr (Exit EXIT_FAILURE))"
proof (cases "length argv < 2")
  case False
  let ?a = "atoi (argv ! 1)"
  let ?nb = "unat (word_of_int ?a :: u64)"
  have b: "- 2147483648 \<le> ?a" "?a < 2147483648"
    using sint_range_u32[of "word_of_int (max (- 9223372036854775808) (min 9223372036854775807 _))"]
    by (auto simp: atoi_def Let_def)
  show ?thesis
  proof (cases "0 \<le> ?a")
    case True
    then have "?nb = nat ?a" using b by (simp add: unat_word_of_int_u64)
    with True False assms show ?thesis by (auto simp: icd_main_def iprp_consts Let_def)
  next
    case neg: False
    then have "16 < ?nb" using b by (simp add: unat_word_of_int_neg)
    with False show ?thesis by (simp add: icd_main_def iprp_consts Let_def)
  qed
qed (simp add: icd_main_def)

theorem icd_refuses_bad_arguments_witness:
  "icd_main Unicast (\<lambda>_. True) 9 (\<lambda>i. i) [''icd'', ''17''] = Some (Inr (Exit EXIT_FAILURE))"
  by (rule icd_refuses_bad_arguments) (simp add: atoi_def is_space_def is_digit_def num_val_def digit_val_def)

text \<open>
  C30. The queue numbers reach the daemons: when a round of the ports routine starts the receiving
  side, the arguments it gives are read back as the numbers the control daemon drew.  The receiving
  daemon reads the queue of the data port and forwards to the queue that the second packet thread of
  the monitoring daemon reads; the first thread of that daemon reads the queue of the monitored ports.
\<close>

theorem queue_numbers_reach_daemons:
  assumes "ports_env_ok env" and "open_files s < max_files env" and "\<not> receiver_active s"
    and "monitored s = []" and "ports_read env \<noteq> []" and "\<forall>r. ok r"
  shows "\<exists>s' ird imd. ports_round q env s = Inr s' \<and> receiver_active s' \<and> started s' = started s @ [ird, imd]
    \<and> ird_main v ok ird = Inr (int (unat (q_ird q)), int (unat (q_ird_imd q)), map fst (ird_threads v))
    \<and> imd_main ok imd
        = Inr (int (unat (q_imd q)), int (unat (q_ird_imd q)), [] :: unit list, map fst imd_threads)"
proof -
  from ports_round_result[OF assms(1,2), of q] assms(3,4) obtain s' where
    s': "ports_round q env s = Inr s'" "monitored s' = round_monitored (ports_read env) []"
      "receiver_active s' = (monitored s' \<noteq> [])"
      "started s' = started s @ (if monitored s' \<noteq> [] then receiver_args q else [])" by auto
  have "monitored s' \<noteq> []" using s'(2) round_monitored_set(1)[of "ports_read env" "[]"] assms(5) by auto
  with s' show ?thesis
    by (intro exI[of _ s'] exI[of _ "receiver_args q ! 0"] exI[of _ "receiver_args q ! 1"])
      (simp add: receiver_args_def ird_main_def imd_main_def atoi_arg_def argument_def atoi_uint launch_all[OF assms(6)])
qed

theorem queue_numbers_reach_daemons_witness:
  "\<exists>s' ird imd. ports_round example_queues (example_ports_env (ports_text [53])) ports_init = Inr s'
    \<and> started s' = [ird, imd]
    \<and> ird_main Unicast (\<lambda>_. True) ird = Inr (10, 12, map fst (ird_threads Unicast))
    \<and> imd_main (\<lambda>_. True) imd = Inr (11, 12, [] :: unit list, map fst imd_threads)"
  using queue_numbers_reach_daemons[of "example_ports_env (ports_text [53])" ports_init "\<lambda>_. True"
      example_queues Unicast]
  by (auto simp: example_ports_env_def ports_init_def ports_env_ok_def ports_read_def read_ports_text
      example_queues_def iprp_consts)

end
