(* ===== verification/Iprp_Flood.thy ===== *)
theory Iprp_Flood
  imports Iprp_Daemons
begin

text \<open>
  The two programs that measure losses (scripts/floodClient.c and scripts/floodServer.c): the client
  sends numbered packets, the server reads the numbers and counts those that never came.  A buffer is a
  string of its full size, with the character 0 where the C string in it ends.
\<close>

definition FLOOD_PORT :: u16 where "FLOOD_PORT = 1002"
definition CLIENT_BUFLEN :: nat where "CLIENT_BUFLEN = 500"
definition SERVER_BUFLEN :: nat where "SERVER_BUFLEN = 512"

definition NUL :: char where "NUL = CHR 0x00"

section \<open>Strings in buffers\<close>

text \<open>\<open>sprintf\<close> writes the text and its end; the rest of the buffer stays.\<close>

definition sprintf :: "string \<Rightarrow> string \<Rightarrow> string result" where
  "sprintf s buf = (if length s < length buf then Inr (s @ NUL # drop (Suc (length s)) buf) else Inl OutOfBounds)"

text \<open>\<open>strncpy\<close>: at most \<open>n\<close> characters, and zeros up to \<open>n\<close> after a shorter string.\<close>

definition strncpy :: "nat \<Rightarrow> string \<Rightarrow> string \<Rightarrow> string" where
  "strncpy n src dst =
     (let s = takeWhile (\<lambda>c. c \<noteq> NUL) (take n src) in s @ replicate (n - length s) NUL @ drop n dst)"

text \<open>\<open>%-10ld\<close>\<close>

definition fmt_left :: "nat \<Rightarrow> string \<Rightarrow> string" where
  "fmt_left w s = s @ replicate (w - length s) CHR '' ''"

text \<open>The result of an \<open>int\<close> operation.\<close>

definition int32 :: "int \<Rightarrow> int result" where
  "int32 i = (if - 2147483648 \<le> i \<and> i < 2147483648 then Inr i else Inl SignedOverflow)"

section \<open>The client\<close>

definition packet_text :: "int \<Rightarrow> int \<times> int \<Rightarrow> string" where
  "packet_text jj now = fmt_left 10 (fmt_d jj) @ '' '' @ fmt_d (fst now) @ ''.'' @ fmt_d (snd now)"

text \<open>The loop sends the whole buffer each time; \<open>now\<close> gives the seconds and microseconds at each packet,
  as the code casts them to \<open>int\<close>.\<close>

function client_loop :: "int \<Rightarrow> (int \<Rightarrow> int \<times> int) \<Rightarrow> int \<Rightarrow> string \<Rightarrow> string list result" where
  "client_loop num now jj buf =
     (if jj < num
      then and_then (sprintf (packet_text jj (now jj)) buf) (\<lambda>b.
           and_then (client_loop num now (jj + 1) b) (\<lambda>ps. Inr (b # ps)))
      else Inr [])"
  by pat_completeness auto
termination by (relation "measure (\<lambda>(num, now, jj, buf). nat (num - jj))") auto

declare client_loop.simps [simp del]

text \<open>The arguments: address, interval, number of packets.  The result is the destination and the
  packets.\<close>

definition flood_client ::
  "int \<Rightarrow> (int \<Rightarrow> int \<times> int) \<Rightarrow> string \<Rightarrow> string list \<Rightarrow> (sockaddr_in \<times> string list) result" where
  "flood_client sock now stack argv =
     (if sock = -1 then Inl (Err ''socket'')
      else and_then (argument argv 1) (\<lambda>a. case a of
          None \<Rightarrow> Inl NullDeref
        | Some s \<Rightarrow> (case inet_pton s of
            None \<Rightarrow> Inl (Err ''inet_aton() failed'')
          | Some addr \<Rightarrow>
              and_then (atoi_arg argv 2) (\<lambda>interval. and_then (atoi_arg argv 3) (\<lambda>num.
              and_then (client_loop num now 1 stack) (\<lambda>ps. Inr (sockaddr_fill addr FLOOD_PORT, ps)))))))"

section \<open>The server\<close>

record flood =
  fl_buf :: string
  fl_dummy :: string
  fl_recv :: int
  fl_old :: int
  fl_loss :: int
  fl_cmds :: "string list"

definition loss_command :: "int \<Rightarrow> string \<Rightarrow> int \<Rightarrow> string" where
  "loss_command from_id outstat gap =
     ''./loss_d.sh '' @ fmt_d from_id @ '' '' @ outstat @ '' '' @ fmt_d gap @ ''&''"

text \<open>
  A received packet overwrites the start of the buffer.  The number is read from its first ten
  characters; \<open>dummy\<close> is not ended after them.  \<open>outstat\<close> is the text of the time.
\<close>

definition flood_step :: "string \<Rightarrow> string \<Rightarrow> flood \<Rightarrow> flood result" where
  "flood_step data outstat s =
     (let d = take SERVER_BUFLEN data;
          buf = d @ drop (length d) (fl_buf s);
          d1 = strncpy 10 buf (fl_dummy s);
          new_id = atoi d1;
          d2 = strncpy 18 (drop 31 buf) d1;
          s1 = s\<lparr>fl_buf := buf, fl_recv := fl_recv s + 1, fl_old := new_id\<rparr>
      in and_then (int32 (new_id - 1)) (\<lambda>before.
         if fl_old s \<noteq> before
         then and_then (int32 (new_id - fl_old s)) (\<lambda>diff.
              and_then (int32 (diff - 1)) (\<lambda>gap.
              and_then (int32 (fl_loss s + gap)) (\<lambda>loss.
              and_then (int32 (fl_old s + 1)) (\<lambda>from_id.
              and_then (sprintf (loss_command from_id outstat gap) d2) (\<lambda>d3.
              Inr (s1\<lparr>fl_dummy := d3, fl_loss := loss,
                fl_cmds := fl_cmds s @ [loss_command from_id outstat gap]\<rparr>))))))
         else Inr (s1\<lparr>fl_dummy := d2\<rparr>)))"

text \<open>The loop; \<open>None\<close> is an error of \<open>recvfrom\<close>, which is only printed.  The flag is whether
  the loop has ended.\<close>

fun flood_loop :: "int \<Rightarrow> (string option \<times> string) list \<Rightarrow> flood \<Rightarrow> (flood \<times> bool) result" where
  "flood_loop limit [] s = Inr (s, \<not> fl_recv s < limit)"
| "flood_loop limit ((r, outstat) # rs) s =
     (if \<not> fl_recv s < limit then Inr (s, True)
      else case r of
          None \<Rightarrow> flood_loop limit rs s
        | Some data \<Rightarrow> and_then (flood_step data outstat s) (flood_loop limit rs))"

definition flood_init :: "string \<Rightarrow> string \<Rightarrow> flood" where
  "flood_init buf dummy = \<lparr>fl_buf = buf, fl_dummy = dummy, fl_recv = 0, fl_old = 0, fl_loss = 0, fl_cmds = []\<rparr>"

definition flood_server ::
  "int \<Rightarrow> (sockaddr_in \<Rightarrow> bool) \<Rightarrow> string \<Rightarrow> string \<Rightarrow> string list \<Rightarrow> (string option \<times> string) list
   \<Rightarrow> (flood \<times> bool) result" where
  "flood_server sock bind_ok buf dummy argv rs =
     and_then (atoi_arg argv 1) (\<lambda>recvLimit.
     if sock = -1 then Inl (Err ''socket'')
     else if \<not> bind_ok (sockaddr_fill 0 FLOOD_PORT) then Inl (Err ''bind'')
     else flood_loop recvLimit rs (flood_init buf dummy))"

section \<open>The number of a packet\<close>

lemma atoi_prefix:
  assumes "n < 2147483648" and "\<not> is_digit c"
  shows "atoi (dec n @ c # rest) = int n"
proof -
  obtain d ds where d: "dec n = d # ds" using dec_nonempty[of n] by (cases "dec n") auto
  then have h: "\<not> is_space d \<and> d \<noteq> CHR ''+'' \<and> d \<noteq> CHR ''-''"
    using hd_dec[of n] digit_not_space_sign by simp
  have t: "takeWhile is_digit (dec n @ c # rest) = dec n"
    using assms(2) dec_digits[of _ n] by (simp add: takeWhile_append2)
  from d h have "atoi (dec n @ c # rest) = sint (word_of_int (max (- 9223372036854775808) (min 9223372036854775807
      (int (num_val 10 (takeWhile is_digit (dec n @ c # rest)))))) :: u32)"
    by (simp add: atoi_def)
  also have "\<dots> = int n"
    using assms(1) by (simp only: t num_val_dec) (simp add: sint_of_nat_u32)
  finally show ?thesis .
qed

text \<open>What the client sent under a number: the text of the number, then anything.\<close>

definition numbered :: "nat \<Rightarrow> string \<Rightarrow> bool" where
  "numbered n p \<longleftrightarrow> length p = CLIENT_BUFLEN \<and> take 10 p = fmt_left 10 (dec n)"

lemma numbered_read:
  assumes "numbered n p" and "n < 1000000000"
  shows "atoi (strncpy 10 (p @ rest) dummy) = int n"
proof -
  have l: "length (dec n) \<le> 9" using assms(2) length_dec[of n 9] by simp
  have "take 10 (p @ rest) = fmt_left 10 (dec n)" using assms(1) by (simp add: numbered_def CLIENT_BUFLEN_def)
  moreover have "takeWhile (\<lambda>c. c \<noteq> NUL) (fmt_left 10 (dec n)) = fmt_left 10 (dec n)"
    using dec_digits[of _ n] by (fastforce simp: takeWhile_eq_all_conv fmt_left_def NUL_def is_digit_def)
  ultimately have s: "strncpy 10 (p @ rest) dummy = fmt_left 10 (dec n) @ drop 10 dummy"
    using l by (simp add: strncpy_def fmt_left_def)
  have "fmt_left 10 (dec n) = dec n @ CHR '' '' # replicate (9 - length (dec n)) CHR '' ''"
    using l by (simp add: fmt_left_def Suc_diff_le replicate_Suc[symmetric] del: replicate_Suc)
  then show ?thesis unfolding s using assms(2) atoi_prefix[of n "CHR '' ''"] by (simp add: is_digit_def)
qed

section \<open>The packets of the client\<close>

definition now_ok :: "(int \<Rightarrow> int \<times> int) \<Rightarrow> bool" where
  "now_ok now \<longleftrightarrow> (\<forall>j. \<bar>fst (now j)\<bar> \<le> 2147483648 \<and> \<bar>snd (now j)\<bar> \<le> 2147483648)"

lemma length_fmt_d: "\<bar>i\<bar> \<le> 2147483648 \<Longrightarrow> length (fmt_d i) \<le> 11"
proof -
  assume i: "\<bar>i\<bar> \<le> 2147483648"
  have "length (dec (nat \<bar>i\<bar>)) \<le> 10" using length_dec[of "nat \<bar>i\<bar>" 10] i by simp
  then show ?thesis by (simp add: fmt_d_def abs_if split: if_splits)
qed

lemma packet_numbered:
  assumes "now_ok now" and "n < 1000000000" and "length buf = CLIENT_BUFLEN"
  shows "\<exists>b. sprintf (packet_text (int n) (now (int n))) buf = Inr b \<and> numbered n b"
proof -
  have l: "length (dec n) \<le> 9" using assms(2) length_dec[of n 9] by simp
  let ?t = "packet_text (int n) (now (int n))"
  have f: "length (fmt_left 10 (dec n)) = 10" using l by (simp add: fmt_left_def)
  have "length (fmt_d (fst (now (int n)))) \<le> 11" "length (fmt_d (snd (now (int n)))) \<le> 11"
    using assms(1) by (simp_all add: now_ok_def length_fmt_d)
  then have "length ?t \<le> 34" using f by (simp add: packet_text_def fmt_d_def)
  moreover have "take 10 ?t = fmt_left 10 (dec n)" "10 \<le> length ?t" using f by (simp_all add: packet_text_def fmt_d_def)
  ultimately show ?thesis using assms(3) by (simp add: sprintf_def numbered_def CLIENT_BUFLEN_def)
qed

lemma client_loop_numbers:
  "now_ok now \<Longrightarrow> length buf = CLIENT_BUFLEN \<Longrightarrow> 0 \<le> jj \<Longrightarrow> num \<le> 1000000000 \<Longrightarrow>
   \<exists>ps. client_loop num now jj buf = Inr ps \<and> length ps = nat (num - jj) \<and> (\<forall>i < length ps. numbered (nat jj + i) (ps ! i))"
proof (induction num now jj buf rule: client_loop.induct)
  case (1 num now jj buf)
  show ?case
  proof (cases "jj < num")
    case True
    then have j: "nat jj < 1000000000" "int (nat jj) = jj" using 1(4,5) by simp_all
    from packet_numbered[OF 1(2) j(1) 1(3), unfolded j(2)] obtain b where
      b: "sprintf (packet_text jj (now jj)) buf = Inr b" "numbered (nat jj) b" by blast
    have lb: "length b = CLIENT_BUFLEN" using b(2) by (simp add: numbered_def)
    from 1(1)[OF True 1(2) lb _ 1(5)] 1(4) obtain ps where
      ps: "client_loop num now (jj + 1) b = Inr ps" "length ps = nat (num - (jj + 1))"
        "\<forall>i < length ps. numbered (nat (jj + 1) + i) (ps ! i)" by auto
    have "\<forall>i < length (b # ps). numbered (nat jj + i) ((b # ps) ! i)"
    proof (intro allI impI)
      fix i assume "i < length (b # ps)"
      then show "numbered (nat jj + i) ((b # ps) ! i)"
        using b(2) ps(3) 1(4) by (cases i) (auto simp: nat_add_distrib)
    qed
    moreover have "client_loop num now jj buf = Inr (b # ps)"
      using True b(1) ps(1) by (simp add: client_loop.simps[of num now jj buf])
    ultimately show ?thesis using ps(2) True by (intro exI[of _ "b # ps"]) simp
  next
    case False
    then show ?thesis by (simp add: client_loop.simps[of num now jj buf])
  qed
qed

section \<open>The count of the server\<close>

fun gap_commands :: "int \<Rightarrow> (nat \<times> string) list \<Rightarrow> string list" where
  "gap_commands old [] = []"
| "gap_commands old ((n, outstat) # xs) =
     (if int n = old + 1 then [] else [loss_command (old + 1) outstat (int n - old - 1)]) @ gap_commands (int n) xs"

text \<open>The state between packets: the loss is always the last number less the packets received.\<close>

definition flood_inv :: "flood \<Rightarrow> bool" where
  "flood_inv s \<longleftrightarrow> length (fl_buf s) = SERVER_BUFLEN \<and> length (fl_dummy s) = SERVER_BUFLEN
     \<and> 0 \<le> fl_recv s \<and> 0 \<le> fl_old s \<and> fl_old s < 1000000000 \<and> fl_loss s = fl_old s - fl_recv s"

lemma length_strncpy: "n \<le> length dst \<Longrightarrow> length (strncpy n src dst) = length dst"
proof -
  assume n: "n \<le> length dst"
  have "length (takeWhile (\<lambda>c. c \<noteq> NUL) (take n src)) \<le> length (take n src)" by (rule length_takeWhile_le)
  with n show ?thesis by (simp add: strncpy_def Let_def)
qed

lemma flood_step_counts:
  assumes inv: "flood_inv s" and p: "numbered n p" "0 < n" "n < 1000000000" and o: "length outstat < 100"
    and r: "fl_recv s < 1000000000"
  shows "\<exists>s'. flood_step p outstat s = Inr s' \<and> flood_inv s' \<and> fl_recv s' = fl_recv s + 1 \<and> fl_old s' = int n
    \<and> fl_cmds s' = fl_cmds s @ gap_commands (fl_old s) [(n, outstat)]"
proof -
  let ?buf = "p @ drop CLIENT_BUFLEN (fl_buf s)"
  let ?d1 = "strncpy 10 ?buf (fl_dummy s)"
  let ?d2 = "strncpy 18 (drop 31 ?buf) ?d1"
  have l: "length p = CLIENT_BUFLEN" "length (fl_buf s) = SERVER_BUFLEN" "length (fl_dummy s) = SERVER_BUFLEN"
    using p(1) inv by (simp_all add: numbered_def flood_inv_def)
  then have t: "take SERVER_BUFLEN p = p" "length ?buf = SERVER_BUFLEN" by (simp_all add: CLIENT_BUFLEN_def SERVER_BUFLEN_def)
  have d: "length ?d1 = SERVER_BUFLEN" "length ?d2 = SERVER_BUFLEN"
    using l by (simp_all add: length_strncpy SERVER_BUFLEN_def)
  have id: "atoi ?d1 = int n" using numbered_read[OF p(1,3)] .
  have i: "0 \<le> fl_recv s" "0 \<le> fl_old s" "fl_old s < 1000000000" "fl_loss s = fl_old s - fl_recv s"
    using inv by (simp_all add: flood_inv_def)
  let ?s = "s\<lparr>fl_buf := ?buf, fl_recv := fl_recv s + 1, fl_old := int n\<rparr>"
  show ?thesis
  proof (cases "fl_old s = int n - 1")
    case True
    then have "flood_step p outstat s = Inr (?s\<lparr>fl_dummy := ?d2\<rparr>)"
      using p(2,3) by (simp add: flood_step_def Let_def t(1) l(1) id int32_def)
    with True i d t(2) p(3) show ?thesis by (simp add: flood_inv_def)
  next
    case False
    let ?c = "loss_command (fl_old s + 1) outstat (int n - fl_old s - 1)"
    have "length (fmt_d (fl_old s + 1)) \<le> 11" "length (fmt_d (int n - fl_old s - 1)) \<le> 11"
      using i p(3) by (simp_all add: length_fmt_d)
    then have "length ?c < SERVER_BUFLEN" using o by (simp add: loss_command_def SERVER_BUFLEN_def)
    then obtain d3 where d3: "sprintf ?c ?d2 = Inr d3" "length d3 = SERVER_BUFLEN" using d(2) by (simp add: sprintf_def)
    have "flood_step p outstat s = Inr (?s\<lparr>fl_dummy := d3, fl_loss := fl_loss s + (int n - fl_old s - 1), fl_cmds := fl_cmds s @ [?c]\<rparr>)"
      using False p(2,3) i r d3(1) by (simp add: flood_step_def Let_def t(1) l(1) id int32_def)
    with False i d3(2) t(2) p(3) show ?thesis by (simp add: flood_inv_def)
  qed
qed

lemma flood_loop_counts:
  "flood_inv s \<Longrightarrow> list_all2 (\<lambda>(n, o') (p, o''). numbered n p \<and> o' = o'' \<and> length o' < 100) xs ps \<Longrightarrow>
   \<forall>x \<in> set xs. 0 < fst x \<and> fst x < 1000000000 \<Longrightarrow> limit = fl_recv s + int (length xs) \<Longrightarrow> limit \<le> 1000000000 \<Longrightarrow>
   \<exists>s'. flood_loop limit (map (\<lambda>(p, outstat). (Some p, outstat)) ps) s = Inr (s', True) \<and> flood_inv s'
     \<and> fl_recv s' = limit \<and> fl_old s' = (if xs = [] then fl_old s else int (fst (last xs)))
     \<and> fl_cmds s' = fl_cmds s @ gap_commands (fl_old s) xs"
proof (induction xs arbitrary: ps s)
  case (Cons x xs)
  obtain n outstat where x: "x = (n, outstat)" by (cases x)
  from Cons.prems(2) x obtain p ps' where ps: "ps = (p, outstat) # ps'" "numbered n p" "length outstat < 100"
    "list_all2 (\<lambda>(n, o') (p, o''). numbered n p \<and> o' = o'' \<and> length o' < 100) xs ps'"
    by (auto simp: list_all2_Cons1)
  have n: "0 < n" "n < 1000000000" "fl_recv s < 1000000000" using Cons.prems(3-5) x by simp_all
  from flood_step_counts[OF Cons.prems(1) ps(2) n(1,2) ps(3) n(3)] obtain s1 where
    s1: "flood_step p outstat s = Inr s1" "flood_inv s1" "fl_recv s1 = fl_recv s + 1" "fl_old s1 = int n"
      "fl_cmds s1 = fl_cmds s @ gap_commands (fl_old s) [(n, outstat)]" by blast
  from Cons.IH[OF s1(2) ps(4)] Cons.prems(3-5) s1(3) obtain s' where
    "flood_loop limit (map (\<lambda>(p, outstat). (Some p, outstat)) ps') s1 = Inr (s', True)" "flood_inv s'"
    "fl_recv s' = limit" "fl_old s' = (if xs = [] then fl_old s1 else int (fst (last xs)))"
    "fl_cmds s' = fl_cmds s1 @ gap_commands (fl_old s1) xs" by auto
  moreover have "fl_recv s < limit" using Cons.prems(4) by simp
  ultimately show ?case using s1 x ps(1) by (intro exI[of _ s']) auto
qed simp

lemma card_missing:
  assumes "sorted_wrt (<) xs" and "xs \<noteq> []" and "\<forall>x \<in> set xs. 0 < x"
  shows "int (card ({1..last xs} - set xs)) = int (last xs) - int (length xs)"
proof -
  have d: "distinct xs" using assms(1) strict_sorted_iff by blast
  have "\<forall>x \<in> set xs. x \<le> last xs"
    using assms(1,2) by (metis append_butlast_last_id in_set_conv_decomp le_less sorted_wrt_append
        set_ConsD split_list append_self_conv2 list.set_intros(1) Un_iff set_append empty_iff list.set(1) insert_iff list.simps(15))
  then have "set xs \<subseteq> {1..last xs}" using assms(3) by (auto simp: Suc_le_eq)
  then have "card ({1..last xs} - set xs) = last xs - length xs"
    using d by (simp add: card_Diff_subset distinct_card)
  moreover have "length xs \<le> last xs"
    using card_mono[OF _ \<open>set xs \<subseteq> {1..last xs}\<close>] d by (simp add: distinct_card)
  ultimately show ?thesis by simp
qed

section \<open>Property\<close>

text \<open>
  C31. The measured loss is the loss: the client, asked for \<open>num\<close> packets, sends \<open>num - 1\<close> of them; whichever
  of these reach the server, in any order and with repetitions, the server ends when it has as many as it
  was asked for, has called the log script once per gap with its first number and size, and its loss is the last
  number less the count of packets; when none was repeated or overtaken, that is the number of packets
  before the last that never came.
\<close>

theorem flood_loss_is_counted:
  assumes "csock \<noteq> -1" and "ssock \<noteq> -1" and "bind_ok (sockaddr_fill 0 FLOOD_PORT)" and "now_ok now"
    and "length stack = CLIENT_BUFLEN" and "length buf = SERVER_BUFLEN" and "length dummy = SERVER_BUFLEN"
    and "num \<le> 1000000000" and "xs \<noteq> []" and "set xs \<subseteq> {1..<num}" and "length xs \<le> 1000000000"
    and "\<forall>x. length (outstat x) < 100"
  shows "\<exists>ps s. flood_client csock now stack [prog, inet_ntop addr, interval, dec num]
        = Inr (sockaddr_fill addr FLOOD_PORT, ps) \<and> length ps = num - 1
    \<and> flood_server ssock bind_ok buf dummy [prog', dec (length xs)] (map (\<lambda>x. (Some (ps ! (x - 1)), outstat x)) xs)
        = Inr (s, True)
    \<and> fl_cmds s = gap_commands 0 (map (\<lambda>x. (x, outstat x)) xs)
    \<and> fl_loss s = int (last xs) - int (length xs)
    \<and> (sorted_wrt (<) xs \<longrightarrow> fl_loss s = int (card ({1..last xs} - set xs)))"
proof -
  have a: "atoi (dec num) = int num" "atoi (dec (length xs)) = int (length xs)" using assms(8,11) by (simp_all add: atoi_dec)
  from client_loop_numbers[OF assms(4,5), of 1 "int num"] assms(8) obtain ps where
    ps: "client_loop (int num) now 1 stack = Inr ps" "length ps = num - 1" "\<forall>i < length ps. numbered (Suc i) (ps ! i)"
    by auto
  have c: "flood_client csock now stack [prog, inet_ntop addr, interval, dec num] = Inr (sockaddr_fill addr FLOOD_PORT, ps)"
    using assms(1) a(1) ps(1) by (simp add: flood_client_def argument_def atoi_arg_def inet_pton_ntop)
  let ?xs = "map (\<lambda>x. (x, outstat x)) xs" and ?ps = "map (\<lambda>x. (ps ! (x - 1), outstat x)) xs"
  have "numbered x (ps ! (x - 1))" if "x \<in> set xs" for x
    using ps(2,3) assms(10) that by (cases x) auto
  then have n: "list_all2 (\<lambda>(n, o') (p, o''). numbered n p \<and> o' = o'' \<and> length o' < 100) ?xs ?ps"
    using assms(12) by (simp add: list.rel_map list.rel_refl_strong)
  have "\<forall>x \<in> set ?xs. 0 < fst x \<and> fst x < 1000000000" using assms(8,10) by auto
  moreover have "flood_inv (flood_init buf dummy)" using assms(6,7) by (simp add: flood_inv_def flood_init_def)
  ultimately obtain s where
    s: "flood_loop (int (length xs)) (map (\<lambda>(p, outstat). (Some p, outstat)) ?ps) (flood_init buf dummy) = Inr (s, True)"
      "flood_inv s" "fl_recv s = int (length xs)" "fl_old s = int (last xs)" "fl_cmds s = gap_commands 0 ?xs"
    using flood_loop_counts[OF _ n, of "flood_init buf dummy" "int (length xs)"] assms(9,11)
    by (auto simp: flood_init_def last_map)
  have "flood_server ssock bind_ok buf dummy [prog', dec (length xs)] (map (\<lambda>x. (Some (ps ! (x - 1)), outstat x)) xs) = Inr (s, True)"
    using assms(2,3) a(2) s(1) by (simp add: flood_server_def argument_def atoi_arg_def comp_def)
  moreover have "fl_loss s = int (last xs) - int (length xs)" using s(2-4) by (simp add: flood_inv_def)
  moreover have "sorted_wrt (<) xs \<longrightarrow> int (last xs) - int (length xs) = int (card ({1..last xs} - set xs))"
  proof
    assume "sorted_wrt (<) xs"
    moreover have "\<forall>x \<in> set xs. 0 < x" using assms(10) by fastforce
    ultimately show "int (last xs) - int (length xs) = int (card ({1..last xs} - set xs))"
      using card_missing[of xs] assms(9) by simp
  qed
  ultimately show ?thesis using c ps(2) s(5) by (intro exI[of _ ps] exI[of _ s]) simp
qed

theorem flood_loss_is_counted_witness:
  "\<exists>ps s. flood_client 3 (\<lambda>j. (1500000000, 250)) (replicate 500 CHR ''x'') [''floodClient'', inet_ntop 1, ''10'', dec 6]
        = Inr (sockaddr_fill 1 FLOOD_PORT, ps) \<and> length ps = 5
    \<and> flood_server 4 (\<lambda>a. True) (replicate 512 CHR ''x'') (replicate 512 CHR ''y'') [''floodServer'', dec (length [2, 5 :: nat])]
        (map (\<lambda>x. (Some (ps ! (x - 1)), ''now'')) [2, 5]) = Inr (s, True)
    \<and> fl_loss s = 3"
proof -
  have "now_ok (\<lambda>j. (1500000000, 250))" by (simp add: now_ok_def)
  from flood_loss_is_counted[of 3 4 "\<lambda>a. True", OF _ _ _ this, of "replicate 500 CHR ''x''" "replicate 512 CHR ''x''"
      "replicate 512 CHR ''y''" 6 "[2, 5]" "\<lambda>x. ''now''" "''floodClient''" 1 "''10''" "''floodServer''"]
  show ?thesis by (simp add: CLIENT_BUFLEN_def SERVER_BUFLEN_def) blast
qed

end
