(* ===== verification/Iprp_Udp.thy ===== *)
theory Iprp_Udp
  imports Iprp_Flood
begin

text \<open>
  The interactive pair of test programs (scripts/udpClient.c and scripts/udpServer.c): after each line of
  input the client sends a numbered, time-stamped message, and the server prints what it receives.
  Both call a function \<open>err\<close> they do not declare when a system call fails; what such a call does is the
  argument \<open>bad_err\<close>.
\<close>

definition UDP_NUM :: int where "UDP_NUM = 10000000"
definition UDP_BUFLEN :: nat where "UDP_BUFLEN = 256"
definition UDP_SRC_PORT :: u16 where "UDP_SRC_PORT = 1002"

text \<open>\<open>%d\<close> of a \<open>long\<close> prints its low half as an \<open>int\<close>.\<close>

definition fmt_d_long :: "int \<Rightarrow> string" where
  "fmt_d_long t = fmt_d (sint (word_of_int t :: u32))"

text \<open>
  \<open>inet_aton\<close>: one to four numbers in decimal, octal or hexadecimal, of which the last fills the bytes
  the others leave; the text ends at the first space.
\<close>

definition lower_hex :: "char \<Rightarrow> char" where
  "lower_hex c = (case find_idx (\<lambda>d. d = c) ''ABCDEF'' of None \<Rightarrow> c | Some i \<Rightarrow> ''abcdef'' ! i)"

definition aton_part :: "string \<Rightarrow> nat option" where
  "aton_part s =
     (if s \<noteq> [] \<and> hd s \<noteq> CHR ''0'' \<and> list_all is_digit s then Some (num_val 10 s)
      else if 2 < length s \<and> (take 2 s = ''0x'' \<or> take 2 s = ''0X'')
              \<and> list_all (\<lambda>c. lower_hex c \<in> set ''0123456789abcdef'') (drop 2 s)
      then Some (num_val 16 (map lower_hex (drop 2 s)))
      else if s \<noteq> [] \<and> hd s = CHR ''0'' \<and> list_all (\<lambda>c. c \<in> set ''01234567'') s then Some (num_val 8 s)
      else None)"

definition addr_of_value :: "nat \<Rightarrow> in_addr" where
  "addr_of_value n = of_le32 [of_nat (n div 16777216), of_nat (n div 65536), of_nat (n div 256), of_nat n]"

definition inet_aton :: "string \<Rightarrow> in_addr option" where
  "inet_aton s = (case map aton_part (split_dots (takeWhile (\<lambda>c. \<not> is_space c) s)) of
     [Some n] \<Rightarrow> if n < 4294967296 then Some (addr_of_value n) else None
   | [Some p, Some n] \<Rightarrow> if p < 256 \<and> n < 16777216 then Some (addr_of_value (p * 16777216 + n)) else None
   | [Some p, Some q, Some n] \<Rightarrow>
       if p < 256 \<and> q < 256 \<and> n < 65536 then Some (addr_of_value ((p * 256 + q) * 65536 + n)) else None
   | [Some p, Some q, Some r, Some n] \<Rightarrow>
       if p < 256 \<and> q < 256 \<and> r < 256 \<and> n < 256 then Some (addr_of_value (((p * 256 + q) * 256 + r) * 256 + n)) else None
   | _ \<Rightarrow> None)"

section \<open>The client\<close>

definition udp_text :: "int \<Rightarrow> int \<Rightarrow> int \<Rightarrow> string" where
  "udp_text jj t1 ut1 = fmt_d jj @ '' '' @ fmt_d_long t1 @ '' '' @ fmt_d_long ut1"

text \<open>
  The loop over the rounds, each with the time it reads and whether its \<open>sendto\<close> succeeds; what is typed
  only starts a round.  The result is the text printed and the data sent in each round, and whether
  the loop has ended.
\<close>

fun udp_client_loop :: "fault \<Rightarrow> (int \<times> int \<times> bool) list \<Rightarrow> int \<Rightarrow> ((string \<times> string) list \<times> bool) result" where
  "udp_client_loop bad_err [] jj = Inr ([], \<not> jj < UDP_NUM)"
| "udp_client_loop bad_err ((t1, ut1, sent) # rs) jj =
     (if \<not> jj < UDP_NUM then Inr ([], True)
      else and_then (sprintf (udp_text jj t1 ut1) (replicate UDP_BUFLEN NUL)) (\<lambda>buf.
           if \<not> sent then Inl bad_err
           else and_then (udp_client_loop bad_err rs (jj + 1)) (\<lambda>(ps, over).
                Inr ((''buf: '' @ takeWhile (\<lambda>c. c \<noteq> NUL) buf, take 255 buf) # ps, over))))"

text \<open>The arguments are the address and the port; the source port is fixed.  A missing argument and a socket
  that fails end the program with status 0.\<close>

definition udp_client ::
  "fault \<Rightarrow> int \<Rightarrow> (sockaddr_in \<Rightarrow> bool) \<Rightarrow> string list \<Rightarrow> (int \<times> int \<times> bool) list
   \<Rightarrow> (sockaddr_in \<times> (string \<times> string) list \<times> bool) result" where
  "udp_client bad_err sock bind_ok argv rs =
     (if length argv < 3 then Inl (Err ''usage'')
      else and_then (atoi_arg argv 2) (\<lambda>portno.
      if sock < 0 then Inl (Err ''ERROR opening socket'')
      else if \<not> bind_ok (sockaddr_fill 0 UDP_SRC_PORT) then Inl (Err ''bind'')
      else (case inet_aton (argv ! 1) of
          None \<Rightarrow> Inl (Err ''inet_aton() failed'')
        | Some addr \<Rightarrow> and_then (udp_client_loop bad_err rs 0) (\<lambda>out.
            Inr (sockaddr_fill addr (word_of_int portno), out)))))"

section \<open>The server\<close>

text \<open>A received datagram is cut to 255 bytes; the buffer was cleared before.\<close>

definition udp_received :: "string \<Rightarrow> string" where
  "udp_received data =
     (let d = take 255 data;
          buffer = d @ drop (length d) (replicate UDP_BUFLEN NUL)
      in ''Received '' @ fmt_d (int (length d)) @ '' bytes: '' @ takeWhile (\<lambda>c. c \<noteq> NUL) buffer)"

fun udp_server_loop :: "fault \<Rightarrow> string option list \<Rightarrow> string list result" where
  "udp_server_loop bad_err [] = Inr []"
| "udp_server_loop bad_err (None # rs) = Inl bad_err"
| "udp_server_loop bad_err (Some data # rs) =
     and_then (udp_server_loop bad_err rs) (\<lambda>out. Inr (''Here'' # udp_received data # out))"

definition udp_server ::
  "fault \<Rightarrow> int \<Rightarrow> (sockaddr_in \<Rightarrow> bool) \<Rightarrow> string list \<Rightarrow> string option list \<Rightarrow> string list result" where
  "udp_server bad_err sock bind_ok argv rs =
     (if length argv < 2 then Inl (Err ''ERROR, no port provided'')
      else and_then (atoi_arg argv 1) (\<lambda>portno.
      if sock = -1 then Inl bad_err
      else if \<not> bind_ok (sockaddr_fill 0 (word_of_int portno)) then Inl bad_err
      else udp_server_loop bad_err rs))"

section \<open>The dotted form\<close>

lemma aton_part_dec: "aton_part (dec n) = Some n"
proof (cases "hd (dec n) = CHR ''0''")
  case True
  then obtain c where "dec n = [c]" using dec_leading_zero[of n] by (cases "dec n") auto
  with True have d: "dec n = ''0''" by simp
  then have "n = 0" using num_val_dec[of n] by (simp add: num_val_def digit_val_def)
  with d show ?thesis by (simp add: aton_part_def num_val_def digit_val_def)
next
  case False
  then show ?thesis by (simp add: aton_part_def dec_nonempty list_all_iff dec_digits num_val_dec)
qed

lemma addr_of_bytes:
  "addr_of_value (((unat p * 256 + unat q) * 256 + unat r) * 256 + unat t) = of_le32 [p, q, r, t]" for p q r t :: u8
proof -
  have lt: "unat w < 256" for w :: u8 using unsigned_less[of w, where ?'a = nat] by simp
  have low: "(of_nat (m * 256 + unat w) :: u8) = w" for m and w :: u8
  proof -
    have "(of_nat (m * 256 + unat w) :: u8) = of_nat m * 256 + w" by simp
    also have "(256 :: u8) = 0" by simp
    finally show ?thesis by simp
  qed
  have d: "(m * 256 + unat w) div 256 = m" for m and w :: u8 using lt[of w] by simp
  let ?n = "((unat p * 256 + unat q) * 256 + unat r) * 256 + unat t"
  have "?n div 65536 = ?n div 256 div 256" "?n div 16777216 = ?n div 256 div 256 div 256"
    by (simp_all add: div_mult2_eq[symmetric])
  then have "?n div 256 = (unat p * 256 + unat q) * 256 + unat r" "?n div 65536 = unat p * 256 + unat q"
    "?n div 16777216 = unat p" by (simp_all only: d)
  then show ?thesis using low unfolding addr_of_value_def by (simp only: of_nat_unat ucast_id)
qed

lemma inet_aton_ntop: "inet_aton (inet_ntop a) = Some a"
proof -
  obtain p q r t where l: "le32 a = [p, q, r, t]" by (simp add: le32_def)
  let ?s = "dec (unat p) @ ''.'' @ dec (unat q) @ ''.'' @ dec (unat r) @ ''.'' @ dec (unat t)"
  have i: "inet_ntop a = ?s" using l by (simp add: inet_ntop_def)
  have "\<forall>c \<in> set ?s. \<not> is_space c" using dec_digits by (fastforce simp: is_space_def is_digit_def)
  then have w: "takeWhile (\<lambda>c. \<not> is_space c) ?s = ?s" by (simp add: takeWhile_eq_all_conv)
  have "split_dots ?s = [dec (unat p), dec (unat q), dec (unat r), dec (unat t)]"
    by (simp add: split_dots_append split_dots_word dec_no_dot)
  moreover have "unat w < 256" for w :: u8 using unsigned_less[of w, where ?'a = nat] by simp
  ultimately have "inet_aton ?s = Some (of_le32 [p, q, r, t])"
    unfolding inet_aton_def w by (simp add: aton_part_dec addr_of_bytes[simplified])
  with i l show ?thesis by (metis of_le32_le32)
qed

section \<open>From the client to the server\<close>

lemma length_fmt_d_long: "length (fmt_d_long t) \<le> 11"
proof -
  have "sint (word_of_int t :: u32) < 2147483648" "- 2147483648 \<le> sint (word_of_int t :: u32)"
    using sint_lt[of "word_of_int t :: u32"] sint_ge[of "word_of_int t :: u32"] by simp_all
  then show ?thesis unfolding fmt_d_long_def by (intro length_fmt_d) linarith
qed

lemma dec_no_nul: "NUL \<notin> set (dec n)"
  using dec_digits[of NUL n] by (auto simp: is_digit_def NUL_def)

lemma fmt_d_no_nul: "NUL \<notin> set (fmt_d i)"
  using dec_no_nul by (auto simp: fmt_d_def NUL_def)

lemma udp_text_no_nul: "NUL \<notin> set (udp_text jj t1 ut1)"
  using fmt_d_no_nul by (auto simp: udp_text_def fmt_d_long_def NUL_def)

lemma length_udp_text: "0 \<le> jj \<Longrightarrow> jj < UDP_NUM \<Longrightarrow> length (udp_text jj t1 ut1) \<le> 35"
proof -
  assume "0 \<le> jj" "jj < UDP_NUM"
  then have "length (fmt_d jj) \<le> 11" by (intro length_fmt_d) (simp add: UDP_NUM_def)
  then show ?thesis using length_fmt_d_long[of t1] length_fmt_d_long[of ut1] by (simp add: udp_text_def)
qed

lemma udp_buffer:
  assumes "0 \<le> jj" and "jj < UDP_NUM"
  obtains buf where "sprintf (udp_text jj t1 ut1) (replicate UDP_BUFLEN NUL) = Inr buf"
    "takeWhile (\<lambda>c. c \<noteq> NUL) buf = udp_text jj t1 ut1" "length buf = UDP_BUFLEN"
    "udp_received (take 255 buf) = ''Received 255 bytes: '' @ udp_text jj t1 ut1"
proof -
  let ?t = "udp_text jj t1 ut1"
  let ?b = "?t @ NUL # drop (Suc (length ?t)) (replicate UDP_BUFLEN NUL)"
  note l = length_udp_text[OF assms, of t1 ut1]
  have no: "takeWhile (\<lambda>c. c \<noteq> NUL) (?t @ NUL # xs) = ?t" for xs
    using udp_text_no_nul[of jj t1 ut1] by (subst takeWhile_append2) auto
  have len: "length ?b = UDP_BUFLEN" using l by (simp add: UDP_BUFLEN_def)
  have "take 255 ?b = ?t @ NUL # take (254 - length ?t) (drop (Suc (length ?t)) (replicate UDP_BUFLEN NUL))"
    using l by (simp add: take_Cons')
  moreover have "length (take 255 ?b) = 255" using len by (simp add: UDP_BUFLEN_def)
  moreover have "fmt_d 255 = ''255''" by (simp add: fmt_d_def dec.simps digit_def)
  ultimately have "udp_received (take 255 ?b) = ''Received 255 bytes: '' @ ?t"
    using no by (simp add: udp_received_def Let_def)
  with that[of ?b] no len l show ?thesis by (simp add: sprintf_def UDP_BUFLEN_def)
qed

lemma udp_client_loop_sends:
  "0 \<le> jj \<Longrightarrow> jj + int (length rs) \<le> UDP_NUM \<Longrightarrow> \<forall>(t, u, sent) \<in> set rs. sent \<Longrightarrow>
   \<exists>ps. udp_client_loop e rs jj = Inr (ps, jj + int (length rs) = UDP_NUM) \<and> length ps = length rs
     \<and> (\<forall>i < length rs. udp_received (snd (ps ! i))
          = ''Received 255 bytes: '' @ udp_text (jj + int i) (fst (rs ! i)) (fst (snd (rs ! i)))
          \<and> fst (ps ! i) = ''buf: '' @ udp_text (jj + int i) (fst (rs ! i)) (fst (snd (rs ! i))))"
proof (induction rs arbitrary: jj)
  case Nil
  then show ?case by auto
next
  case (Cons r rs)
  obtain t u where r: "r = (t, u, True)" using Cons.prems(3) by (cases r) auto
  from Cons.prems have jj: "jj < UDP_NUM" by simp
  from udp_buffer[OF Cons.prems(1) jj, of t u] obtain buf where
    b: "sprintf (udp_text jj t u) (replicate UDP_BUFLEN NUL) = Inr buf"
      "takeWhile (\<lambda>c. c \<noteq> NUL) buf = udp_text jj t u"
      "udp_received (take 255 buf) = ''Received 255 bytes: '' @ udp_text jj t u" by blast
  from Cons.IH[of "jj + 1"] Cons.prems obtain ps where
    ps: "udp_client_loop e rs (jj + 1) = Inr (ps, jj + 1 + int (length rs) = UDP_NUM)" "length ps = length rs"
      "\<forall>i < length rs. udp_received (snd (ps ! i))
          = ''Received 255 bytes: '' @ udp_text (jj + 1 + int i) (fst (rs ! i)) (fst (snd (rs ! i)))
          \<and> fst (ps ! i) = ''buf: '' @ udp_text (jj + 1 + int i) (fst (rs ! i)) (fst (snd (rs ! i)))" by auto
  let ?p = "(''buf: '' @ udp_text jj t u, take 255 buf)"
  have "udp_client_loop e (r # rs) jj = Inr (?p # ps, jj + int (length (r # rs)) = UDP_NUM)"
    using r jj b(1,2) ps(1) by (simp add: algebra_simps)
  moreover have "udp_received (snd ((?p # ps) ! i))
        = ''Received 255 bytes: '' @ udp_text (jj + int i) (fst ((r # rs) ! i)) (fst (snd ((r # rs) ! i)))
      \<and> fst ((?p # ps) ! i) = ''buf: '' @ udp_text (jj + int i) (fst ((r # rs) ! i)) (fst (snd ((r # rs) ! i)))"
    if "i < length (r # rs)" for i
    using that ps(3) b(3) r by (cases i) (simp_all add: algebra_simps)
  ultimately show ?case using ps(2) by (intro exI[of _ "?p # ps"]) simp
qed

lemma udp_server_prints:
  "\<exists>out. udp_server_loop e (map Some ds) = Inr out \<and> length out = 2 * length ds
    \<and> (\<forall>i < length ds. out ! (2 * i + 1) = udp_received (ds ! i))"
proof (induction ds)
  case (Cons d ds)
  then obtain out where o: "udp_server_loop e (map Some ds) = Inr out" "length out = 2 * length ds"
    "\<forall>i < length ds. out ! (2 * i + 1) = udp_received (ds ! i)" by blast
  have "(''Here'' # udp_received d # out) ! (2 * i + 1) = udp_received ((d # ds) ! i)" if "i < length (d # ds)" for i
    using that o(3) by (cases i) simp_all
  with o(1,2) show ?case by simp
qed simp

text \<open>
  What the client prints is what the server prints: the server shows, for each message of the client
  it receives, in the order it receives them, its number and time, and the 255 bytes the client always
  sends.
\<close>

theorem udp_messages_are_printed:
  assumes "0 \<le> sock" and "bind_ok (sockaddr_fill 0 UDP_SRC_PORT)" and "0 \<le> sock'" and "bind_ok' (sockaddr_fill 0 port)"
    and "length rs \<le> 10000000" and "\<forall>(t, u, sent) \<in> set rs. sent" and "set xs \<subseteq> {..<length rs}"
  shows "\<exists>ps out. udp_client e sock bind_ok [prog, inet_ntop addr, dec (unat port)] rs
        = Inr (sockaddr_fill addr port, ps, length rs = 10000000)
    \<and> udp_server e sock' bind_ok' [prog', dec (unat port)] (map (\<lambda>x. Some (snd (ps ! x))) xs) = Inr out
    \<and> (\<forall>i < length xs. out ! (2 * i + 1) = ''Received 255 bytes: ''
          @ udp_text (int (xs ! i)) (fst (rs ! (xs ! i))) (fst (snd (rs ! (xs ! i))))
        \<and> fst (ps ! (xs ! i)) = ''buf: '' @ udp_text (int (xs ! i)) (fst (rs ! (xs ! i))) (fst (snd (rs ! (xs ! i)))))"
proof -
  have "unat port < 65536" using unsigned_less[of port, where ?'a = nat] by simp
  then have a: "atoi (dec (unat port)) = int (unat port)" by (simp add: atoi_dec)
  have w: "word_of_int (int (unat port)) = port" by simp
  from udp_client_loop_sends[of 0 rs e] assms(5,6) obtain ps where
    ps: "udp_client_loop e rs 0 = Inr (ps, length rs = 10000000)" "length ps = length rs"
      "\<forall>i < length rs. udp_received (snd (ps ! i))
          = ''Received 255 bytes: '' @ udp_text (int i) (fst (rs ! i)) (fst (snd (rs ! i)))
          \<and> fst (ps ! i) = ''buf: '' @ udp_text (int i) (fst (rs ! i)) (fst (snd (rs ! i)))"
    by (auto simp: UDP_NUM_def)
  from udp_server_prints[of e "map (\<lambda>x. snd (ps ! x)) xs"] obtain out where
    o: "udp_server_loop e (map (\<lambda>x. Some (snd (ps ! x))) xs) = Inr out"
      "\<forall>i < length xs. out ! (2 * i + 1) = udp_received (snd (ps ! (xs ! i)))" by (auto simp: comp_def)
  have "xs ! i < length rs" if "i < length xs" for i using assms(7) nth_mem[OF that] by auto
  with ps(3) o(2) have "\<forall>i < length xs. out ! (2 * i + 1) = ''Received 255 bytes: ''
      @ udp_text (int (xs ! i)) (fst (rs ! (xs ! i))) (fst (snd (rs ! (xs ! i))))
      \<and> fst (ps ! (xs ! i)) = ''buf: '' @ udp_text (int (xs ! i)) (fst (rs ! (xs ! i))) (fst (snd (rs ! (xs ! i))))" by simp
  with ps(1) o(1) assms(1-4) a w show ?thesis
    by (intro exI[of _ ps] exI[of _ out]) (simp add: udp_client_def udp_server_def atoi_arg_def argument_def inet_aton_ntop)
qed

theorem udp_messages_are_printed_witness:
  "\<exists>ps out. udp_client NullDeref 3 (\<lambda>_. True) [''udpClient'', inet_ntop 1, dec (unat (1003 :: u16))]
        [(1500000000, 10, True), (1500000001, 20, True)] = Inr (sockaddr_fill 1 1003, ps, False)
    \<and> udp_server NullDeref 4 (\<lambda>_. True) [''udpServer'', dec (unat (1003 :: u16))] (map (\<lambda>x. Some (snd (ps ! x))) [1]) = Inr out
    \<and> out ! 1 = ''Received 255 bytes: '' @ udp_text 1 1500000001 20"
proof -
  let ?rs = "[(1500000000, 10, True), (1500000001, 20, True)]"
  from udp_messages_are_printed[of 3 "\<lambda>_. True" 4 "\<lambda>_. True" 1003 ?rs "[1]" NullDeref "''udpClient''" 1 "''udpServer''"]
  show ?thesis by force
qed

end
