(* ===== verification/Spec2Isabelle.thy ===== *)
theory Spec2Isabelle
  imports Iprp_Debug Iprp_Icd_Race Iprp_Sender Iprp_Icd_Boot Iprp_Receiver Iprp_Multicast Iprp_Udp
begin

text \<open>
  iPRP for IPv4: the parallel redundancy protocol, as four daemons that copy UDP packets onto several
  disjoint networks and throw the duplicates away at the receiver.

  \<^bold>\<open>The program.\<close>  A host runs one control daemon (ICD, src/icd), which starts the others:
  one receiving (IRD, src/ird) and one monitoring daemon (IMD, src/imd) while there are monitored
  ports, and one sending daemon (ISD, src/isd) per link.  At the receiver the IMD sees the packets
  to the monitored ports and writes the senders it saw to a file; the ICD reads that file and sends
  each sender a CAP message with its interfaces.  At the sender the ICD turns a CAP into a peer base,
  writes it to the file of the link and starts an ISD with it; the ISD takes the packets of the link
  from a netfilter queue, puts the iPRP header before the payload and sends a copy through each
  interface that both hosts have (the IND names the network).  At the receiver the IRD takes the
  copies from its queue, forwards the first of each number, rebuilt as the application's packet, to
  the IMD, and drops the others.  In the multicast build the ICD of the sender answers with an
  ACK, from which the ICD of the receiver makes the sender interfaces file the IRD subscribes by.
  The two builds (compile.sh, compile_multicast.sh) are the two values of the type \<open>variant\<close>, an
  argument of every definition the macro IPRP\_MULTICAST touches.

  \<^bold>\<open>The theories.\<close>  Definitions keep the names of the functions they translate, with the daemon in
  front where the code uses one name in several (\<open>imd_handle_packet\<close>, \<open>isd_handle_packet\<close>).

  \<^item> Iprp\_Prelude: machine integers, byte strings, and the result of an operation: a value or a
    \<open>fault\<close> (an exit through the macro ERR, an access outside an object or through NULL, a use of
    freed memory, undefined arithmetic), with the search of the first matching entry.
  \<^item> Iprp\_Memory: structures in memory; the locale \<open>mem_type\<close> (write then read), and
    \<open>mem_array\<close> over it, interpreted on the integers and every structure of the program.
  \<^item> Iprp\_Global: inc/global.h, src/lib/global.c.  Iprp\_Format: the text of numbers and
    addresses.  Iprp\_Files: src/lib/files.c and the three file structures, on a map from paths to bytes.
  \<^item> Iprp\_List: src/lib/list.c on a heap of nodes, the loops the daemons write over it, and the
    locale \<open>seq_list\<close>, whose laws make such a loop a function on a sequence; its interpretation on
    the heap carries the theorems here.  In the theories of the daemons a list is its sequence.
  \<^item> Iprp\_Concurrency: any number of packet threads and a cleanup thread on one list, interleaving
    arbitrarily.  Iprp\_Icd\_Race: the sender interfaces of the ICD, which one thread searches without the
    lock.
  \<^item> Iprp\_Cache: the locale \<open>keyed_cache\<close>: a list of entries with a key and a time, events that
    touch or append one entry, and sweeps; interpreted on the IRD, the IMD and the peer bases and
    sender interfaces of the ICD.
  \<^item> Iprp\_Packet: headers, netfilter answers, src/lib/nfqueue.c and the loop of a packet thread.
  \<^item> Iprp\_Dedup (is\_fresh\_packet), Iprp\_Checksum (ip\_checksum, and udp\_checksum, which
    is never called), Iprp\_Ird (the rest of src/ird/handle.c), Iprp\_Ird\_Si (src/ird/senderifaces.c).
  \<^item> Iprp\_Imd (src/imd), Iprp\_Isd (src/isd), and Iprp\_Isd\_Wait: the two threads of the ISD, interleaving
    at their mutex, condition variable and flag.
  \<^item> Iprp\_Icd\_Control (control.c), Iprp\_Icd\_Peerbase (peerbase.c), Iprp\_Icd\_Ports (ports.c),
    Iprp\_Icd\_Senders (activesenders.c and senderifaces.c), Iprp\_Daemons (the four mains).
  \<^item> Iprp\_Icd\_Run: the control and the peer base thread of the ICD, interleaving on the peer bases; a run
    is a list of steps, and its invariants are kept by each of them.  Iprp\_Icd\_Boot: the messages that come before
    the list of peer bases is initialised.
  \<^item> Iprp\_Receiver: the packets and rounds of the IMD and the rounds of the ICD of one host, interleaving on
    the active senders file.  Iprp\_Sender: the threads of the ICD and of an ISD of one host, joined by the
    file of the link.
  \<^item> Iprp\_Transport, Iprp\_Session and Iprp\_Multicast hold the lemmas on several daemons at once, and
    this theory the properties that span them.
  \<^item> Iprp\_Flood: scripts/floodClient.c and scripts/floodServer.c, which measure the losses.  Iprp\_Udp:
    scripts/udpClient.c and scripts/udpServer.c.  Iprp\_Debug: inc/debug.h.

  \<^bold>\<open>State.\<close>  Each daemon's globals are a record or a list that an operation takes and returns:
  \<open>icd\<close> (peer bases, sender interfaces, reboot counter), \<open>icd_sys\<close> (it with the lock, the place of the
  peer base thread, files and started daemons), \<open>ports_state\<close>, the lists of
  \<open>receiver_link\<close> and \<open>active_sender\<close>, \<open>isd_state\<close> (next number, time of the last packet let
  through) and \<open>isd_peerbase\<close>, and \<open>isd_sys\<close> (both with the lock and the places of the two threads).  The clock is an argument, since a thread only samples it.  What
  comes from outside is in an environment record of the component: whether malloc, sendto, fork and
  system succeed, the contents of uninitialised memory (so that a read of it is visible), random
  numbers, and what the packet queue answers.

  \<^bold>\<open>What the lemmas show.\<close>  For each component: its operations on every branch and that they keep
  the invariant of their state; that the caches of the IMD and the peer bases of the ICD refine
  finite maps (\<open>sessions\<close>, \<open>receivers\<close>); that the list refines sequences and its cleanup loop ends and
  touches no freed node; that the structures, the files, the messages and the encapsulation round
  trip; that ip\_checksum is the checksum of RFC 1071; that a round of each periodic routine makes
  its file, its shell rules or its memberships what its input says, for the memberships in every round
  from the start; that the entries of the ICD stay well typed, and that it serves every link with one sending daemon
  as long as none expires; that the
  receiver announces itself to the senders it hears, to those that keep sending in every round; that the ISD never works from a base it did not load, that what it sends is
  what an entry of the ICD asked for at the time of a load, and that its wait for the first one ends in every fair run.  End to end: whatever the network
  loses, repeats and reorders, each packet of the application reaches the receiving application at
  most once, unchanged, and at least once when a copy arrives within the window of 1024 numbers.  And
  before that: one round of each routine takes a sender from the receiver's list of active senders to
  copies on every network the hosts share; and in the multicast build a CAP leads to the memberships of the receiver.
  Where the code falls short of this, a theorem states what it does instead: sequence numbers from
  \<open>2 ^ 31\<close> on, the end of the number range, unchecked INDs, the lock kept after an expired peer base (which an entry made before the first sample of the clock is),
  the queue numbers of one second, the paths of high SNSID bytes, the search of the sender interfaces, and
  the multicast CAP round.

  \<^bold>\<open>Fuel.\<close>  \<open>draw_queues\<close> and \<open>backoff_x\<close> repeat until random numbers are good and take a bound on
  the rounds, \<open>None\<close> when it is reached; the properties about them say which draws suffice.
  \<open>queue_loop\<close> is run with fuel 2, which always gives a result, because the flag it tests is set
  after the first scan whatever that found.  The loops over linked nodes take the number of nodes
  plus one and return \<open>None\<close> when it is not enough; the laws of \<open>seq_list\<close> give a result.
  \<open>pb_pass\<close>, \<open>sys_run\<close> and \<open>isd_sys_run\<close> return \<open>None\<close> exactly when a step waits.  All other
  loops are structural.  The infinite loops of the threads are runs over the list of what they
  receive or of their rounds.

  \<^bold>\<open>Assumptions.\<close>  gcc on x86-64: little endian, 32-bit int, 64-bit size\_t and time\_t, signed char,
  and the natural alignment of structures.  The netfilter library, sockets and the shell are
  parameters; what is relied on is in the hypotheses (\<open>nfq_good\<close>: the answers for one packet;
  \<open>ssm_kernel\<close>: joining a source twice, or leaving one not joined, fails).  A child of fork is
  assumed to reach its exec.

  \<^bold>\<open>Not modelled.\<close>  The doubles in \<open>backoff\<close> are reals.  In
  Iprp\_Concurrency and Iprp\_Icd\_Run what a thread does under the lock is one step, and so is each access
  outside it; in Iprp\_Isd\_Wait the copy of a base and the reads of the cached link are one step each; in
  Iprp\_Receiver a round is one step.  That the ICD initialises its list of sender interfaces while other threads run
  (for the peer bases, see Iprp\_Icd\_Boot).  Sleeping, signals and the
  scheduling of the daemons: the time thread is \<open>time_routine\<close>, elsewhere the clock is an argument.
  tools/iprptest.c, which is not complete and does not compile.
\<close>

section \<open>From sender to receiver\<close>

text \<open>
  C7. Encapsulation is undone: a packet of the application that the sending daemon turns into an
  iPRP packet, and that the kernel of the sender put on the wire with 28 bytes of headers, leaves the
  receiving daemon, when it is the first of its sender there, for the queue of the monitoring daemon
  as the packet of the application again: the addresses and ports of the link, the same payload, and
  lengths and checksum that fit.
\<close>

theorem encapsulation_round_trip:
  assumes "28 \<le> length b" and "length b + iprp_header_size v < 65536"
    and "length b + 192 \<le> malloc_room senv" and "link_ok lk"
    and "snsid lk = snsid_of (src_addr lk) (src_port lk) cnt"
    and "length hdr = 28" and "v = Multicast \<longrightarrow> get32 ip_daddr hdr = dest_addr lk"
    and "receiver_link_get (snsid lk) links = None" and "link_mem env" and "node_mem env"
  shows "\<exists>p s' vd links' vd'. create_iprp_packet v senv t lk (nfq_good b i) s = Inr (Some (p, s', vd))
    \<and> ird_handle_packet v env t' (nfq_good (hdr @ p) j) links = Inr (links', vd')
    \<and> vd_code vd' = NF_QUEUE OR push_bit 16 (imd_queue_id env)
    \<and> app_packet (src_addr lk) (dest_addr lk) (src_port lk) (dest_port lk) (drop 28 b) (vd_data vd')"
proof -
  from create_iprp_packet_good[OF assms(1) _ assms(3,4), of v t i s] assms(2) obtain p s' vd where
    p: "create_iprp_packet v senv t lk (nfq_good b i) s = Inr (Some (p, s', vd))"
    and e: "iprp_packet_of v lk (seq_nb s) (drop 28 b) p" by auto
  note wire = iprp_packet_on_wire[OF e assms(6)]
  have len: "28 + iprp_header_size v + length (drop 28 b) < 65536" using assms(1,2) by simp
  then have l: "28 + iprp_header_size v \<le> length (hdr @ p)" "length (hdr @ p) < 65536" using wire(1) by simp_all
  obtain lnk where lnk: "receiver_link_create True (snsid lk) (seq_nb s) t' = Some lnk"
    by (simp add: receiver_link_create_def)
  then have st: "ird_link_step env t' (get_raw 20 29 (hdr @ p)) (get32 49 (hdr @ p)) links
      = Inr (links @ [lnk], lnk, True)"
    using assms(8-10) wire(2,3) by (simp add: ird_link_step_def)
  from receiver_link_create_Some[OF lnk] assms(5) have nm: "rl_src_addr lnk = src_addr lk" "rl_src_port lnk = src_port lk"
    by (simp_all add: snsid_of_fields)
  from ird_handle_fresh[OF l st, of j] obtain r vd' where
    "ird_handle_packet v env t' (nfq_good (hdr @ p) j) links = Inr (links @ [lnk], vd')"
    "vd_code vd' = NF_QUEUE OR push_bit 16 (imd_queue_id env)"
    "create_new_packet v (hdr @ p) (ird_payload_size v (hdr @ p)) (src_addr lk) (src_port lk) = Inr r"
    "vd_data vd' = take (length (hdr @ p) - iprp_header_size v) r"
    unfolding nm by blast
  moreover have "length (hdr @ p) - iprp_header_size v = 28 + length (drop 28 b)" using wire(1) by simp
  ultimately show ?thesis using p forwarded_packet[OF e assms(6,7) len] by auto
qed

definition example_lk :: link where
  "example_lk = \<lparr>src_addr = 1, dest_addr = 2, src_port = 3, dest_port = 4, snsid = snsid_of 1 3 7\<rparr>"

lemma example_lk_ok: "link_ok example_lk"
  by (simp add: link_ok_def example_lk_def length_snsid_of iprp_consts)

theorem encapsulation_round_trip_witness:
  "\<exists>p s' vd links' vd'. create_iprp_packet Unicast example_isd_env 0 example_lk (nfq_good (replicate 40 9) 1) isd_init
      = Inr (Some (p, s', vd))
    \<and> ird_handle_packet Unicast example_env 0 (nfq_good (replicate 28 0 @ p) 1) [] = Inr (links', vd')
    \<and> app_packet 1 2 3 4 (replicate 12 9) (vd_data vd')"
  using encapsulation_round_trip[of "replicate 40 9" Unicast example_isd_env example_lk 7 "replicate 28 0" "[]"
      example_env 0 1 isd_init 0 1] example_lk_ok
  by (fastforce simp: example_isd_env_def example_env_def example_lk_def receiver_link_get_def)


definition example_e2e_msg :: isd_msg where
  "example_e2e_msg = (0, example_isd_env,
     \<lparr>isd_base = example_peerbase\<lparr>pb_link := example_lk\<rparr>, isd_loaded = True\<rparr>, nfq_good (replicate 30 7) 1)"

lemma example_e2e_ok: "isd_msg_ok Unicast example_e2e_msg \<and> sends_on example_lk example_e2e_msg"
  using example_base_ok example_lk_ok
  by (simp add: example_e2e_msg_def isd_msg_ok.simps sends_on.simps nfq_good_def example_isd_env_def
      base_ok_def pb_ok_def)


section \<open>How a session comes about\<close>

text \<open>
  The senders the monitoring daemon saw are announced to: after a round of its active senders
  routine, a round of the control daemon's, in the unicast variant, sends exactly one CAP message for
  each sender that was not silent for more than the limit, in order, to the control port of its
  address; each decodes to the link of its sender and to the host and INDs of the receiver.
\<close>

theorem active_senders_are_announced:
  assumes "imd_inv Unicast es" and "length es < 2147483648" and "length es * as_size Unicast \<le> mem"
    and "can_write f IPRP_AS_FILE" and "4 + length es * as_size Unicast \<le> room f IPRP_AS_FILE"
    and "length c0 = 4" and "inds_ok h" and "length stack = ctlmsg_size Unicast"
  shows "\<exists>f' ds. imd_as_round Unicast mem t f es = Inr (f', filter (\<lambda>e. t - as_last_seen e \<le> IMD_AS_TEXP) es)
    \<and> icd_as_round Unicast h mem c0 stack t' f' sis = Inr (ds, sis)
    \<and> list_all2 (announces Unicast h) (filter (\<lambda>e. t - as_last_seen e \<le> IMD_AS_TEXP) es) ds"
proof -
  let ?es = "filter (\<lambda>e. t - as_last_seen e \<le> IMD_AS_TEXP) es"
  from senders_sent_caps[OF assms, of t t' sis] obtain f' ds where
    "imd_as_round Unicast mem t f es = Inr (f', ?es)"
    "icd_as_round Unicast h mem c0 stack t' f' sis = Inr (ds, sis)"
    "list_all2 (\<lambda>a d. send_cap Unicast h stack a = Inr d \<and> announces Unicast h a d) ?es ds" by blast
  then show ?thesis by (auto elim!: list_all2_mono)
qed

theorem active_senders_are_announced_witness:
  "\<exists>f' ds. imd_as_round Unicast 1000 100 example_fs [example_as\<lparr>iprp_enabled := False, as_last_seen := 50\<rparr>]
      = Inr (f', [example_as\<lparr>iprp_enabled := False, as_last_seen := 50\<rparr>])
    \<and> icd_as_round Unicast example_host 1000 [0, 0, 0, 0] (replicate 168 0) 101 f' [] = Inr (ds, [])
    \<and> length ds = 1"
  using active_senders_are_announced[of "[example_as\<lparr>iprp_enabled := False, as_last_seen := 50\<rparr>]" 1000 example_fs
      "[0, 0, 0, 0]" example_host "replicate 168 0" 100 101 "[]"]
  by (auto simp: imd_inv_def as_ok_def time_ok_def example_fs_def example_as_def IMD_AS_TEXP_def
      example_inds_ok dest!: list_all2_lengthD)



text \<open>
  The sending daemon acts on the published peer base: after a pass of the control daemon over
  unexpired peer bases that set up senders for one receiver each, the daemon of each of them loads its
  file and then sends, for every packet of the application, a copy for every common IND, through the
  socket of the IND to the receiver's address on it, and no other.
\<close>

theorem published_base_directs_copies:
  assumes "pb_env_ok Unicast env" and "inds_ok (pe_host env)"
    and "\<forall>b \<in> set bs. pb_entry_ok Unicast env (pw_fs w) b \<and> t - last_cap b \<le> IPRP_PB_TEXP"
    and "distinct (map path_of bs)" and "length temp = pb_size Unicast"
    and "b \<in> set bs" and "announced theirs (pe_host env) a cnt b"
    and "28 \<le> length p" and "length p < 65536" and "length p + 192 \<le> malloc_room senv"
    and "\<forall>i addr. sendto_ok senv i addr"
  shows "\<exists>bs' w' pb. pb_pass Unicast env t bs False w = Some (Inr (bs', False, w'))
    \<and> isd_pb_round Unicast ok (Some (path_of b)) temp (pw_fs w') pb0 = Inr (pb, [])
    \<and> (\<exists>s' vd ds. isd_handle_packet Unicast senv t' pb (nfq_good p i) s = Inr (s', vd, ds)
        \<and> (\<forall>f \<in> set (take (nb_ifaces theirs) (ifaces theirs)). unat (ind f) \<in> host_inds (pe_host env) \<longrightarrow>
            (\<exists>d \<in> set ds. dg_sock d = unat (ind f) \<and> dg_to d = sockaddr_fill (if_addr f) IPRP_DATA_PORT))
        \<and> dg_sock ` set ds = host_inds theirs \<inter> host_inds (pe_host env))"
proof -
  from assms(3) have fresh: "\<forall>b \<in> set bs. pb_entry_ok Unicast env (pw_fs w) b \<and> \<not> aged last_cap IPRP_PB_TEXP t b"
    by (auto simp: aged_def)
  from published_base_loaded[OF assms(1,2) fresh assms(4,5), of ok pb0] assms(6) obtain bs' w' where
    pass: "pb_pass Unicast env t bs False w = Some (Inr (bs', False, w'))"
    and load: "isd_pb_round Unicast ok (Some (path_of b)) temp (pw_fs w') pb0
      = Inr (\<lparr>isd_base = create_peerbase Unicast (pe_host env) b, isd_loaded = True\<rparr>, [])" by blast
  from assms(3,6) have "pb_entry_ok Unicast env (pw_fs w) b" by blast
  from base_directs_copies[OF assms(2) this assms(7-11), of t' i s] pass load show ?thesis
    by (intro exI[of _ bs'] exI[of _ w'] exI[of _ "\<lparr>isd_base = create_peerbase Unicast (pe_host env) b, isd_loaded = True\<rparr>"]
        conjI)
qed

definition example_published :: icd_base where
  "example_published = example_base\<lparr>ib_link := \<lparr>src_addr = 1, dest_addr = 2, src_port = 3, dest_port = 4,
       snsid = snsid_of 1 3 0\<rparr>, ib_inds := 9,
     ib_dest_addr := [0x0A00000A, 0, 0, 0x0A00000B] @ replicate 12 0, isd_pid := -1\<rparr>"

lemma bits_of_9: "bits_of 9 = {0, 3}"
proof -
  have n: "(9 :: u16) = 1 OR push_bit 3 1" by simp
  show ?thesis unfolding n bits_of_def
    by (auto simp: bit_or_iff bit_push_bit_iff bit_1_iff simp del: push_bit_of_1)
qed

lemma example_published_announced: "announced example_host example_host example_as 0 example_published"
proof -
  have h: "host_inds example_host = {0, 3}" by (auto simp: host_inds_def example_host_def take_2)
  show ?thesis
    unfolding announced_def h
    by (simp add: example_published_def example_as_def example_base_def example_host_def take_2 bits_of_9 iprp_consts)
qed

theorem published_base_directs_copies_witness:
  "\<exists>bs' w' pb s' vd ds.
      pb_pass Unicast example_pb_env 30 [example_published] False example_world = Some (Inr (bs', False, w'))
    \<and> isd_pb_round Unicast (\<lambda>_ _. True) (Some (path_of example_published)) (replicate 240 0) (pw_fs w') example_isd_pb
        = Inr (pb, [])
    \<and> isd_handle_packet Unicast example_isd_env 31 pb (nfq_good (replicate 30 7) 1) isd_init = Inr (s', vd, ds)
    \<and> dg_sock ` set ds = {0, 3}"
proof -
  have e: "pb_env_ok Unicast example_pb_env" by (simp add: pb_env_ok_def example_pb_env_def example_ok)
  have i: "inds_ok (pe_host example_pb_env)" using example_inds_ok by (simp add: example_pb_env_def)
  have b: "\<forall>b \<in> set [example_published]. pb_entry_ok Unicast example_pb_env (pw_fs example_world) b
      \<and> 30 - last_cap b \<le> IPRP_PB_TEXP"
    by (simp add: pb_entry_ok_def example_published_def example_base_def link_ok_def iprp_consts
        example_world_def example_fs_def IPRP_PB_TEXP_def length_snsid_of)
  have a: "announced example_host (pe_host example_pb_env) example_as 0 example_published"
    using example_published_announced by (simp add: example_pb_env_def)
  have h: "host_inds example_host \<inter> host_inds (pe_host example_pb_env) = {0, 3}"
    by (auto simp: host_inds_def example_pb_env_def example_host_def take_2)
  show ?thesis
    using published_base_directs_copies[OF e i b _ _ _ a, of "replicate 240 0" "replicate 30 7" example_isd_env
        "\<lambda>_ _. True" example_isd_pb 31 1 isd_init] h
    by (auto simp: example_isd_env_def)
qed





end
